(* ===== verification/Prelude.thy ===== *)
theory Prelude
  imports "HOL-Library.Word" "HOL-Library.AList" "HOL-Library.Multiset"
begin

section \<open>Prelude: shared types, containers and lemmas\<close>

text \<open>
  Names and small facts that every component of the LemonDB development uses:
  the machine integer types of the source (\<open>int\<close>, \<open>int64_t\<close>, \<open>uint64_t\<close>), results as a sum
  of an exception and a value, and \<open>std::unordered_map\<close> as an association list with one
  entry per key.

  The order of the association list is the insertion order. The iteration order of an
  \<open>unordered_map\<close> is unspecified in C++; the properties of the development are stated so
  that they do not depend on it.
\<close>

named_theorems umap_simps \<open>lookups and keys after an unordered map operation\<close>
named_theorems res_simps \<open>sequencing of computations that may throw\<close>

subsection \<open>Machine integers\<close>

type_synonym i32 = "32 word"
type_synonym i64 = "64 word"
type_synonym u64 = "64 word"

text \<open>
  The implicit conversion of an \<open>int\<close> to \<open>int64_t\<close> is sign extension; \<open>static_cast<int>\<close> of
  an \<open>int64_t\<close> keeps the low 32 bits.
\<close>

definition i64_of_i32 :: "i32 \<Rightarrow> i64" where
  "i64_of_i32 x = word_of_int (sint x)"

definition i32_of_i64 :: "i64 \<Rightarrow> i32" where
  "i32_of_i64 x = word_of_int (sint x)"

lemma word32_of_sint64: "(word_of_int (sint (word_of_int z :: i64)) :: i32) = word_of_int z"
proof -
  have "take_bit 32 (signed_take_bit 63 z) = take_bit 32 z"
    by (simp add: take_bit_signed_take_bit)
  then show ?thesis
    by (simp add: word_of_int_eq_iff signed_of_int)
qed

lemma i32_of_i64_of_int [simp]: "i32_of_i64 (word_of_int z) = word_of_int z"
  unfolding i32_of_i64_def by (rule word32_of_sint64)

lemma i32_of_i64_zero [simp]: "i32_of_i64 0 = 0"
  using i32_of_i64_of_int [of 0] by simp

lemma i32_of_i64_add [simp]: "i32_of_i64 (x + y) = i32_of_i64 x + i32_of_i64 y"
proof -
  have "x + y = word_of_int (sint x + sint y)"
    by simp
  then have "i32_of_i64 (x + y) = word_of_int (sint x + sint y)"
    by (metis i32_of_i64_of_int)
  then show ?thesis by (simp add: i32_of_i64_def)
qed

lemma i32_of_i64_diff [simp]: "i32_of_i64 (x - y) = i32_of_i64 x - i32_of_i64 y"
proof -
  have "x - y = word_of_int (sint x - sint y)"
    by simp
  then have "i32_of_i64 (x - y) = word_of_int (sint x - sint y)"
    by (metis i32_of_i64_of_int)
  then show ?thesis by (simp add: i32_of_i64_def)
qed

lemma i32_of_i64_of_i32 [simp]: "i32_of_i64 (i64_of_i32 x) = x"
proof -
  have "i32_of_i64 (i64_of_i32 x) = word_of_int (sint x)"
    unfolding i64_of_i32_def by (rule i32_of_i64_of_int)
  also have "\<dots> = x" by simp
  finally show ?thesis .
qed

lemma i32_of_i64_sum_list:
  "i32_of_i64 (sum_list (map i64_of_i32 xs)) = sum_list xs"
  by (induction xs) simp_all

text \<open>A signed value that fits in 32 bits is read back unchanged.\<close>

lemma sint_of_int_i32: "- (2 ^ 31) \<le> z \<Longrightarrow> z < 2 ^ 31 \<Longrightarrow> sint (word_of_int z :: i32) = z"
  by (simp add: signed_of_int signed_take_bit_int_eq_self)

lemma sint_i32_range: "- (2 ^ 31) \<le> sint (x :: i32) \<and> sint x < 2 ^ 31"
  using sint_range_size [of x] by (simp add: word_size)

subsection \<open>Unordered maps\<close>

type_synonym ('k, 'v) umap = "('k \<times> 'v) list"

definition um_contains :: "('k, 'v) umap \<Rightarrow> 'k \<Rightarrow> bool" where
  "um_contains m k \<longleftrightarrow> map_of m k \<noteq> None"

text \<open>\<open>operator[]\<close> on the left of an assignment inserts or overwrites.\<close>

definition um_put :: "'k \<Rightarrow> 'v \<Rightarrow> ('k, 'v) umap \<Rightarrow> ('k, 'v) umap" where
  "um_put k v m = AList.update k v m"

text \<open>\<open>emplace\<close> does nothing when the key is present.\<close>

definition um_emplace :: "'k \<Rightarrow> 'v \<Rightarrow> ('k, 'v) umap \<Rightarrow> ('k, 'v) umap" where
  "um_emplace k v m = (if um_contains m k then m else um_put k v m)"

definition um_erase :: "'k \<Rightarrow> ('k, 'v) umap \<Rightarrow> ('k, 'v) umap" where
  "um_erase k m = AList.delete k m"

text \<open>\<open>operator[]\<close> as a value default-constructs a missing entry.\<close>

definition um_get :: "'v \<Rightarrow> ('k, 'v) umap \<Rightarrow> 'k \<Rightarrow> 'v" where
  "um_get d m k = (case map_of m k of None \<Rightarrow> d | Some v \<Rightarrow> v)"

abbreviation um_keys :: "('k, 'v) umap \<Rightarrow> 'k list" where
  "um_keys m \<equiv> map fst m"

lemma map_of_um_put [umap_simps]: "map_of (um_put k v m) = (map_of m)(k \<mapsto> v)"
  by (simp add: um_put_def update_conv')

lemma map_of_um_erase [umap_simps]: "map_of (um_erase k m) = (map_of m)(k := None)"
  by (simp add: um_erase_def delete_conv')

lemma map_of_um_emplace [umap_simps]:
  "map_of (um_emplace k v m) = (case map_of m k of None \<Rightarrow> (map_of m)(k \<mapsto> v) | Some _ \<Rightarrow> map_of m)"
  by (auto simp: um_emplace_def um_contains_def map_of_um_put split: option.splits)

lemma um_contains_iff [umap_simps]: "um_contains m k \<longleftrightarrow> k \<in> fst ` set m"
  by (auto simp: um_contains_def map_of_eq_None_iff)

lemma distinct_um_put [umap_simps]: "distinct (um_keys m) \<Longrightarrow> distinct (um_keys (um_put k v m))"
  by (simp add: um_put_def distinct_update)

lemma distinct_um_emplace [umap_simps]:
  "distinct (um_keys m) \<Longrightarrow> distinct (um_keys (um_emplace k v m))"
  by (simp add: um_emplace_def distinct_um_put)

lemma distinct_um_erase [umap_simps]: "distinct (um_keys m) \<Longrightarrow> distinct (um_keys (um_erase k m))"
  by (simp add: um_erase_def distinct_delete)

lemma um_keys_put [umap_simps]:
  "um_keys (um_put k v m) = (if k \<in> set (um_keys m) then um_keys m else um_keys m @ [k])"
  by (simp add: um_put_def update_keys)

lemma fst_set_um_put [umap_simps]: "fst ` set (um_put k v m) = insert k (fst ` set m)"
  by (simp add: map_of_um_put flip: dom_map_of_conv_image_fst)

lemma fst_set_um_erase [umap_simps]: "fst ` set (um_erase k m) = fst ` set m - {k}"
  by (simp add: map_of_um_erase flip: dom_map_of_conv_image_fst)

lemma fst_set_um_emplace [umap_simps]: "fst ` set (um_emplace k v m) = insert k (fst ` set m)"
  by (auto simp: um_emplace_def umap_simps)

lemma um_get_put [umap_simps]: "um_get d (um_put k v m) j = (if j = k then v else um_get d m j)"
  by (simp add: um_get_def map_of_um_put)

subsection \<open>Results: an exception or a value\<close>

text \<open>
  A C++ call that may throw returns \<open>Inl\<close> of the exception or \<open>Inr\<close> of the value;
  sequencing stops at the first exception.
\<close>

fun res_bind :: "'e + 'a \<Rightarrow> ('a \<Rightarrow> 'e + 'b) \<Rightarrow> 'e + 'b" where
  "res_bind (Inl e) f = Inl e"
| "res_bind (Inr x) f = f x"

fun res_map :: "('a \<Rightarrow> 'e + 'b) \<Rightarrow> 'a list \<Rightarrow> 'e + 'b list" where
  "res_map f [] = Inr []"
| "res_map f (x # xs) = res_bind (f x) (\<lambda>y. res_bind (res_map f xs) (\<lambda>ys. Inr (y # ys)))"

definition or_throw :: "'e \<Rightarrow> 'a option \<Rightarrow> 'e + 'a" where
  "or_throw e m = (case m of None \<Rightarrow> Inl e | Some x \<Rightarrow> Inr x)"

lemma or_throw_simps [simp]: "or_throw e None = Inl e" "or_throw e (Some x) = Inr x"
  by (simp_all add: or_throw_def)

lemma or_throw_Inr [res_simps]: "or_throw e m = Inr x \<longleftrightarrow> m = Some x"
  by (cases m) simp_all

lemma or_throw_Inl [res_simps]: "or_throw e m = Inl e' \<longleftrightarrow> m = None \<and> e' = e"
  by (cases m) auto

lemma res_bind_Inr [res_simps]:
  "res_bind m f = Inr y \<longleftrightarrow> (\<exists>x. m = Inr x \<and> f x = Inr y)"
  by (cases m) auto

lemma res_bind_Inl [res_simps]:
  "res_bind m f = Inl e \<longleftrightarrow> m = Inl e \<or> (\<exists>x. m = Inr x \<and> f x = Inl e)"
  by (cases m) auto

lemma res_map_Inr: "res_map f xs = Inr ys \<Longrightarrow> length ys = length xs \<and> (\<forall>i < length xs. f (xs ! i) = Inr (ys ! i))"
proof (induction xs arbitrary: ys)
  case Nil
  then show ?case by simp
next
  case (Cons x xs)
  then show ?case by (auto simp: res_simps less_Suc_eq_0_disj)
qed

lemma res_map_total: "(\<And>x. x \<in> set xs \<Longrightarrow> f x = Inr (g x)) \<Longrightarrow> res_map f xs = Inr (map g xs)"
  by (induction xs) auto

lemma res_map_Inr_mem: "res_map f xs = Inr ys \<Longrightarrow> y \<in> set ys \<Longrightarrow> \<exists>x \<in> set xs. f x = Inr y"
  by (induction xs arbitrary: ys) (auto simp: res_simps)

subsection \<open>Lists\<close>

text \<open>Sum of the multisets held in the entries of a map: the contents of a map of queues.\<close>

lemma mset_concat_update_nth:
  "i < length xs \<Longrightarrow> mset (concat (xs[i := ys])) + mset (xs ! i) = mset (concat xs) + mset ys"
proof (induction xs arbitrary: i)
  case Nil
  then show ?case by simp
next
  case (Cons x xs)
  show ?case
  proof (cases i)
    case 0
    then show ?thesis by (simp add: ac_simps)
  next
    case (Suc j)
    with Cons have "mset (concat (xs[j := ys])) + mset (xs ! j) = mset (concat xs) + mset ys" by simp
    with Suc show ?thesis by (simp add: ac_simps)
  qed
qed

lemma filter_distinct_nth:
  "distinct (map f xs) \<Longrightarrow> i < length xs \<Longrightarrow> filter (\<lambda>x. f x = f (xs ! i)) xs = [xs ! i]"
proof (induction xs arbitrary: i)
  case Nil
  then show ?case by simp
next
  case (Cons x xs)
  show ?case
  proof (cases i)
    case 0
    with Cons.prems have "\<forall>y \<in> set xs. f y \<noteq> f x" by (auto simp: image_iff)
    with 0 show ?thesis by (auto simp: filter_empty_conv)
  next
    case (Suc j)
    with Cons show ?thesis by (auto simp: image_iff)
  qed
qed

end
