(* ===== verification/Formatter.thy ===== *)
theory Formatter
  imports Prelude
begin

section \<open>Text: formatting, exceptions and stream extraction\<close>

text \<open>
  The model of src/src/utils/formatter.h (the \<open>%\<close> operator and \<open>to_string\<close>) and of
  src/src/utils/uexception.h (the exception classes), and of the parts of the C++
  standard library the program reads and prints text with: \<open>std::to_string\<close>, \<open>strtol\<close>,
  \<open>operator>>\<close> for words and integers, \<open>getline\<close> and \<open>setw\<close>.
\<close>

subsection \<open>Exceptions\<close>

text \<open>
  One constructor per class of uexception.h, with the string its constructor is given;
  then the exceptions of the standard library the code throws or meets. The last
  constructor is no exception: it marks a run that has left the defined behaviour of
  C++ (a read past the end, a dereferenced end iterator), which no \<open>catch\<close> clause sees.
\<close>

datatype exn =
    UnableToOpenFile string
  | DuplicatedTableName string
  | TableNameNotFound string
  | ConflictingKey string
  | MultipleKey string
  | TableFieldNotFound string
  | LoadFromStreamException string
  | IllFormedQuery string
  | IllFormedQueryCondition string
  | QueryBuilderMatchFailed string
  | QuitException
  | Bad_function_call
  | Ios_failure string
  | Std_invalid_argument string
  | Undefined_behaviour

type_synonym 'a res = "exn + 'a"

text \<open>The classes that derive from \<open>std::invalid_argument\<close>.\<close>

fun is_invalid_argument :: "exn \<Rightarrow> bool" where
  "is_invalid_argument (DuplicatedTableName _) = True"
| "is_invalid_argument (TableNameNotFound _) = True"
| "is_invalid_argument (ConflictingKey _) = True"
| "is_invalid_argument (MultipleKey _) = True"
| "is_invalid_argument (IllFormedQuery _) = True"
| "is_invalid_argument (IllFormedQueryCondition _) = True"
| "is_invalid_argument (QueryBuilderMatchFailed _) = True"
| "is_invalid_argument (Std_invalid_argument _) = True"
| "is_invalid_argument _ = False"

subsection \<open>Decimal numbers\<close>

definition digit_char :: "nat \<Rightarrow> char" where
  "digit_char d = char_of (48 + d)"

definition is_digit :: "char \<Rightarrow> bool" where
  "is_digit c \<longleftrightarrow> 48 \<le> (of_char c :: nat) \<and> (of_char c :: nat) \<le> 57"

definition digit_val :: "char \<Rightarrow> nat" where
  "digit_val c = of_char c - 48"

fun string_of_nat :: "nat \<Rightarrow> string" where
  "string_of_nat n =
     (if n < 10 then [digit_char n] else string_of_nat (n div 10) @ [digit_char (n mod 10)])"

declare string_of_nat.simps [simp del]

definition string_of_int :: "int \<Rightarrow> string" where
  "string_of_int z =
     (if z < 0 then CHR ''-'' # string_of_nat (nat (- z)) else string_of_nat (nat z))"

definition digits_val :: "string \<Rightarrow> nat" where
  "digits_val ds = foldl (\<lambda>a c. 10 * a + digit_val c) 0 ds"

lemma is_digit_digit_char [simp]: "d < 10 \<Longrightarrow> is_digit (digit_char d)"
  by (simp add: is_digit_def digit_char_def)

lemma digit_val_digit_char [simp]: "d < 10 \<Longrightarrow> digit_val (digit_char d) = d"
  by (simp add: digit_val_def digit_char_def)

lemma digits_val_snoc [simp]: "digits_val (ds @ [c]) = 10 * digits_val ds + digit_val c"
  by (simp add: digits_val_def)

lemma digits_val_Nil [simp]: "digits_val [] = 0"
  by (simp add: digits_val_def)

lemma digits_val_string_of_nat [simp]: "digits_val (string_of_nat n) = n"
proof (induction n rule: string_of_nat.induct)
  case (1 n)
  show ?case
  proof (cases "n < 10")
    case True
    then show ?thesis
      using digits_val_snoc [of "[]" "digit_char n"] by (simp add: string_of_nat.simps [of n])
  next
    case False
    with "1.IH" show ?thesis by (simp add: string_of_nat.simps [of n])
  qed
qed

lemma is_digit_string_of_nat: "c \<in> set (string_of_nat n) \<Longrightarrow> is_digit c"
proof (induction n rule: string_of_nat.induct)
  case (1 n)
  then show ?case
    by (cases "n < 10") (auto simp: string_of_nat.simps [of n])
qed

lemma string_of_nat_not_Nil [simp]: "string_of_nat n \<noteq> []"
  by (subst string_of_nat.simps) simp

subsection \<open>The format operator\<close>

text \<open>
  \<open>format % value\<close>: the first \<open>?\<close> is replaced unless a backslash stands before it. When
  there is no \<open>?\<close>, \<open>find\<close> returns \<open>npos\<close> and the code reads \<open>format[npos - 1]\<close>, which is
  out of bounds.
\<close>

fun find_char :: "char \<Rightarrow> string \<Rightarrow> nat option" where
  "find_char c [] = None"
| "find_char c (x # xs) = (if x = c then Some 0 else map_option Suc (find_char c xs))"

definition fmt_subst :: "string \<Rightarrow> string \<Rightarrow> string res" where
  "fmt_subst format val =
     (case find_char (CHR ''?'') format of
        None \<Rightarrow> Inl Undefined_behaviour
      | Some ind \<Rightarrow>
          if ind = 0 \<or> format ! (ind - 1) \<noteq> CHR 0x5C
          then Inr (take ind format @ val @ drop (Suc ind) format)
          else Inr format)"

lemma find_char_append:
  "c \<notin> set xs \<Longrightarrow> find_char c (xs @ c # ys) = Some (length xs)"
  by (induction xs) auto

lemma find_char_Some:
  "find_char c xs = Some i \<Longrightarrow> i < length xs \<and> xs ! i = c \<and> c \<notin> set (take i xs)"
  by (induction xs arbitrary: i) (auto split: if_splits)

lemma find_char_None: "find_char c xs = None \<longleftrightarrow> c \<notin> set xs"
  by (induction xs) auto

lemma fmt_subst_append:
  assumes "CHR ''?'' \<notin> set pre" and "pre = [] \<or> last pre \<noteq> CHR 0x5C"
  shows "fmt_subst (pre @ CHR ''?'' # post) v = Inr (pre @ v @ post)"
proof (cases "pre = []")
  case True
  then show ?thesis by (simp add: fmt_subst_def)
next
  case False
  with assms(2) have "(pre @ CHR ''?'' # post) ! (length pre - 1) \<noteq> CHR 0x5C"
    by (simp add: nth_append last_conv_nth)
  with assms(1) show ?thesis
    by (simp add: fmt_subst_def find_char_append)
qed

subsection \<open>Messages\<close>

text \<open>
  \<open>std::exception::what\<close>. \<open>QueryBuilderMatchFailed\<close> formats the query string it is given
  when it is constructed.
\<close>

fun what :: "exn \<Rightarrow> string" where
  "what (UnableToOpenFile f) = ''Unable to open '' @ [CHR 0x22] @ f @ [CHR 0x22]"
| "what (DuplicatedTableName m) = m"
| "what (TableNameNotFound m) = m"
| "what (ConflictingKey m) = m"
| "what (MultipleKey m) = m"
| "what (TableFieldNotFound m) = m"
| "what (LoadFromStreamException m) = m"
| "what (IllFormedQuery m) = m"
| "what (IllFormedQueryCondition m) = m"
| "what (QueryBuilderMatchFailed q) =
     ''Failed to parse query string: '' @ [CHR 0x22] @ q @ [CHR 0x22]"
| "what QuitException = ''QUIT command received''"
| "what Bad_function_call = ''bad_function_call''"
| "what (Ios_failure m) = m"
| "what (Std_invalid_argument m) = m"
| "what Undefined_behaviour = []"

lemma what_QueryBuilderMatchFailed_fmt:
  "fmt_subst (''Failed to parse query string: '' @ [CHR 0x22, CHR ''?'', CHR 0x22]) q
   = Inr (what (QueryBuilderMatchFailed q))"
  using fmt_subst_append [of "''Failed to parse query string: '' @ [CHR 0x22]" "[CHR 0x22]" q]
  by simp

subsection \<open>Reading text\<close>

text \<open>\<open>isspace\<close> in the C locale: blank, tab, newline, vertical tab, form feed, return.\<close>

definition is_space :: "char \<Rightarrow> bool" where
  "is_space c \<longleftrightarrow> of_char c = (32::nat) \<or> (9 \<le> (of_char c :: nat) \<and> (of_char c :: nat) \<le> 13)"

definition skip_ws :: "string \<Rightarrow> string" where
  "skip_ws s = dropWhile is_space s"

text \<open>\<open>stream >> word\<close>: the next word and the rest, or failure at the end of the input.\<close>

definition read_word :: "string \<Rightarrow> (string \<times> string) option" where
  "read_word s =
     (let s1 = skip_ws s; w = takeWhile (\<lambda>c. \<not> is_space c) s1
      in if w = [] then None else Some (w, dropWhile (\<lambda>c. \<not> is_space c) s1))"

fun read_sign :: "string \<Rightarrow> bool \<times> string" where
  "read_sign (c # cs) =
     (if c = CHR ''-'' then (True, cs) else if c = CHR ''+'' then (False, cs) else (False, c # cs))"
| "read_sign [] = (False, [])"

text \<open>Sign and digits: the value, the digits read and the rest.\<close>

definition scan_int :: "string \<Rightarrow> int \<times> string \<times> string" where
  "scan_int s =
     (let (neg, s1) = read_sign s; ds = takeWhile is_digit s1; v = int (digits_val ds)
      in (if neg then - v else v, ds, dropWhile is_digit s1))"

text \<open>
  \<open>std::strtol(s, nullptr, 10)\<close> on a 64-bit \<open>long\<close>: zero when there is no number, and the
  nearest bound when the number is out of range.
\<close>

definition strtol10 :: "string \<Rightarrow> int" where
  "strtol10 s =
     (let (v, ds, _) = scan_int (skip_ws s)
      in if ds = [] then 0 else max (- (2 ^ 63)) (min (2 ^ 63 - 1) v))"

text \<open>\<open>static_cast<Table::ValueType>(std::strtol(...))\<close>.\<close>

definition parse_value :: "string \<Rightarrow> i32" where
  "parse_value s = word_of_int (strtol10 s)"

text \<open>\<open>stream >> value\<close> for an \<open>int\<close>: fails without digits and out of range.\<close>

definition read_int :: "string \<Rightarrow> (i32 \<times> string) option" where
  "read_int s =
     (let (v, ds, rest) = scan_int (skip_ws s)
      in if ds = [] \<or> v < - (2 ^ 31) \<or> 2 ^ 31 \<le> v then None else Some (word_of_int v, rest))"

text \<open>
  \<open>stream >> n\<close> for a 64-bit \<open>size_t\<close>: a minus sign is accepted and negates modulo
  \<open>2 ^ 64\<close>; a magnitude out of range fails.
\<close>

definition read_size :: "string \<Rightarrow> (nat \<times> string) option" where
  "read_size s =
     (let (v, ds, rest) = scan_int (skip_ws s)
      in if ds = [] \<or> 2 ^ 64 \<le> \<bar>v\<bar> then None else Some (nat (v mod 2 ^ 64), rest))"

text \<open>\<open>std::getline\<close>: fails at the end of the input; the newline is consumed, not kept.\<close>

definition getline :: "string \<Rightarrow> (string \<times> string) option" where
  "getline s =
     (if s = [] then None
      else Some (takeWhile (\<lambda>c. c \<noteq> CHR 0x0A) s, drop 1 (dropWhile (\<lambda>c. c \<noteq> CHR 0x0A) s)))"

text \<open>\<open>os << std::setw(w) << s\<close> pads on the left with blanks.\<close>

definition setw :: "nat \<Rightarrow> string \<Rightarrow> string" where
  "setw w s = replicate (w - length s) (CHR '' '') @ s"

subsection \<open>Printing and reading back\<close>

lemma is_space_blank [simp]: "is_space (CHR '' '')"
  by (simp add: is_space_def)

lemma digit_not_space: "is_digit c \<Longrightarrow> \<not> is_space c"
  by (auto simp: is_digit_def is_space_def)

lemma digit_not_sign: "is_digit c \<Longrightarrow> c \<noteq> CHR ''-'' \<and> c \<noteq> CHR ''+''"
  by (auto simp: is_digit_def)

lemma skip_ws_replicate [simp]: "skip_ws (replicate n (CHR '' '') @ s) = skip_ws s"
  by (induction n) (simp_all add: skip_ws_def)

lemma skip_ws_word: "s \<noteq> [] \<Longrightarrow> \<not> is_space (hd s) \<Longrightarrow> skip_ws (s @ t) = s @ t"
  by (cases s) (simp_all add: skip_ws_def)

definition stops_digits :: "string \<Rightarrow> bool" where
  "stops_digits s \<longleftrightarrow> s = [] \<or> \<not> is_digit (hd s)"

definition stops_word :: "string \<Rightarrow> bool" where
  "stops_word s \<longleftrightarrow> s = [] \<or> is_space (hd s)"

lemma stops_simps [simp]:
  "stops_digits []" "stops_word []"
  "stops_digits (c # s) \<longleftrightarrow> \<not> is_digit c"
  "stops_word (c # s) \<longleftrightarrow> is_space c"
  by (simp_all add: stops_digits_def stops_word_def)

lemma stops_word_digits: "stops_word s \<Longrightarrow> stops_digits s"
  by (auto simp: stops_word_def stops_digits_def dest: digit_not_space)

lemma takeWhile_dropWhile_stop:
  assumes "\<forall>c \<in> set xs. P c" and "ys = [] \<or> \<not> P (hd ys)"
  shows "takeWhile P (xs @ ys) = xs" and "dropWhile P (xs @ ys) = ys"
  using assms by (induction xs) (auto split: list.splits; cases ys; auto)+

lemma hd_string_of_nat: "is_digit (hd (string_of_nat n))"
  using is_digit_string_of_nat [of "hd (string_of_nat n)" n] by simp

lemma scan_int_string_of_int:
  assumes "stops_digits rest"
  shows "\<exists>ds. ds \<noteq> [] \<and> scan_int (string_of_int z @ rest) = (z, ds, rest)"
proof -
  have td: "takeWhile is_digit (string_of_nat n @ rest) = string_of_nat n"
    "dropWhile is_digit (string_of_nat n @ rest) = rest" for n
    using assms is_digit_string_of_nat takeWhile_dropWhile_stop [of "string_of_nat n" is_digit rest]
    by (auto simp: stops_digits_def)
  have rs: "read_sign (string_of_nat n @ rest) = (False, string_of_nat n @ rest)" for n
    using hd_string_of_nat [of n] digit_not_sign by (cases "string_of_nat n") auto
  show ?thesis
    by (auto simp: string_of_int_def scan_int_def td rs)
qed

lemma string_of_int_start:
  "string_of_int z \<noteq> [] \<and> \<not> is_space (hd (string_of_int z))"
  using hd_string_of_nat digit_not_space by (auto simp: string_of_int_def is_space_def)

lemma string_of_int_no_space: "c \<in> set (string_of_int z) \<Longrightarrow> \<not> is_space c"
  by (auto simp: string_of_int_def is_space_def split: if_splits
      dest!: is_digit_string_of_nat digit_not_space)

lemma strtol10_string_of_int:
  assumes "- (2 ^ 63) \<le> z" and "z < 2 ^ 63"
  shows "strtol10 (string_of_int z) = z"
proof -
  obtain ds where "ds \<noteq> []" and "scan_int (string_of_int z) = (z, ds, [])"
    using scan_int_string_of_int [of "[]" z] by auto
  moreover have "skip_ws (string_of_int z) = string_of_int z"
    using skip_ws_word [of "string_of_int z" "[]"] string_of_int_start by simp
  ultimately show ?thesis using assms by (simp add: strtol10_def)
qed

lemma read_int_string_of_int:
  assumes "stops_digits rest"
  shows "read_int (replicate n (CHR '' '') @ string_of_int (sint v) @ rest) = Some (v, rest)"
proof -
  obtain ds where "ds \<noteq> []" and "scan_int (string_of_int (sint v) @ rest) = (sint v, ds, rest)"
    using scan_int_string_of_int [OF assms] by blast
  moreover have "skip_ws (string_of_int (sint v) @ rest) = string_of_int (sint v) @ rest"
    using skip_ws_word string_of_int_start by blast
  ultimately show ?thesis
    using sint_i32_range [of v] by (simp add: read_int_def)
qed

lemma read_size_string_of_nat:
  assumes "stops_digits rest" and "n < 2 ^ 64"
  shows "read_size (replicate k (CHR '' '') @ string_of_nat n @ rest) = Some (n, rest)"
proof -
  have eq: "string_of_nat n = string_of_int (int n)"
    by (simp add: string_of_int_def)
  obtain ds where "ds \<noteq> []" and "scan_int (string_of_int (int n) @ rest) = (int n, ds, rest)"
    using scan_int_string_of_int [OF assms(1)] by blast
  moreover have "skip_ws (string_of_int (int n) @ rest) = string_of_int (int n) @ rest"
    using skip_ws_word string_of_int_start by blast
  moreover have "nat (int n mod 2 ^ 64) = n"
    using assms(2) by simp
  ultimately show ?thesis
    using assms(2) by (simp add: read_size_def eq)
qed

lemma read_word_word:
  assumes "w \<noteq> []" and "\<forall>c \<in> set w. \<not> is_space c" and "stops_word rest"
  shows "read_word (replicate n (CHR '' '') @ w @ rest) = Some (w, rest)"
proof -
  have "skip_ws (w @ rest) = w @ rest"
    using assms skip_ws_word by simp
  moreover have "takeWhile (\<lambda>c. \<not> is_space c) (w @ rest) = w"
    "dropWhile (\<lambda>c. \<not> is_space c) (w @ rest) = rest"
    using assms takeWhile_dropWhile_stop [of w "\<lambda>c. \<not> is_space c" rest]
    by (auto simp: stops_word_def)
  ultimately show ?thesis using assms(1) by (simp add: read_word_def Let_def)
qed

lemma getline_line:
  assumes "CHR 0x0A \<notin> set l"
  shows "getline (l @ CHR 0x0A # rest) = Some (l, rest)"
proof -
  have "takeWhile (\<lambda>c. c \<noteq> CHR 0x0A) (l @ CHR 0x0A # rest) = l"
    and "dropWhile (\<lambda>c. c \<noteq> CHR 0x0A) (l @ CHR 0x0A # rest) = CHR 0x0A # rest"
    using assms by (induction l) auto
  then show ?thesis by (simp add: getline_def)
qed

end
