(* ===== verification/Keyed_Store.thy ===== *)
theory Keyed_Store
  imports Formatter
begin

section \<open>The key-value store interface\<close>

text \<open>
  The contract between the storage layer (src/src/db/Table.cpp) and the queries that add
  and remove rows by key (src/src/query/data), stated as a locale: \<open>Table\<close> interprets it,
  the query theories use the lemmas proved here once.
\<close>

text \<open>
  What the queries rely on when they add and remove rows: an invariant, the rows by key,
  and the laws of insertion and deletion.
\<close>

locale keyed_store =
  fixes inv :: "'s \<Rightarrow> bool"
    and lookup :: "'s \<Rightarrow> string \<Rightarrow> 'v option"
    and insert :: "string \<Rightarrow> 'v \<Rightarrow> 's \<Rightarrow> 's res"
    and delete :: "string \<Rightarrow> 's \<Rightarrow> ('s \<times> bool) res"
  assumes insert_fresh: "inv s \<Longrightarrow> lookup s k = None \<Longrightarrow>
      \<exists>s'. insert k v s = Inr s' \<and> inv s' \<and> lookup s' = (lookup s)(k \<mapsto> v)"
    and insert_taken: "inv s \<Longrightarrow> lookup s k \<noteq> None \<Longrightarrow> \<exists>m. insert k v s = Inl (ConflictingKey m)"
    and delete_any: "inv s \<Longrightarrow>
      \<exists>s'. delete k s = Inr (s', lookup s k \<noteq> None) \<and> inv s' \<and> lookup s' = (lookup s)(k := None)"

text \<open>
  The loop over collected keys of \<open>DeleteQuery::execute\<close>: the state and the count, or the
  state at the exception.
\<close>

primrec delete_loop ::
  "(string \<Rightarrow> 's \<Rightarrow> ('s \<times> bool) res) \<Rightarrow> string list \<Rightarrow> 's \<Rightarrow> nat \<Rightarrow> 's \<times> nat res" where
  "delete_loop del [] s counter = (s, Inr counter)"
| "delete_loop del (k # ks) s counter =
     (case del k s of
        Inl e \<Rightarrow> (s, Inl e)
      | Inr (s', b) \<Rightarrow> delete_loop del ks s' (if b then Suc counter else counter))"

context keyed_store begin

lemma delete_loop_spec:
  assumes "inv s" and "distinct ks"
  shows "\<exists>s'. delete_loop delete ks s n = (s', Inr (n + length (filter (\<lambda>k. lookup s k \<noteq> None) ks))) \<and>
     inv s' \<and> lookup s' = (\<lambda>k. if k \<in> set ks then None else lookup s k)"
  using assms
proof (induction ks arbitrary: s n)
  case Nil
  then show ?case by auto
next
  case (Cons k ks)
  obtain s1 where s1: "delete k s = Inr (s1, lookup s k \<noteq> None)" "inv s1"
      "lookup s1 = (lookup s)(k := None)"
    using delete_any [OF Cons.prems(1)] by blast
  have same: "filter (\<lambda>k. lookup s1 k \<noteq> None) ks = filter (\<lambda>k. lookup s k \<noteq> None) ks"
    using Cons.prems(2) by (intro filter_cong) (auto simp: s1(3))
  let ?n = "if lookup s k \<noteq> None then Suc n else n"
  obtain s' where s': "delete_loop delete ks s1 ?n =
      (s', Inr (?n + length (filter (\<lambda>k. lookup s1 k \<noteq> None) ks)))"
      "inv s'" "lookup s' = (\<lambda>k. if k \<in> set ks then None else lookup s1 k)"
    using Cons.IH [OF s1(2)] Cons.prems(2) by fastforce
  have "delete_loop delete (k # ks) s n = delete_loop delete ks s1 ?n"
    using s1(1) by simp
  moreover have "lookup s' = (\<lambda>j. if j \<in> set (k # ks) then None else lookup s j)"
    using s'(3) s1(3) by (auto simp: fun_eq_iff)
  ultimately show ?case
    using s'(1,2) unfolding same by auto
qed

lemma insert_delete_inverse:
  assumes "inv s" and "lookup s k = None"
  shows "\<exists>s1 s2. insert k v s = Inr s1 \<and> delete k s1 = Inr (s2, True) \<and> inv s2 \<and> lookup s2 = lookup s"
proof -
  obtain s1 where s1: "insert k v s = Inr s1" "inv s1" "lookup s1 = (lookup s)(k \<mapsto> v)"
    using insert_fresh [OF assms] by blast
  obtain s2 where "delete k s1 = Inr (s2, lookup s1 k \<noteq> None)" "inv s2" "lookup s2 = (lookup s1)(k := None)"
    using delete_any [OF s1(2)] by blast
  with s1 assms(2) show ?thesis by (auto simp: fun_upd_idem)
qed

end

end
