(* ===== verification/Table.thy ===== *)
theory Table
  imports Keyed_Store
begin

section \<open>Table: the row store and its key index\<close>

text \<open>
  The model of src/src/db/Table.h and src/src/db/Table.cpp: a table is a vector of rows
  (\<open>data\<close>) with an index from keys to positions (\<open>keyMap\<close>) and an index from field names
  to columns (\<open>fieldMap\<close>). An \<open>Object\<close> proxy (an iterator into \<open>data\<close> and a table
  pointer) is the position of its row.
\<close>

subsection \<open>State\<close>

record datum =
  key :: string
  datum :: "i32 list"

record table =
  tableName :: string
  tfields :: "string list"
  fieldMap :: "(string, nat) umap"
  data :: "datum list"
  keyMap :: "(string, nat) umap"

definition ValueTypeMax :: i32 where
  "ValueTypeMax = 0x7FFFFFFF"

definition ValueTypeMin :: i32 where
  "ValueTypeMin = 0x80000000"

lemma sint_ValueTypeMax [simp]: "sint ValueTypeMax = 2 ^ 31 - 1"
  by (simp add: ValueTypeMax_def)

lemma sint_ValueTypeMin [simp]: "sint ValueTypeMin = - (2 ^ 31)"
  by (simp add: ValueTypeMin_def)

subsection \<open>Construction\<close>

definition table_new :: "string \<Rightarrow> table" where
  "table_new name = \<lparr>tableName = name, tfields = [], fieldMap = [], data = [], keyMap = []\<rparr>"

definition table_copy :: "string \<Rightarrow> table \<Rightarrow> table" where
  "table_copy name origin =
     \<lparr>tableName = name, tfields = tfields origin, fieldMap = fieldMap origin,
      data = data origin, keyMap = keyMap origin\<rparr>"

text \<open>
  The constructor from a field list: the loop over the fields. \<open>emplace\<close> keeps the first
  of two equal names, but the index is incremented for both.
\<close>

fun index_fields ::
  "string \<Rightarrow> string list \<Rightarrow> nat \<Rightarrow> (string, nat) umap \<Rightarrow> (string, nat) umap res" where
  "index_fields name [] fieldIndex m = Inr m"
| "index_fields name (f # fs) fieldIndex m =
     (if f = ''KEY''
      then Inl (MultipleKey (''Error creating table '' @ [CHR 0x22] @ name @ [CHR 0x22] @
                             '': Multiple KEY field.''))
      else index_fields name fs (Suc fieldIndex) (um_emplace f fieldIndex m))"

definition table_with_fields :: "string \<Rightarrow> string list \<Rightarrow> table res" where
  "table_with_fields name fs =
     res_bind (index_fields name fs 0 [])
       (\<lambda>m. Inr \<lparr>tableName = name, tfields = fs, fieldMap = m, data = [], keyMap = []\<rparr>)"

subsection \<open>Operations\<close>

definition getFieldIndex :: "table \<Rightarrow> string \<Rightarrow> nat res" where
  "getFieldIndex t field =
     (case map_of (fieldMap t) field of
        Some i \<Rightarrow> Inr i
      | None \<Rightarrow>
          res_bind (fmt_subst (''Field name '' @ [CHR 0x22, CHR ''?'', CHR 0x22] @
                               '' doesn'' @ [CHR 0x27] @ ''t exists.'') field)
            (\<lambda>m. Inl (TableFieldNotFound m)))"

definition insertByIndex :: "string \<Rightarrow> i32 list \<Rightarrow> table \<Rightarrow> table res" where
  "insertByIndex k vals t =
     (if um_contains (keyMap t) k
      then Inl (ConflictingKey (''In Table '' @ [CHR 0x22] @ tableName t @ [CHR 0x22] @
                                '' : Key '' @ [CHR 0x22] @ k @ [CHR 0x22] @ '' already exists!''))
      else Inr (t\<lparr>keyMap := um_put k (length (data t)) (keyMap t),
                  data := data t @ [\<lparr>key = k, datum = vals\<rparr>]\<rparr>))"

text \<open>
  Swap with the last row, move the last row's index entry, then drop the last row and the
  key. A position at or past the end would be undefined; \<open>table_inv\<close> excludes it.
\<close>

definition deleteByIndex :: "string \<Rightarrow> table \<Rightarrow> (table \<times> bool) res" where
  "deleteByIndex k t =
     (case map_of (keyMap t) k of
        None \<Rightarrow> Inr (t, False)
      | Some del_ind \<Rightarrow>
          if length (data t) \<le> del_ind then Inl Undefined_behaviour
          else
            (let last_ind = length (data t) - 1;
                 swapped = (if del_ind \<noteq> last_ind
                            then (data t)[del_ind := data t ! last_ind, last_ind := data t ! del_ind]
                            else data t);
                 km = (if del_ind \<noteq> last_ind
                       then um_put (key (swapped ! del_ind)) del_ind (keyMap t)
                       else keyMap t)
             in Inr (t\<lparr>data := butlast swapped, keyMap := um_erase k km\<rparr>, True)))"

text \<open>\<open>operator[](key)\<close>: the proxy of the key's row, or \<open>nullptr\<close>.\<close>

definition table_find :: "table \<Rightarrow> string \<Rightarrow> nat option" where
  "table_find t k = map_of (keyMap t) k"

definition duplicateByKey :: "string \<Rightarrow> string \<Rightarrow> table \<Rightarrow> (table \<times> bool) res" where
  "duplicateByKey src dst t =
     (if um_contains (keyMap t) dst then Inr (t, False)
      else case map_of (keyMap t) src of
             None \<Rightarrow> Inr (t, False)
           | Some i \<Rightarrow>
               if length (data t) \<le> i then Inl Undefined_behaviour
               else res_bind (insertByIndex dst (datum (data t ! i)) t) (\<lambda>t'. Inr (t', True)))"

definition table_clear :: "table \<Rightarrow> table \<times> nat" where
  "table_clear t = (t\<lparr>data := [], keyMap := []\<rparr>, length (keyMap t))"

definition table_empty :: "table \<Rightarrow> bool" where
  "table_empty t \<longleftrightarrow> data t = []"

definition table_size :: "table \<Rightarrow> nat" where
  "table_size t = length (data t)"

subsection \<open>Row proxies\<close>

text \<open>
  \<open>Object::operator[](FieldIndex)\<close> reads column \<open>i\<close> of a row with \<open>at\<close>, and throws when the
  row is too short; the write through the returned reference is \<open>obj_set\<close>.
\<close>

definition index_exn :: "nat \<Rightarrow> exn" where
  "index_exn i = TableFieldNotFound (''Field index '' @ string_of_nat i @ '' out of range.'')"

definition obj_get :: "datum \<Rightarrow> nat \<Rightarrow> i32 res" where
  "obj_get d i = (if i < length (datum d) then Inr (datum d ! i) else Inl (index_exn i))"

definition obj_set :: "nat \<Rightarrow> i32 \<Rightarrow> datum \<Rightarrow> datum res" where
  "obj_set i v d =
     (if i < length (datum d) then Inr (d\<lparr>datum := (datum d)[i := v]\<rparr>) else Inl (index_exn i))"

text \<open>
  \<open>Object::setKey\<close>: \<open>keyMap.find\<close> may be \<open>end()\<close>, which the code dereferences; \<open>emplace\<close>
  does nothing when the new key is taken.
\<close>

definition setKey :: "nat \<Rightarrow> string \<Rightarrow> table \<Rightarrow> table res" where
  "setKey i k t =
     (if length (data t) \<le> i then Inl Undefined_behaviour
      else case map_of (keyMap t) (key (data t ! i)) of
             None \<Rightarrow> Inl Undefined_behaviour
           | Some pos \<Rightarrow>
               Inr (t\<lparr>keyMap := um_emplace k pos (um_erase (key (data t ! i)) (keyMap t)),
                      data := (data t)[i := (data t ! i)\<lparr>key := k\<rparr>]\<rparr>))"

subsection \<open>Printing\<close>

text \<open>
  \<open>operator<<\<close>: the rows are printed column by column with \<open>datum.datum[i]\<close>, so a row
  that is shorter than the field list is read past its end.
\<close>

definition print_row :: "nat \<Rightarrow> datum \<Rightarrow> string res" where
  "print_row numFields d =
     (if length (datum d) < numFields then Inl Undefined_behaviour
      else Inr (setw 10 (key d) @
                concat (map (\<lambda>v. setw 10 (string_of_int (sint v))) (take numFields (datum d))) @
                [CHR 0x0A]))"

definition print_table :: "table \<Rightarrow> string res" where
  "print_table t =
     res_bind (res_map (print_row (length (tfields t))) (data t))
       (\<lambda>rows. Inr (tableName t @ [CHR 0x09] @ string_of_nat (length (tfields t) + 1) @ [CHR 0x0A] @
                    setw 10 ''KEY'' @ concat (map (setw 10) (tfields t)) @ [CHR 0x0A] @ concat rows))"

subsection \<open>Invariants\<close>

text \<open>
  The key index and the rows agree: every row is found under its key at its position, and
  the index holds no other key. The field index names the columns. Every row has one value
  per field.
\<close>

definition keys_ok :: "table \<Rightarrow> bool" where
  "keys_ok t \<longleftrightarrow>
     distinct (um_keys (keyMap t)) \<and>
     (\<forall>i < length (data t). map_of (keyMap t) (key (data t ! i)) = Some i) \<and>
     (\<forall>(k, i) \<in> set (keyMap t). i < length (data t) \<and> key (data t ! i) = k)"

definition fields_ok :: "table \<Rightarrow> bool" where
  "fields_ok t \<longleftrightarrow>
     (\<forall>(f, i) \<in> set (fieldMap t). i < length (tfields t) \<and> tfields t ! i = f) \<and>
     set (tfields t) \<subseteq> set (um_keys (fieldMap t)) \<and> ''KEY'' \<notin> set (tfields t)"

definition rows_ok :: "table \<Rightarrow> bool" where
  "rows_ok t \<longleftrightarrow> (\<forall>d \<in> set (data t). length (datum d) = length (tfields t))"

definition table_inv :: "table \<Rightarrow> bool" where
  "table_inv t \<longleftrightarrow> keys_ok t \<and> fields_ok t \<and> rows_ok t"

text \<open>The abstract view of a table: a finite map from keys to rows.\<close>

definition row_of :: "table \<Rightarrow> string \<Rightarrow> i32 list option" where
  "row_of t k = map_option (\<lambda>i. datum (data t ! i)) (table_find t k)"

lemma keys_okI:
  assumes "distinct (um_keys (keyMap t))"
    and "\<And>k i. map_of (keyMap t) k = Some i \<longleftrightarrow> i < length (data t) \<and> key (data t ! i) = k"
  shows "keys_ok t"
  unfolding keys_ok_def
proof (intro conjI)
  show "distinct (um_keys (keyMap t))" by (rule assms(1))
  show "\<forall>i < length (data t). map_of (keyMap t) (key (data t ! i)) = Some i"
    using assms(2) by blast
  show "\<forall>(k, i) \<in> set (keyMap t). i < length (data t) \<and> key (data t ! i) = k"
    using assms(2) map_of_eq_Some_iff [OF assms(1)] by blast
qed

lemma keys_ok_find:
  assumes "keys_ok t"
  shows "map_of (keyMap t) k = Some i \<longleftrightarrow> i < length (data t) \<and> key (data t ! i) = k"
  using assms map_of_SomeD [of "keyMap t" k i] by (auto simp: keys_ok_def)

lemma keys_ok_distinct_index: "keys_ok t \<Longrightarrow> distinct (um_keys (keyMap t))"
  by (simp add: keys_ok_def)

lemma keys_ok_inj:
  assumes "keys_ok t" "i < length (data t)" "j < length (data t)"
    and "key (data t ! i) = key (data t ! j)"
  shows "i = j"
proof -
  have "map_of (keyMap t) (key (data t ! i)) = Some i"
    and "map_of (keyMap t) (key (data t ! j)) = Some j"
    using assms(1-3) by (simp_all add: keys_ok_def)
  then show ?thesis using assms(4) by (metis option.inject)
qed

lemma keys_ok_distinct_keys:
  assumes "keys_ok t"
  shows "distinct (map key (data t))"
  unfolding distinct_conv_nth using keys_ok_inj [OF assms] by (metis length_map nth_map)

lemma keys_ok_index_keys: "keys_ok t \<Longrightarrow> set (um_keys (keyMap t)) = set (map key (data t))"
proof (rule set_eqI)
  fix k
  assume ok: "keys_ok t"
  have "k \<in> set (um_keys (keyMap t)) \<longleftrightarrow> (\<exists>i. map_of (keyMap t) k = Some i)"
    using map_of_eq_None_iff [of "keyMap t" k] by auto
  also have "\<dots> \<longleftrightarrow> (\<exists>i < length (data t). key (data t ! i) = k)"
    by (simp add: keys_ok_find [OF ok])
  also have "\<dots> \<longleftrightarrow> k \<in> set (map key (data t))"
    unfolding in_set_conv_nth by auto
  finally show "k \<in> set (um_keys (keyMap t)) \<longleftrightarrow> k \<in> set (map key (data t))" .
qed

lemma keys_ok_size:
  assumes "keys_ok t"
  shows "length (keyMap t) = length (data t)"
proof -
  have "length (um_keys (keyMap t)) = length (map key (data t))"
    using keys_ok_index_keys [OF assms] keys_ok_distinct_index [OF assms]
      keys_ok_distinct_keys [OF assms] distinct_card by metis
  then show ?thesis by simp
qed

lemma row_of_iff:
  assumes "keys_ok t"
  shows "row_of t k = Some v \<longleftrightarrow> (\<exists>d \<in> set (data t). key d = k \<and> datum d = v)"
  unfolding row_of_def table_find_def set_conv_nth
  by (auto simp: keys_ok_find [OF assms] map_option_eq_Some)

lemma row_of_None_iff: "row_of t k = None \<longleftrightarrow> \<not> um_contains (keyMap t) k"
  by (simp add: row_of_def table_find_def um_contains_def)

lemma row_of_eqI:
  assumes "\<And>k v. row_of t k = Some v \<longleftrightarrow> m k = Some v"
  shows "row_of t = m"
  using assms by (intro ext) (metis option.exhaust)

subsection \<open>Swap and pop on lists\<close>

lemma butlast_swap:
  assumes "i < length xs - 1"
  shows "butlast (xs[i := last xs, length xs - 1 := x]) = (butlast xs)[i := last xs]"
  using assms by (simp add: butlast_list_update)

lemma mset_butlast_swap:
  assumes "i < length xs"
  shows "mset (if i \<noteq> length xs - 1 then (butlast xs)[i := last xs] else butlast xs) = mset xs - {#xs ! i#}"
proof (cases xs rule: rev_cases)
  case Nil
  with assms show ?thesis by simp
next
  case (snoc ys y)
  with assms show ?thesis
    by (auto simp: nth_append mset_update)
qed

subsection \<open>Insertion\<close>

lemma insertByIndex_fresh:
  assumes "keys_ok t" and "row_of t k = None"
  shows "insertByIndex k v t =
           Inr (t\<lparr>keyMap := um_put k (length (data t)) (keyMap t),
                  data := data t @ [\<lparr>key = k, datum = v\<rparr>]\<rparr>)"
  using assms by (simp add: insertByIndex_def row_of_None_iff)

lemma insertByIndex_keys_ok:
  assumes ok: "keys_ok t" and ins: "insertByIndex k v t = Inr t'"
  shows "keys_ok t'"
proof (rule keys_okI)
  from ins have fresh: "map_of (keyMap t) k = None"
    by (auto simp: insertByIndex_def um_contains_def split: if_splits)
  from ins have t': "t' = t\<lparr>keyMap := um_put k (length (data t)) (keyMap t),
                         data := data t @ [\<lparr>key = k, datum = v\<rparr>]\<rparr>"
    by (auto simp: insertByIndex_def split: if_splits)
  show "distinct (um_keys (keyMap t'))"
    using ok by (simp add: t' distinct_um_put keys_ok_distinct_index)
  fix k' i
  have "map_of (keyMap t) k \<noteq> Some i"
    using fresh by simp
  then show "map_of (keyMap t') k' = Some i \<longleftrightarrow> i < length (data t') \<and> key (data t' ! i) = k'"
    using keys_ok_find [OF ok, of k' i] keys_ok_find [OF ok, of k i]
    by (auto simp: t' umap_simps nth_append less_Suc_eq)
qed

lemma insertByIndex_row_of:
  assumes ok: "keys_ok t" and ins: "insertByIndex k v t = Inr t'"
  shows "row_of t' = (row_of t)(k \<mapsto> v)"
proof (rule row_of_eqI)
  fix k' v'
  from ins have fresh: "row_of t k = None"
    by (auto simp: insertByIndex_def row_of_None_iff split: if_splits)
  have nk: "key d \<noteq> k" if "d \<in> set (data t)" for d
    using that fresh row_of_iff [OF ok, of k "datum d"] by auto
  have t': "data t' = data t @ [\<lparr>key = k, datum = v\<rparr>]"
    using ins by (auto simp: insertByIndex_def split: if_splits)
  have "row_of t' k' = Some v' \<longleftrightarrow> (k' = k \<and> v' = v) \<or> (\<exists>d \<in> set (data t). key d = k' \<and> datum d = v')"
    unfolding row_of_iff [OF insertByIndex_keys_ok [OF ok ins]] t' by auto
  also have "\<dots> \<longleftrightarrow> ((row_of t)(k \<mapsto> v)) k' = Some v'"
    using nk by (auto simp: row_of_iff [OF ok])
  finally show "row_of t' k' = Some v' \<longleftrightarrow> ((row_of t)(k \<mapsto> v)) k' = Some v'" .
qed

subsection \<open>Deletion\<close>

text \<open>What swap-with-last and pop do to the rows.\<close>

definition delete_data :: "nat \<Rightarrow> datum list \<Rightarrow> datum list" where
  "delete_data i xs = (if i \<noteq> length xs - 1 then (butlast xs)[i := last xs] else butlast xs)"

lemma mset_delete_data: "i < length xs \<Longrightarrow> mset (delete_data i xs) = mset xs - {#xs ! i#}"
  unfolding delete_data_def by (rule mset_butlast_swap)

lemma deleteByIndex_hit:
  assumes "keys_ok t" and "map_of (keyMap t) k = Some i"
  defines "km \<equiv> (if i \<noteq> length (data t) - 1
                  then um_put (key (last (data t))) i (keyMap t) else keyMap t)"
  shows "deleteByIndex k t = Inr (t\<lparr>data := delete_data i (data t), keyMap := um_erase k km\<rparr>, True)"
proof -
  from assms have i: "i < length (data t)" "key (data t ! i) = k"
    by (simp_all add: keys_ok_find)
  then have "data t \<noteq> []" by auto
  then have l: "data t ! (length (data t) - 1) = last (data t)"
    by (simp add: last_conv_nth)
  have bs: "i \<noteq> length (data t) - 1 \<Longrightarrow>
     butlast ((data t)[i := last (data t), length (data t) - 1 := data t ! i]) = (butlast (data t))[i := last (data t)]"
    using i by (intro butlast_swap) simp
  show ?thesis
    using i(1) assms(2) unfolding deleteByIndex_def Let_def l km_def delete_data_def
    by (simp add: bs del: One_nat_def)
qed

lemma deleteByIndex_keys_ok:
  assumes ok: "keys_ok t" and del: "deleteByIndex k t = Inr (t', b)"
  shows "keys_ok t'"
proof (cases "map_of (keyMap t) k")
  case None
  with ok del show ?thesis by (simp add: deleteByIndex_def)
next
  case (Some i)
  from ok Some have i: "i < length (data t)" "key (data t ! i) = k"
    by (simp_all add: keys_ok_find)
  then obtain n where n: "length (data t) = Suc n" by (cases "length (data t)") auto
  then have l: "last (data t) = data t ! n" by (cases "data t" rule: rev_cases) auto
  have uniq: "key (data t ! j) = k \<longleftrightarrow> j = i" if "j < length (data t)" for j
    using that i keys_ok_inj [OF ok] by auto
  from del deleteByIndex_hit [OF ok Some]
  have t': "t' = t\<lparr>data := delete_data i (data t),
      keyMap := um_erase k (if i \<noteq> n then um_put (key (last (data t))) i (keyMap t) else keyMap t)\<rparr>"
    by (simp add: n)
  have len: "length (data t') = n"
    by (simp add: t' delete_data_def n)
  show ?thesis
  proof (rule keys_okI)
    show "distinct (um_keys (keyMap t'))"
      using ok by (simp add: t' umap_simps keys_ok_distinct_index del: One_nat_def)
    fix k' j
    note find = keys_ok_find [OF ok]
    show "map_of (keyMap t') k' = Some j \<longleftrightarrow> j < length (data t') \<and> key (data t' ! j) = k'"
    proof (cases "i = n")
      case True
      have "map_of (keyMap t') k' = Some j \<longleftrightarrow> k' \<noteq> k \<and> j < length (data t) \<and> key (data t ! j) = k'"
        using True by (simp add: t' umap_simps find)
      also have "\<dots> \<longleftrightarrow> j < n \<and> key (data t ! j) = k'"
        using i True uniq [of j] n by (auto simp: less_Suc_eq)
      also have "\<dots> \<longleftrightarrow> j < length (data t') \<and> key (data t' ! j) = k'"
        using True len by (auto simp: t' delete_data_def nth_butlast n)
      finally show ?thesis .
    next
      case False
      then have im: "i < n" using i n by simp
      have kn: "key (data t ! n) \<noteq> k" using uniq [of n] n False by auto
      have nth: "data t' ! j = (if j = i then data t ! n else data t ! j)" if "j < n"
        using that im by (simp add: t' delete_data_def l nth_butlast nth_list_update n)
      have mo: "map_of (keyMap t') = (map_of (keyMap t))(key (data t ! n) \<mapsto> i, k := None)"
        using False by (simp add: t' umap_simps l del: One_nat_def)
      show ?thesis
      proof (cases "k' = k \<or> k' = key (data t ! n)")
        case True
        then show ?thesis
        proof
          assume "k' = k"
          then show ?thesis using mo len nth uniq [of j] kn n by auto
        next
          assume k': "k' = key (data t ! n)"
          have lhs: "map_of (keyMap t') k' = Some j \<longleftrightarrow> j = i"
            using k' mo kn by auto
          have "key (data t ! j) \<noteq> k'" if "j < n"
            using that n k' keys_ok_inj [OF ok, of j n] by auto
          then have "j < length (data t') \<and> key (data t' ! j) = k' \<longleftrightarrow> j = i"
            using nth im len k' by (cases "j = i") auto
          with lhs show ?thesis by blast
        qed
      next
        case nk: False
        have "map_of (keyMap t') k' = Some j \<longleftrightarrow> j < length (data t) \<and> key (data t ! j) = k'"
          using nk mo by (simp add: find)
        also have "\<dots> \<longleftrightarrow> j < n \<and> j \<noteq> i \<and> key (data t ! j) = k'"
          using nk i n by (auto simp: less_Suc_eq)
        also have "\<dots> \<longleftrightarrow> j < length (data t') \<and> key (data t' ! j) = k'"
          using len nth nk by auto
        finally show ?thesis .
      qed
    qed
  qed
qed

lemma deleteByIndex_total:
  assumes ok: "keys_ok t"
  shows "\<exists>t'. deleteByIndex k t = Inr (t', row_of t k \<noteq> None)"
proof (cases "map_of (keyMap t) k")
  case None
  then show ?thesis by (simp add: deleteByIndex_def row_of_def table_find_def)
next
  case (Some i)
  with deleteByIndex_hit [OF ok Some] show ?thesis
    by (simp add: row_of_def table_find_def)
qed

lemma deleteByIndex_mset:
  assumes ok: "keys_ok t" and del: "deleteByIndex k t = Inr (t', b)"
  shows "mset (data t') = filter_mset (\<lambda>d. key d \<noteq> k) (mset (data t))"
proof (cases "map_of (keyMap t) k")
  case None
  then have "row_of t k = None"
    by (simp add: row_of_def table_find_def)
  then have "key d \<noteq> k" if "d \<in> set (data t)" for d
    using that row_of_iff [OF ok, of k "datum d"] by auto
  then have "filter_mset (\<lambda>d. key d \<noteq> k) (mset (data t)) = mset (data t)"
    by (simp add: filter_mset_eq_conv)
  with None del show ?thesis by (simp add: deleteByIndex_def)
next
  case (Some i)
  from ok Some have i: "i < length (data t)" "key (data t ! i) = k"
    by (simp_all add: keys_ok_find)
  from del deleteByIndex_hit [OF ok Some] have "data t' = delete_data i (data t)"
    by auto
  then have t': "mset (data t') = mset (data t) - {#data t ! i#}"
    using i by (simp add: mset_delete_data)
  have "filter (\<lambda>d. key d = k) (data t) = [data t ! i]"
    using i filter_distinct_nth [OF keys_ok_distinct_keys [OF ok], of i] by simp
  then have "filter_mset (\<lambda>d. key d = k) (mset (data t)) = {#data t ! i#}"
    by (metis mset_filter mset_single_iff_right)
  moreover have "mset (data t) = filter_mset (\<lambda>d. key d = k) (mset (data t)) + filter_mset (\<lambda>d. key d \<noteq> k) (mset (data t))"
    by (rule multiset_partition)
  ultimately show ?thesis using t' by (metis add_diff_cancel_left')
qed

lemma deleteByIndex_row_of:
  assumes ok: "keys_ok t" and del: "deleteByIndex k t = Inr (t', b)"
  shows "row_of t' = (row_of t)(k := None)"
proof (rule row_of_eqI)
  fix k' v'
  have "set (data t') = {d \<in> set (data t). key d \<noteq> k}"
    using arg_cong [OF deleteByIndex_mset [OF ok del], of set_mset] by auto
  then show "row_of t' k' = Some v' \<longleftrightarrow> ((row_of t)(k := None)) k' = Some v'"
    by (auto simp: row_of_iff [OF deleteByIndex_keys_ok [OF ok del]] row_of_iff [OF ok])
qed

lemma deleteByIndex_frame:
  "deleteByIndex k t = Inr (t', b) \<Longrightarrow>
   tfields t' = tfields t \<and> fieldMap t' = fieldMap t \<and> tableName t' = tableName t"
  by (auto simp: deleteByIndex_def Let_def split: option.splits if_splits)

lemma insertByIndex_frame:
  "insertByIndex k v t = Inr t' \<Longrightarrow>
   tfields t' = tfields t \<and> fieldMap t' = fieldMap t \<and> tableName t' = tableName t \<and>
   data t' = data t @ [\<lparr>key = k, datum = v\<rparr>]"
  by (auto simp: insertByIndex_def split: if_splits)

subsection \<open>The table is a keyed store\<close>

interpretation tbl: keyed_store keys_ok row_of insertByIndex deleteByIndex
proof unfold_locales
  fix s k v
  assume ok: "keys_ok s" and "row_of s k = None"
  then obtain s' where "insertByIndex k v s = Inr s'"
    using insertByIndex_fresh by blast
  with ok show "\<exists>s'. insertByIndex k v s = Inr s' \<and> keys_ok s' \<and> row_of s' = (row_of s)(k \<mapsto> v)"
    using insertByIndex_keys_ok insertByIndex_row_of by blast
next
  fix s k and v :: "i32 list"
  assume "row_of s k \<noteq> None"
  then show "\<exists>m. insertByIndex k v s = Inl (ConflictingKey m)"
    by (simp add: insertByIndex_def row_of_None_iff)
next
  fix s k
  assume ok: "keys_ok s"
  then show "\<exists>s'. deleteByIndex k s = Inr (s', row_of s k \<noteq> None) \<and> keys_ok s' \<and>
      row_of s' = (row_of s)(k := None)"
    using deleteByIndex_total deleteByIndex_keys_ok deleteByIndex_row_of by blast
qed

subsection \<open>Construction, duplication and key update\<close>

lemma getFieldIndex_None:
  "map_of (fieldMap t) f = None \<Longrightarrow>
   getFieldIndex t f = Inl (TableFieldNotFound
     (''Field name '' @ [CHR 0x22] @ f @ [CHR 0x22] @ '' doesn'' @ [CHR 0x27] @ ''t exists.''))"
  using fmt_subst_append [of "''Field name '' @ [CHR 0x22]"
      "[CHR 0x22] @ '' doesn'' @ [CHR 0x27] @ ''t exists.''" f]
  by (simp add: getFieldIndex_def)

lemma getFieldIndex_Some [simp]: "map_of (fieldMap t) f = Some i \<Longrightarrow> getFieldIndex t f = Inr i"
  by (simp add: getFieldIndex_def)

lemma getFieldIndex_Inr_iff: "getFieldIndex t f = Inr i \<longleftrightarrow> map_of (fieldMap t) f = Some i"
  by (cases "map_of (fieldMap t) f") (simp_all add: getFieldIndex_None)

lemma getFieldIndex_bound:
  assumes "fields_ok t" and "getFieldIndex t f = Inr i"
  shows "i < length (tfields t) \<and> tfields t ! i = f"
  using assms map_of_SomeD [of "fieldMap t" f i] by (auto simp: fields_ok_def getFieldIndex_Inr_iff)

lemma getFieldIndex_total:
  assumes "fields_ok t" and "f \<in> set (tfields t)"
  shows "\<exists>i. getFieldIndex t f = Inr i"
  using assms map_of_eq_None_iff [of "fieldMap t" f]
  by (cases "map_of (fieldMap t) f") (auto simp: fields_ok_def getFieldIndex_Inr_iff)

lemma index_fields_spec:
  assumes "''KEY'' \<notin> set fs"
  shows "\<exists>m'. index_fields name fs n m = Inr m' \<and>
     set m' \<subseteq> set m \<union> (\<lambda>i. (fs ! i, n + i)) ` {..<length fs} \<and>
     set (um_keys m') = set (um_keys m) \<union> set fs"
  using assms
proof (induction fs arbitrary: n m)
  case Nil
  then show ?case by simp
next
  case (Cons f fs)
  from Cons.prems have f: "f \<noteq> ''KEY''" "''KEY'' \<notin> set fs" by auto
  let ?m1 = "um_emplace f n m"
  obtain m' where m': "index_fields name fs (Suc n) ?m1 = Inr m'"
      "set m' \<subseteq> set ?m1 \<union> (\<lambda>i. (fs ! i, Suc n + i)) ` {..<length fs}"
      "set (um_keys m') = set (um_keys ?m1) \<union> set fs"
    using Cons.IH [OF f(2)] by blast
  have k1: "set (um_keys ?m1) = insert f (set (um_keys m))"
    by (simp add: umap_simps)
  have s1: "set ?m1 \<subseteq> insert (f, n) (set m)"
  proof (cases "um_contains m f")
    case False
    have "set (AList.update f n m) \<subseteq> insert (f, n) (set m)"
      by (induction m) auto
    then show ?thesis by (simp add: um_emplace_def um_put_def False)
  qed (auto simp: um_emplace_def)
  let ?ix = "(\<lambda>i. ((f # fs) ! i, n + i)) ` {..<length (f # fs)}"
  have "(\<lambda>i. (fs ! i, Suc n + i)) ` {..<length fs} \<subseteq> ?ix"
    by (force simp: image_iff intro: bexI [of _ "Suc _"])
  moreover have "(f, n) \<in> ?ix"
    by (auto simp: image_iff)
  ultimately have "set m' \<subseteq> set m \<union> ?ix"
    using m'(2) s1 by blast
  then show ?case using m'(1,3) k1 f(1) by (intro exI [of _ m']) simp
qed

lemma table_with_fields_ok:
  assumes "''KEY'' \<notin> set fs"
  shows "\<exists>t. table_with_fields name fs = Inr t \<and> table_inv t \<and>
     tableName t = name \<and> tfields t = fs \<and> data t = []"
proof -
  obtain m where m: "index_fields name fs 0 [] = Inr m"
      "set m \<subseteq> (\<lambda>i. (fs ! i, i)) ` {..<length fs}" "set (um_keys m) = set fs"
    using index_fields_spec [OF assms(1), of name 0 "[]"] by auto
  then have "fields_ok \<lparr>tableName = name, tfields = fs, fieldMap = m, data = [], keyMap = []\<rparr>"
    using assms(1) by (auto simp: fields_ok_def)
  with m(1) show ?thesis
    by (simp add: table_with_fields_def table_inv_def keys_ok_def rows_ok_def)
qed

lemma index_fields_KEY:
  "''KEY'' \<in> set fs \<Longrightarrow> \<exists>e. index_fields name fs n m = Inl (MultipleKey e)"
  by (induction fs arbitrary: n m) auto

lemma table_with_fields_KEY:
  "''KEY'' \<in> set fs \<Longrightarrow> \<exists>m. table_with_fields name fs = Inl (MultipleKey m)"
  using index_fields_KEY [of fs name 0 "[]"] by (auto simp: table_with_fields_def)

lemma setKey_fresh:
  assumes ok: "keys_ok t" and i: "i < length (data t)" and fresh: "row_of t k = None"
  shows "\<exists>t'. setKey i k t = Inr t' \<and> keys_ok t' \<and> data t' = (data t)[i := (data t ! i)\<lparr>key := k\<rparr>] \<and>
     tfields t' = tfields t \<and> fieldMap t' = fieldMap t \<and> tableName t' = tableName t"
proof -
  let ?old = "key (data t ! i)"
  have pos: "map_of (keyMap t) ?old = Some i"
    using ok i by (simp add: keys_ok_def)
  have nk: "map_of (keyMap t) k = None"
    using fresh by (simp add: row_of_def table_find_def)
  have ne: "k \<noteq> ?old" using pos nk by auto
  let ?km = "um_emplace k i (um_erase ?old (keyMap t))"
  let ?t = "t\<lparr>keyMap := ?km, data := (data t)[i := (data t ! i)\<lparr>key := k\<rparr>]\<rparr>"
  have km: "map_of ?km = (map_of (keyMap t))(?old := None, k \<mapsto> i)"
    using nk ne by (simp add: umap_simps)
  have "keys_ok ?t"
  proof (rule keys_okI)
    show "distinct (um_keys (keyMap ?t))"
      using ok by (simp add: umap_simps keys_ok_distinct_index)
    fix k' j
    have "key (data t ! j) \<noteq> k" if "j < length (data t)"
      using that nk keys_ok_find [OF ok, of k j] by simp
    moreover have "key (data t ! j) = ?old \<longleftrightarrow> j = i" if "j < length (data t)"
      using that i keys_ok_inj [OF ok] by blast
    ultimately show "map_of (keyMap ?t) k' = Some j \<longleftrightarrow> j < length (data ?t) \<and> key (data ?t ! j) = k'"
      using i km keys_ok_find [OF ok, of k' j] by (auto simp: nth_list_update)
  qed
  then show ?thesis
    using i pos by (simp add: setKey_def)
qed

end
