(* ===== verification/Database.thy ===== *)
theory Database
  imports Table
begin

section \<open>Database: the table registry and the table file format\<close>

text \<open>
  The model of src/src/db/Database.h and src/src/db/Database.cpp. The singleton is an
  explicit state; the recursive mutex makes every operation atomic, which is what a
  function on the state is. A file is its text; the paths that can be read are the keys
  of an association list.
\<close>

record database =
  tables :: "(string, table) umap"
  fileTableNameMap :: "(string, string) umap"

type_synonym files = "(string, string) umap"

definition db_new :: database where
  "db_new = \<lparr>tables = [], fileTableNameMap = []\<rparr>"

subsection \<open>The registry\<close>

definition duplicate_exn :: "string \<Rightarrow> exn" where
  "duplicate_exn name = DuplicatedTableName
     (''Error when inserting table '' @ [CHR 0x22] @ name @ [CHR 0x22] @ ''. Name already exists.'')"

definition testDuplicate :: "string \<Rightarrow> database \<Rightarrow> unit res" where
  "testDuplicate name db =
     (if um_contains (tables db) name then Inl (duplicate_exn name) else Inr ())"

definition registerTable :: "table \<Rightarrow> database \<Rightarrow> database res" where
  "registerTable t db =
     (if um_contains (tables db) (tableName t) then Inl (duplicate_exn (tableName t))
      else Inr (db\<lparr>tables := um_put (tableName t) t (tables db)\<rparr>))"

definition db_index :: "database \<Rightarrow> string \<Rightarrow> table res" where
  "db_index db name =
     (case map_of (tables db) name of
        None \<Rightarrow> Inl (TableNameNotFound (''Error accesing table '' @ [CHR 0x22] @ name @ [CHR 0x22] @
                                        ''. Table not found.''))
      | Some t \<Rightarrow> Inr t)"

text \<open>A mutation through the reference \<open>operator[]\<close> returns stores the table back.\<close>

definition db_store :: "string \<Rightarrow> table \<Rightarrow> database \<Rightarrow> database" where
  "db_store name t db = db\<lparr>tables := um_put name t (tables db)\<rparr>"

definition dropTable :: "string \<Rightarrow> database \<Rightarrow> database res" where
  "dropTable name db =
     (if um_contains (tables db) name
      then Inr (db\<lparr>tables := um_erase name (tables db)\<rparr>)
      else Inl (TableNameNotFound (''Error when trying to drop table '' @ [CHR 0x22] @ name @
                                   [CHR 0x22] @ ''. Table not found.'')))"

definition printAllTable :: "database \<Rightarrow> string" where
  "printAllTable db =
     ''Database overview:'' @ [CHR 0x0A] @
     ''========================='' @ [CHR 0x0A] @
     setw 15 ''Table name'' @ setw 15 ''# of fields'' @ setw 15 ''# of entries'' @ [CHR 0x0A] @
     concat (map (\<lambda>(n, t). setw 15 n @ setw 15 (string_of_nat (length (tfields t) + 1)) @
                           setw 15 (string_of_nat (table_size t)) @ [CHR 0x0A]) (tables db)) @
     ''Total '' @ string_of_nat (length (tables db)) @ '' tables.'' @ [CHR 0x0A] @
     ''========================='' @ [CHR 0x0A]"

definition updateFileTableName :: "string \<Rightarrow> string \<Rightarrow> database \<Rightarrow> database" where
  "updateFileTableName fileName name db =
     db\<lparr>fileTableNameMap := um_put fileName name (fileTableNameMap db)\<rparr>"

text \<open>
  The table name of a file: the recorded one, else the first word of the file, which is
  then recorded (the empty word when the file has none). A file that cannot be opened has
  the empty name, and nothing is recorded.
\<close>

definition getFileTableName :: "files \<Rightarrow> string \<Rightarrow> database \<Rightarrow> string \<times> database" where
  "getFileTableName fs fileName db =
     (case map_of (fileTableNameMap db) fileName of
        Some n \<Rightarrow> (n, db)
      | None \<Rightarrow>
          (case map_of fs fileName of
             None \<Rightarrow> ([], db)
           | Some text \<Rightarrow>
               (let n = (case read_word text of None \<Rightarrow> [] | Some (w, _) \<Rightarrow> w)
                in (n, db\<lparr>fileTableNameMap := um_emplace fileName n (fileTableNameMap db)\<rparr>))))"

subsection \<open>Loading a table\<close>

definition load_err :: "string \<Rightarrow> string res" where
  "load_err source =
     (if source \<noteq> []
      then fmt_subst (''Invalid table (from '' @ [CHR 0x22, CHR ''?'', CHR 0x22] @ '') format: '') source
      else Inr ''Invalid table format: '')"

fun read_fields :: "string \<Rightarrow> nat \<Rightarrow> string \<Rightarrow> string list res" where
  "read_fields err 0 s = Inr []"
| "read_fields err (Suc n) s =
     (case read_word s of
        None \<Rightarrow> Inl (LoadFromStreamException (err @ ''Failed to load field names.''))
      | Some (w, s') \<Rightarrow> res_bind (read_fields err n s') (\<lambda>ws. Inr (w # ws)))"

fun read_values :: "string \<Rightarrow> nat \<Rightarrow> nat \<Rightarrow> string \<Rightarrow> i32 list res" where
  "read_values err lineCount 0 s = Inr []"
| "read_values err lineCount (Suc n) s =
     (case read_int s of
        None \<Rightarrow> Inl (LoadFromStreamException (err @ ''Invalid row on LINE '' @ string_of_nat lineCount))
      | Some (v, s') \<Rightarrow> res_bind (read_values err lineCount n s') (\<lambda>vs. Inr (v # vs)))"

lemma getline_shorter: "getline s = Some (l, rest) \<Longrightarrow> length rest < length s"
  using length_dropWhile_le [of "\<lambda>c. c \<noteq> CHR 0x0A" s]
  by (cases s) (auto simp: getline_def split: if_splits)

text \<open>The loop over the rows, which an empty line ends.\<close>

function load_rows :: "string \<Rightarrow> nat \<Rightarrow> nat \<Rightarrow> string \<Rightarrow> table \<Rightarrow> table res" where
  "load_rows err width lineCount input t =
     (case getline input of
        None \<Rightarrow> Inr t
      | Some (line, rest) \<Rightarrow>
          if line = [] then Inr t
          else
            res_bind (or_throw (LoadFromStreamException (err @ ''Missing or invalid KEY field.''))
                        (read_word line)) (\<lambda>(k, s).
            res_bind (read_values err (Suc lineCount) width s) (\<lambda>vs.
            res_bind (insertByIndex k vs t) (\<lambda>t'.
              load_rows err width (Suc lineCount) rest t'))))"
  by pat_completeness auto
termination
  by (relation "measure (\<lambda>(err, width, lineCount, input, t). length input)")
    (auto dest: getline_shorter)

declare load_rows.simps [simp del]

text \<open>The metadata line: the table name and the number of columns, \<open>KEY\<close> included.\<close>

definition read_metadata :: "string \<Rightarrow> (string \<times> nat) option" where
  "read_metadata line =
     (case read_word line of
        None \<Rightarrow> None
      | Some (name, s) \<Rightarrow> map_option (\<lambda>(n, _). (name, n)) (read_size s))"

text \<open>\<open>fields.front()\<close> of an empty deque is undefined: a column count of zero gets there.\<close>

fun strip_key :: "string \<Rightarrow> string list \<Rightarrow> string list res" where
  "strip_key err [] = Inl Undefined_behaviour"
| "strip_key err (f # fs) =
     (if f \<noteq> ''KEY'' then Inl (LoadFromStreamException (err @ ''Missing or invalid KEY field.''))
      else Inr fs)"

definition loadTableFromStream :: "string \<Rightarrow> string \<Rightarrow> database \<Rightarrow> database res" where
  "loadTableFromStream input source db =
     res_bind (load_err source) (\<lambda>err.
     res_bind (or_throw (LoadFromStreamException (err @ ''Failed to read table metadata line.''))
                 (getline input)) (\<lambda>(line1, input1).
     res_bind (or_throw (LoadFromStreamException (err @ ''Failed to parse table metadata.''))
                 (read_metadata line1)) (\<lambda>(name, fieldCount).
     res_bind (testDuplicate name db) (\<lambda>_.
     res_bind (or_throw (LoadFromStreamException (err @ ''Failed to load field names.''))
                 (getline input1)) (\<lambda>(line2, input2).
     res_bind (read_fields err fieldCount line2) (\<lambda>all.
     res_bind (strip_key err all) (\<lambda>fs.
     res_bind (table_with_fields name fs) (\<lambda>t0.
     res_bind (load_rows err (fieldCount - 1) 2 input2 t0) (\<lambda>t.
       registerTable t db)))))))))"

subsection \<open>Dumping and loading back\<close>

text \<open>
  A word that the format can hold: not empty and without white space. \<open>operator<<\<close> puts no
  separator between columns, it pads to ten characters, so a word after the first column
  is kept apart from the one before it only when it is shorter than ten characters.
\<close>

definition is_word :: "string \<Rightarrow> bool" where
  "is_word w \<longleftrightarrow> w \<noteq> [] \<and> (\<forall>c \<in> set w. \<not> is_space c)"

definition is_cell :: "string \<Rightarrow> bool" where
  "is_cell w \<longleftrightarrow> is_word w \<and> length w < 10"

definition dumpable :: "table \<Rightarrow> bool" where
  "dumpable t \<longleftrightarrow> is_word (tableName t) \<and> list_all is_cell (tfields t) \<and>
     list_all (\<lambda>d. is_word (key d) \<and> list_all (\<lambda>v. length (string_of_int (sint v)) < 10) (datum d))
       (data t) \<and> length (tfields t) + 1 < 2 ^ 64"

definition cells :: "string list \<Rightarrow> string" where
  "cells ws = concat (map (setw 10) ws)"

definition row_text :: "datum \<Rightarrow> string" where
  "row_text d = setw 10 (key d) @ cells (map (\<lambda>v. string_of_int (sint v)) (datum d))"

lemma cells_simps [simp]:
  "cells [] = []" "cells (w # ws) = setw 10 w @ cells ws"
  by (simp_all add: cells_def)

lemma is_word_string_of_int: "is_word (string_of_int z)"
  using string_of_int_start string_of_int_no_space by (auto simp: is_word_def)

lemma newline_is_space: "is_space (CHR 0x0A)"
  by (simp add: is_space_def)

lemma word_no_newline: "is_word w \<Longrightarrow> CHR 0x0A \<notin> set w"
  using newline_is_space by (auto simp: is_word_def)

lemma setw_no_newline: "is_word w \<Longrightarrow> CHR 0x0A \<notin> set (setw n w)"
  using word_no_newline by (auto simp: setw_def)

lemma cells_no_newline: "\<forall>w \<in> set ws. is_word w \<Longrightarrow> CHR 0x0A \<notin> set (cells ws)"
  by (induction ws) (auto simp: setw_no_newline)

lemma cells_stop: "\<forall>w \<in> set ws. length w < 10 \<Longrightarrow> stops_word (cells ws)"
proof (cases ws)
  case (Cons w ws')
  assume "\<forall>w \<in> set ws. length w < 10"
  with Cons obtain n where "10 - length w = Suc n"
    by (metis Suc_diff_Suc list.set_intros(1))
  with Cons show ?thesis by (simp add: setw_def)
qed simp

lemma read_word_setw:
  "is_word w \<Longrightarrow> stops_word rest \<Longrightarrow> read_word (setw n w @ rest) = Some (w, rest)"
  using read_word_word [of w rest "n - length w"] by (simp add: setw_def is_word_def)

lemma read_fields_cells:
  "\<forall>w \<in> set ws. is_cell w \<Longrightarrow> read_fields err (length ws) (cells ws) = Inr ws"
  by (induction ws) (simp_all add: is_cell_def read_word_setw cells_stop)

lemma read_values_cells:
  "\<forall>v \<in> set vs. length (string_of_int (sint v)) < 10 \<Longrightarrow>
   read_values err n (length vs) (cells (map (\<lambda>v. string_of_int (sint v)) vs)) = Inr vs"
proof (induction vs)
  case Nil
  then show ?case by simp
next
  case (Cons v vs)
  let ?rest = "cells (map (\<lambda>v. string_of_int (sint v)) vs)"
  have "stops_digits ?rest"
    using Cons.prems by (intro stops_word_digits cells_stop) auto
  then have "read_int (setw 10 (string_of_int (sint v)) @ ?rest) = Some (v, ?rest)"
    using read_int_string_of_int by (simp add: setw_def)
  with Cons show ?case by simp
qed

lemma print_row_text:
  "length (datum d) = n \<Longrightarrow> print_row n d = Inr (row_text d @ [CHR 0x0A])"
  by (simp add: print_row_def row_text_def cells_def comp_def)

lemma print_table_text:
  assumes "rows_ok t"
  shows "print_table t = Inr (tableName t @ [CHR 0x09] @ string_of_nat (Suc (length (tfields t))) @ [CHR 0x0A] @
     cells (''KEY'' # tfields t) @ [CHR 0x0A] @ concat (map (\<lambda>d. row_text d @ [CHR 0x0A]) (data t)))"
proof -
  have "res_map (print_row (length (tfields t))) (data t) = Inr (map (\<lambda>d. row_text d @ [CHR 0x0A]) (data t))"
    using assms by (intro res_map_total) (simp add: rows_ok_def print_row_text)
  then show ?thesis by (simp add: print_table_def cells_def)
qed

definition row_dumpable :: "datum \<Rightarrow> bool" where
  "row_dumpable d \<longleftrightarrow> is_word (key d) \<and> list_all (\<lambda>v. length (string_of_int (sint v)) < 10) (datum d)"

lemma row_text_line:
  assumes "row_dumpable d"
  shows "getline (row_text d @ CHR 0x0A # rest) = Some (row_text d, rest)"
    and "row_text d \<noteq> []"
    and "read_word (row_text d) = Some (key d, cells (map (\<lambda>v. string_of_int (sint v)) (datum d)))"
proof -
  have k: "is_word (key d)" and v: "\<forall>v \<in> set (datum d). length (string_of_int (sint v)) < 10"
    using assms by (simp_all add: row_dumpable_def list_all_iff)
  have "CHR 0x0A \<notin> set (row_text d)"
    using k setw_no_newline cells_no_newline is_word_string_of_int by (auto simp: row_text_def)
  then show "getline (row_text d @ CHR 0x0A # rest) = Some (row_text d, rest)"
    by (rule getline_line)
  show "row_text d \<noteq> []"
    using k by (auto simp: row_text_def setw_def is_word_def)
  show "read_word (row_text d) = Some (key d, cells (map (\<lambda>v. string_of_int (sint v)) (datum d)))"
    unfolding row_text_def using v by (intro read_word_setw k cells_stop) auto
qed

lemma load_rows_text:
  assumes "keys_ok t" and "\<forall>d \<in> set ds. row_dumpable d \<and> length (datum d) = w"
    and "distinct (map key ds)" and "\<forall>d \<in> set ds. row_of t (key d) = None"
  shows "\<exists>t'. load_rows err w n (concat (map (\<lambda>d. row_text d @ [CHR 0x0A]) ds)) t = Inr t' \<and> keys_ok t' \<and>
     data t' = data t @ ds \<and> tfields t' = tfields t \<and> fieldMap t' = fieldMap t \<and> tableName t' = tableName t"
  using assms
proof (induction ds arbitrary: t n)
  case Nil
  then show ?case by (simp add: load_rows.simps getline_def)
next
  case (Cons d ds)
  obtain t1 where t1: "insertByIndex (key d) (datum d) t = Inr t1" "keys_ok t1"
      "row_of t1 = (row_of t)(key d \<mapsto> datum d)"
    using tbl.insert_fresh [of t "key d"] Cons.prems by fastforce
  have d: "row_dumpable d" "length (datum d) = w" using Cons.prems by auto
  have rv: "read_values err (Suc n) w (cells (map (\<lambda>v. string_of_int (sint v)) (datum d))) = Inr (datum d)"
    using d read_values_cells [of "datum d"] by (simp add: row_dumpable_def list_all_iff)
  let ?rest = "concat (map (\<lambda>d. row_text d @ [CHR 0x0A]) ds)"
  have step: "load_rows err w n (row_text d @ CHR 0x0A # ?rest) t = load_rows err w (Suc n) ?rest t1"
    by (subst load_rows.simps) (simp add: row_text_line [OF d(1)] rv t1(1))
  have fresh: "\<forall>d' \<in> set ds. row_of t1 (key d') = None"
    using Cons.prems(3,4) t1(3) by (auto simp: image_iff)
  obtain t' where "load_rows err w (Suc n) ?rest t1 = Inr t'"
      "keys_ok t'" "data t' = data t1 @ ds" "tfields t' = tfields t1" "fieldMap t' = fieldMap t1"
      "tableName t' = tableName t1"
    using Cons.IH [OF t1(2) _ _ fresh, of "Suc n"] Cons.prems(2,3) by auto
  with step insertByIndex_frame [OF t1(1)] show ?case
    by (intro exI [of _ t']) simp
qed

lemma load_err_Inr: "\<exists>err. load_err source = Inr err"
  by (simp add: load_err_def fmt_subst_def)

lemma load_dump:
  assumes inv: "table_inv t" and dump: "dumpable t" and fresh: "\<not> um_contains (tables db) (tableName t)"
    and print: "print_table t = Inr text"
  shows "\<exists>t'. loadTableFromStream text source db = Inr (db_store (tableName t) t' db) \<and>
     table_inv t' \<and> tableName t' = tableName t \<and> tfields t' = tfields t \<and> data t' = data t \<and>
     row_of t' = row_of t"
proof -
  let ?line1 = "tableName t @ [CHR 0x09] @ string_of_nat (Suc (length (tfields t)))"
  let ?line2 = "cells (''KEY'' # tfields t)"
  let ?rows = "concat (map (\<lambda>d. row_text d @ [CHR 0x0A]) (data t))"
  have ok: "keys_ok t" "fields_ok t" "rows_ok t"
    using inv by (simp_all add: table_inv_def)
  have name: "is_word (tableName t)" and fs: "\<forall>f \<in> set (tfields t). is_cell f"
    and rows: "\<forall>d \<in> set (data t). row_dumpable d" and n: "Suc (length (tfields t)) < 2 ^ 64"
    using dump by (auto simp: dumpable_def row_dumpable_def list_all_iff)
  have tx: "text = ?line1 @ CHR 0x0A # ?line2 @ CHR 0x0A # ?rows"
    using print print_table_text [OF ok(3)] by simp
  obtain err where err: "load_err source = Inr err"
    using load_err_Inr by blast
  have nl: "CHR 0x0A \<notin> set (string_of_nat m)" for m
    using is_digit_string_of_nat [of "CHR 0x0A" m] by (auto simp: is_digit_def)
  have g1: "getline text = Some (?line1, ?line2 @ CHR 0x0A # ?rows)"
    unfolding tx using nl word_no_newline [OF name] getline_line [of ?line1 "?line2 @ CHR 0x0A # ?rows"]
    by simp
  have key: "is_cell ''KEY''" by (simp add: is_cell_def is_word_def is_space_def)
  have g2: "getline (?line2 @ CHR 0x0A # ?rows) = Some (?line2, ?rows)"
    using key fs by (intro getline_line cells_no_newline) (auto simp: is_cell_def)
  have w1: "read_word ?line1 = Some (tableName t, CHR 0x09 # string_of_nat (Suc (length (tfields t))))"
    using read_word_word [of "tableName t" "CHR 0x09 # string_of_nat (Suc (length (tfields t)))" 0] name
    by (simp add: is_word_def is_space_def)
  have tab: "skip_ws (CHR 0x09 # s) = skip_ws s" for s
    by (simp add: skip_ws_def is_space_def)
  have w2: "read_size (CHR 0x09 # string_of_nat (Suc (length (tfields t)))) = Some (Suc (length (tfields t)), [])"
    using read_size_string_of_nat [of "[]" "Suc (length (tfields t))" 0] n
    by (simp add: read_size_def tab)
  have m: "read_metadata ?line1 = Some (tableName t, Suc (length (tfields t)))"
    by (simp add: read_metadata_def w1 [simplified] w2 [simplified])
  have f: "read_fields err (Suc (length (tfields t))) ?line2 = Inr (''KEY'' # tfields t)"
    using read_fields_cells [of "''KEY'' # tfields t" err] key fs by simp
  obtain t0 where t0: "table_with_fields (tableName t) (tfields t) = Inr t0" "table_inv t0"
      "tableName t0 = tableName t" "tfields t0 = tfields t" "data t0 = []"
    using table_with_fields_ok ok(2) by (metis fields_ok_def)
  have empty: "row_of t0 k = None" for k
    using t0(2,5) by (cases "row_of t0 k") (auto simp: table_inv_def row_of_iff)
  obtain t' where t': "load_rows err (length (tfields t)) 2 ?rows t0 = Inr t'" "keys_ok t'"
      "data t' = data t0 @ data t" "tfields t' = tfields t0" "fieldMap t' = fieldMap t0" "tableName t' = tableName t0"
    using load_rows_text [of t0 "data t" "length (tfields t)" err 2] t0(2) rows ok(3) empty
      keys_ok_distinct_keys [OF ok(1)] by (auto simp: table_inv_def rows_ok_def)
  have "loadTableFromStream text source db = Inr (db_store (tableName t) t' db)"
    using fresh t'(1,6) t0(3)
    by (simp add: loadTableFromStream_def err g1 g2 m [simplified] f t0(1) testDuplicate_def registerTable_def
        db_store_def del: cells_simps read_fields.simps)
  moreover have "table_inv t'"
    using t' t0 ok by (simp add: table_inv_def fields_ok_def rows_ok_def)
  moreover have "row_of t' = row_of t"
    using t'(2,3) t0(5) ok(1) by (intro row_of_eqI) (simp add: row_of_iff)
  ultimately show ?thesis using t' t0 by auto
qed

subsection \<open>The registry invariant\<close>

text \<open>Every table is registered under its own name, with consistent key and field indexes.\<close>

definition db_inv :: "database \<Rightarrow> bool" where
  "db_inv db \<longleftrightarrow> distinct (um_keys (tables db)) \<and>
     (\<forall>(n, t) \<in> set (tables db). tableName t = n \<and> keys_ok t \<and> fields_ok t)"

lemma db_inv_index:
  assumes "db_inv db" and "db_index db name = Inr t"
  shows "map_of (tables db) name = Some t \<and> tableName t = name \<and> keys_ok t \<and> fields_ok t"
  using assms map_of_SomeD [of "tables db" name t]
  by (auto simp: db_inv_def db_index_def split: option.splits)

lemma set_um_put_subset: "set (um_put k v m) \<subseteq> insert (k, v) (set m)"
  unfolding um_put_def by (induction m) auto

lemma set_um_erase_subset: "set (um_erase k m) \<subseteq> set m"
  unfolding um_erase_def by (induction m) auto

lemma db_inv_put:
  assumes "db_inv db" and "tableName t = n" "keys_ok t" "fields_ok t"
  shows "db_inv (db\<lparr>tables := um_put n t (tables db)\<rparr>)"
  using assms set_um_put_subset [of n t "tables db"]
  by (auto simp: db_inv_def distinct_um_put)

lemma db_inv_store:
  "db_inv db \<Longrightarrow> tableName t = n \<Longrightarrow> keys_ok t \<Longrightarrow> fields_ok t \<Longrightarrow> db_inv (db_store n t db)"
  using db_inv_put by (simp add: db_store_def)

lemma db_inv_register:
  "db_inv db \<Longrightarrow> keys_ok t \<Longrightarrow> fields_ok t \<Longrightarrow> registerTable t db = Inr db' \<Longrightarrow> db_inv db'"
  using db_inv_put by (auto simp: registerTable_def split: if_splits)

lemma db_inv_drop: "db_inv db \<Longrightarrow> dropTable n db = Inr db' \<Longrightarrow> db_inv db'"
  using set_um_erase_subset [of n "tables db"]
  by (auto simp: db_inv_def dropTable_def distinct_um_erase split: if_splits)

lemma db_inv_fileTableNameMap [simp]: "db_inv (db\<lparr>fileTableNameMap := m\<rparr>) = db_inv db"
  by (simp add: db_inv_def)

lemma load_rows_inv:
  "keys_ok t \<Longrightarrow> load_rows err w n input t = Inr t' \<Longrightarrow>
   keys_ok t' \<and> tfields t' = tfields t \<and> fieldMap t' = fieldMap t \<and> tableName t' = tableName t"
proof (induction err w n input t rule: load_rows.induct)
  case (1 err w n input t)
  show ?case
  proof (cases "getline input")
    case None
    with "1.prems" show ?thesis by (simp add: load_rows.simps)
  next
    case (Some lr)
    obtain line rest where lr: "lr = (line, rest)" by (cases lr)
    show ?thesis
    proof (cases "line = []")
      case True
      with Some lr "1.prems" show ?thesis by (simp add: load_rows.simps)
    next
      case False
      have "load_rows err w n input t = Inr t'" by (rule "1.prems"(2))
      then obtain k s vs t1 where st: "read_word line = Some (k, s)"
          "read_values err (Suc n) w s = Inr vs" "insertByIndex k vs t = Inr t1"
          "load_rows err w (Suc n) rest t1 = Inr t'"
        using False Some lr by (subst (asm) load_rows.simps) (auto simp: res_simps)
      have "keys_ok t1"
        using st(3) "1.prems"(1) insertByIndex_keys_ok by blast
      then show ?thesis
        using "1.IH" [OF Some lr [symmetric] False _ st(4)] insertByIndex_frame [OF st(3)]
        by simp
    qed
  qed
qed

lemma db_inv_load:
  assumes inv: "db_inv db" and load: "loadTableFromStream input source db = Inr db'"
  shows "db_inv db'"
proof -
  from load obtain err name w n input' fs t0 t where
    t0: "table_with_fields name fs = Inr t0" and
    rows: "load_rows err w n input' t0 = Inr t" and
    reg: "registerTable t db = Inr db'"
    by (auto simp: loadTableFromStream_def res_simps split: option.splits list.splits if_splits)
  from t0 have "''KEY'' \<notin> set fs"
    using table_with_fields_KEY [of fs name] by auto
  with t0 have "keys_ok t0" "fields_ok t0"
    using table_with_fields_ok [of fs name] by (auto simp: table_inv_def)
  with rows have "keys_ok t" "fields_ok t"
    using load_rows_inv [of t0 err w n input' t] by (auto simp: fields_ok_def)
  with inv reg show ?thesis using db_inv_register by blast
qed

end
