(* ===== verification/Query_Core.thy ===== *)
theory Query_Core
  imports Database
begin

section \<open>Queries: types, conditions and results\<close>

text \<open>
  The model of src/src/query/Query.h, Query.cpp, QueryHelpers.h, QueryPriority.h and
  QueryResult.h: the query types and their classification, the query objects, the
  compilation and evaluation of \<open>WHERE\<close> conditions, and the results.
\<close>

subsection \<open>Query types\<close>

datatype query_type =
    QT_Load | QT_Dump | QT_Drop | QT_Truncate | QT_CopyTable | QT_List | QT_Quit
  | QT_PrintTable | QT_Insert | QT_Update | QT_Select | QT_Delete | QT_Duplicate | QT_Count
  | QT_Sum | QT_Min | QT_Max | QT_Add | QT_Sub | QT_Swap | QT_Listen | QT_Nop

datatype query_kind = Kind_Read | Kind_Write | Kind_Null

fun getQueryKind :: "query_type \<Rightarrow> query_kind" where
  "getQueryKind QT_Dump = Kind_Read"
| "getQueryKind QT_List = Kind_Read"
| "getQueryKind QT_PrintTable = Kind_Read"
| "getQueryKind QT_Select = Kind_Read"
| "getQueryKind QT_Count = Kind_Read"
| "getQueryKind QT_Sum = Kind_Read"
| "getQueryKind QT_Min = Kind_Read"
| "getQueryKind QT_Max = Kind_Read"
| "getQueryKind QT_Load = Kind_Write"
| "getQueryKind QT_Drop = Kind_Write"
| "getQueryKind QT_Truncate = Kind_Write"
| "getQueryKind QT_CopyTable = Kind_Write"
| "getQueryKind QT_Insert = Kind_Write"
| "getQueryKind QT_Update = Kind_Write"
| "getQueryKind QT_Delete = Kind_Write"
| "getQueryKind QT_Duplicate = Kind_Write"
| "getQueryKind QT_Add = Kind_Write"
| "getQueryKind QT_Sub = Kind_Write"
| "getQueryKind QT_Swap = Kind_Write"
| "getQueryKind QT_Quit = Kind_Null"
| "getQueryKind QT_Listen = Kind_Null"
| "getQueryKind QT_Nop = Kind_Null"

subsection \<open>Priorities\<close>

text \<open>The enumeration is ordered by its values: a smaller value is more urgent.\<close>

datatype query_priority = SYSTEM_HIGH | HIGH | NORMAL | LOW

fun priority_rank :: "query_priority \<Rightarrow> nat" where
  "priority_rank SYSTEM_HIGH = 0"
| "priority_rank HIGH = 1"
| "priority_rank NORMAL = 2"
| "priority_rank LOW = 3"

lemma priority_rank_inj: "priority_rank p = priority_rank q \<Longrightarrow> p = q"
  by (cases p; cases q) simp_all

instantiation query_priority :: linorder
begin

definition less_eq_query_priority :: "query_priority \<Rightarrow> query_priority \<Rightarrow> bool" where
  "less_eq_query_priority p q \<longleftrightarrow> priority_rank p \<le> priority_rank q"

definition less_query_priority :: "query_priority \<Rightarrow> query_priority \<Rightarrow> bool" where
  "less_query_priority p q \<longleftrightarrow> priority_rank p < priority_rank q"

instance
  by standard (auto simp: less_eq_query_priority_def less_query_priority_def dest: priority_rank_inj)

end

fun classifyPriority :: "query_type \<Rightarrow> query_priority" where
  "classifyPriority QT_Quit = SYSTEM_HIGH"
| "classifyPriority QT_List = SYSTEM_HIGH"
| "classifyPriority QT_Load = HIGH"
| "classifyPriority QT_Dump = HIGH"
| "classifyPriority QT_Drop = HIGH"
| "classifyPriority QT_Truncate = HIGH"
| "classifyPriority QT_CopyTable = HIGH"
| "classifyPriority _ = NORMAL"

definition controlTableId :: string where
  "controlTableId = ''__control__''"

subsection \<open>Conditions\<close>

text \<open>\<open>std::function comp\<close>: empty until \<open>initCondition\<close> sets it; calling it empty throws.\<close>

datatype comparator = No_comp | Greater | Less | Equal_to | Greater_equal | Less_equal

record query_condition =
  field :: string
  fieldId :: nat
  op :: string
  comp :: comparator
  cvalue :: string
  valueParsed :: i32

text \<open>\<open>ValueType\<close> is \<open>int\<close>: the comparisons are signed.\<close>

fun apply_comp :: "comparator \<Rightarrow> i32 \<Rightarrow> i32 \<Rightarrow> bool res" where
  "apply_comp No_comp x y = Inl Bad_function_call"
| "apply_comp Greater x y = Inr (sint x > sint y)"
| "apply_comp Less x y = Inr (sint x < sint y)"
| "apply_comp Equal_to x y = Inr (x = y)"
| "apply_comp Greater_equal x y = Inr (sint x \<ge> sint y)"
| "apply_comp Less_equal x y = Inr (sint x \<le> sint y)"

definition opmap :: "(string, comparator) umap" where
  "opmap = [(''>'', Greater), (''<'', Less), (''='', Equal_to),
            (''>='', Greater_equal), (''<='', Less_equal)]"

definition bad_operator :: "string \<Rightarrow> 'a res" where
  "bad_operator o' =
     res_bind (fmt_subst ([CHR 0x22, CHR ''?'', CHR 0x22] @ '' is not a valid condition operator.'') o')
       (\<lambda>m. Inl (IllFormedQueryCondition m))"

text \<open>
  \<open>initCondition\<close>: the loop over the conditions with \<open>result.first\<close>. Two different
  \<open>KEY\<close> values end it early with \<open>result.second\<close> false.
\<close>

fun init_loop ::
  "table \<Rightarrow> string \<Rightarrow> query_condition list \<Rightarrow> (query_condition list \<times> string \<times> bool) res" where
  "init_loop t first [] = Inr ([], first, True)"
| "init_loop t first (c # cs) =
     (if field c = ''KEY'' then
        if op c \<noteq> ''='' then
          Inl (IllFormedQueryCondition ''Can only compare equivalence on KEY'')
        else if first = [] then
          res_bind (init_loop t (cvalue c) cs) (\<lambda>(cs', r). Inr (c # cs', r))
        else if first \<noteq> cvalue c then Inr (c # cs, first, False)
        else res_bind (init_loop t first cs) (\<lambda>(cs', r). Inr (c # cs', r))
      else
        res_bind (getFieldIndex t (field c)) (\<lambda>i.
        case map_of opmap (op c) of
          None \<Rightarrow> bad_operator (op c)
        | Some f \<Rightarrow>
            res_bind (init_loop t first cs) (\<lambda>(cs', r).
              Inr (c\<lparr>fieldId := i, valueParsed := parse_value (cvalue c), comp := f\<rparr> # cs', r))))"

definition initCondition ::
  "table \<Rightarrow> query_condition list \<Rightarrow> (query_condition list \<times> string \<times> bool) res" where
  "initCondition t cs = init_loop t [] cs"

text \<open>\<open>evalCondition\<close>: once \<open>ret\<close> is false, the short-circuit \<open>&&\<close> reads no more fields.\<close>

fun eval_loop :: "bool \<Rightarrow> query_condition list \<Rightarrow> datum \<Rightarrow> bool res" where
  "eval_loop ret [] d = Inr ret"
| "eval_loop ret (c # cs) d =
     (if field c \<noteq> ''KEY'' then
        if ret then
          res_bind (obj_get d (fieldId c)) (\<lambda>x.
          res_bind (apply_comp (comp c) x (valueParsed c)) (\<lambda>b. eval_loop b cs d))
        else eval_loop False cs d
      else eval_loop (ret \<and> key d = cvalue c) cs d)"

definition evalCondition :: "query_condition list \<Rightarrow> datum \<Rightarrow> bool res" where
  "evalCondition cs d = eval_loop True cs d"

subsection \<open>Query objects\<close>

text \<open>
  The subclasses of \<open>Query\<close>: the management queries with their table and file names, and
  the \<open>ComplexQuery\<close> subclasses, which share the target table, the operands and the
  conditions.
\<close>

datatype complex_op =
    Op_Insert | Op_Update | Op_Select | Op_Delete | Op_Duplicate | Op_Count
  | Op_Sum | Op_Min | Op_Max | Op_Add | Op_Sub | Op_Swap

datatype query =
    LoadTableQuery string string
  | DropTableQuery string
  | TruncateTableQuery string
  | DumpTableQuery string string
  | CopyTableQuery string string
  | ListTableQuery
  | QuitQuery
  | PrintTableQuery string
  | ListenQuery string
  | NopQuery
  | ComplexQuery complex_op string "string list" "query_condition list"

fun complex_type :: "complex_op \<Rightarrow> query_type" where
  "complex_type Op_Insert = QT_Insert"
| "complex_type Op_Update = QT_Update"
| "complex_type Op_Select = QT_Select"
| "complex_type Op_Delete = QT_Delete"
| "complex_type Op_Duplicate = QT_Duplicate"
| "complex_type Op_Count = QT_Count"
| "complex_type Op_Sum = QT_Sum"
| "complex_type Op_Min = QT_Min"
| "complex_type Op_Max = QT_Max"
| "complex_type Op_Add = QT_Add"
| "complex_type Op_Sub = QT_Sub"
| "complex_type Op_Swap = QT_Swap"

fun queryType :: "query \<Rightarrow> query_type" where
  "queryType (LoadTableQuery _ _) = QT_Load"
| "queryType (DropTableQuery _) = QT_Drop"
| "queryType (TruncateTableQuery _) = QT_Truncate"
| "queryType (DumpTableQuery _ _) = QT_Dump"
| "queryType (CopyTableQuery _ _) = QT_CopyTable"
| "queryType ListTableQuery = QT_List"
| "queryType QuitQuery = QT_Quit"
| "queryType (PrintTableQuery _) = QT_PrintTable"
| "queryType (ListenQuery _) = QT_Listen"
| "queryType NopQuery = QT_Nop"
| "queryType (ComplexQuery oper _ _ _) = complex_type oper"

text \<open>\<open>Query::table\<close>: the target table, empty for the queries that have none.\<close>

fun query_table :: "query \<Rightarrow> string" where
  "query_table (LoadTableQuery t _) = t"
| "query_table (DropTableQuery t) = t"
| "query_table (TruncateTableQuery t) = t"
| "query_table (DumpTableQuery t _) = t"
| "query_table (CopyTableQuery t _) = t"
| "query_table (PrintTableQuery t) = t"
| "query_table (ComplexQuery _ t _ _) = t"
| "query_table _ = []"

fun extractFilePath :: "query \<Rightarrow> string" where
  "extractFilePath (LoadTableQuery _ f) = f"
| "extractFilePath (DumpTableQuery _ f) = f"
| "extractFilePath _ = []"

fun extractNewTable :: "query \<Rightarrow> string" where
  "extractNewTable (CopyTableQuery _ n) = n"
| "extractNewTable _ = []"

definition resolveTableId :: "query \<Rightarrow> string" where
  "resolveTableId q = (if query_table q = [] then controlTableId else query_table q)"

subsection \<open>Results\<close>

datatype query_result =
    NullQueryResult
  | ErrorMsgResult string
  | SuccessMsgResult string
  | RecordCountResult i32

fun success :: "query_result \<Rightarrow> bool" where
  "success (ErrorMsgResult _) = False"
| "success _ = True"

fun display :: "query_result \<Rightarrow> bool" where
  "display (ErrorMsgResult _) = False"
| "display _ = True"

fun result_output :: "query_result \<Rightarrow> string" where
  "result_output NullQueryResult = []"
| "result_output (ErrorMsgResult m) = m @ [CHR 0x0A]"
| "result_output (SuccessMsgResult m) = m @ [CHR 0x0A]"
| "result_output (RecordCountResult n) =
     ''Affected '' @ string_of_int (sint n) @ '' rows.'' @ [CHR 0x0A]"

text \<open>
  The constructors format their message with \<open>%\<close>, one argument after the other, so a \<open>?\<close>
  inside an argument is taken for the next place holder.
\<close>

fun fmt_all :: "string \<Rightarrow> string list \<Rightarrow> string res" where
  "fmt_all s [] = Inr s"
| "fmt_all s (v # vs) = res_bind (fmt_subst s v) (\<lambda>s'. fmt_all s' vs)"

definition quoted :: "string \<Rightarrow> string" where
  "quoted s = [CHR 0x22] @ s @ [CHR 0x22]"

definition errorMsg2 :: "string \<Rightarrow> string \<Rightarrow> query_result res" where
  "errorMsg2 qname m =
     res_bind (fmt_all (''Query '' @ quoted ''?'' @ '' failed : ?'') [qname, m])
       (\<lambda>s. Inr (ErrorMsgResult s))"

definition errorMsg3 :: "string \<Rightarrow> string \<Rightarrow> string \<Rightarrow> query_result res" where
  "errorMsg3 qname tbl m =
     res_bind (fmt_all (''Query '' @ quoted ''?'' @ '' failed in Table '' @ quoted ''?'' @ '' : ?'')
                 [qname, tbl, m])
       (\<lambda>s. Inr (ErrorMsgResult s))"

definition successInt :: "i32 \<Rightarrow> query_result" where
  "successInt n = SuccessMsgResult (''ANSWER = '' @ string_of_int (sint n))"

definition successVector :: "i32 list \<Rightarrow> query_result" where
  "successVector vs = SuccessMsgResult
     (''ANSWER = ( '' @ concat (map (\<lambda>v. string_of_int (sint v) @ '' '') vs) @ '')'')"

definition successName :: "string \<Rightarrow> query_result res" where
  "successName qname =
     res_bind (fmt_all (''Query '' @ quoted ''?'' @ '' success.'') [qname]) (\<lambda>s. Inr (SuccessMsgResult s))"

definition successMsg2 :: "string \<Rightarrow> string \<Rightarrow> query_result res" where
  "successMsg2 qname m =
     res_bind (fmt_all (''Query '' @ quoted ''?'' @ '' success : ?'') [qname, m])
       (\<lambda>s. Inr (SuccessMsgResult s))"

text \<open>Every place holder of the fixed templates is still there when its turn comes.\<close>

lemma count_list_fmt_subst:
  assumes "0 < count_list s (CHR ''?'')"
  shows "\<exists>s'. fmt_subst s v = Inr s' \<and> count_list s (CHR ''?'') \<le> Suc (count_list s' (CHR ''?''))"
proof -
  obtain i where i: "find_char (CHR ''?'') s = Some i"
    using assms find_char_None [of "CHR ''?''" s] by (cases "find_char (CHR ''?'') s") (auto simp: count_list_0_iff)
  have "i < length s" using find_char_Some [OF i] by simp
  then have "count_list s (CHR ''?'') = count_list (take i s @ s ! i # drop (Suc i) s) (CHR ''?'')"
    by (simp flip: id_take_nth_drop)
  then have c: "count_list s (CHR ''?'') \<le> Suc (count_list (take i s) (CHR ''?'') + count_list (drop (Suc i) s) (CHR ''?''))"
    by simp
  show ?thesis
  proof (cases "i = 0 \<or> s ! (i - 1) \<noteq> CHR 0x5C")
    case True
    with i have "fmt_subst s v = Inr (take i s @ v @ drop (Suc i) s)"
      by (simp add: fmt_subst_def)
    with c show ?thesis by simp
  next
    case False
    with i have "fmt_subst s v = Inr s" by (simp add: fmt_subst_def)
    then show ?thesis by simp
  qed
qed

lemma fmt_all_total:
  "length vs \<le> count_list s (CHR ''?'') \<Longrightarrow> \<exists>s'. fmt_all s vs = Inr s'"
proof (induction vs arbitrary: s)
  case Nil
  then show ?case by simp
next
  case (Cons v vs)
  then have "0 < count_list s (CHR ''?'')" by (cases "count_list s (CHR ''?'')") auto
  then obtain s' where "fmt_subst s v = Inr s'" "count_list s (CHR ''?'') \<le> Suc (count_list s' (CHR ''?''))"
    using count_list_fmt_subst by blast
  with Cons show ?case by fastforce
qed

lemma errorMsg2_total: "\<exists>s. errorMsg2 q m = Inr (ErrorMsgResult s)"
proof -
  have "\<exists>s'. fmt_all (''Query '' @ quoted ''?'' @ '' failed : ?'') [q, m] = Inr s'"
    by (rule fmt_all_total) (simp add: quoted_def)
  then show ?thesis by (auto simp: errorMsg2_def)
qed

lemma errorMsg3_total: "\<exists>s. errorMsg3 q t m = Inr (ErrorMsgResult s)"
proof -
  have "\<exists>s'. fmt_all (''Query '' @ quoted ''?'' @ '' failed in Table '' @ quoted ''?'' @ '' : ?'') [q, t, m] = Inr s'"
    by (rule fmt_all_total) (simp add: quoted_def)
  then show ?thesis by (auto simp: errorMsg3_def)
qed

subsection \<open>What a condition means\<close>

text \<open>
  The meaning of a \<open>WHERE\<close> clause, by field name, and the theorem that compiling the
  conditions and evaluating them on a row decides it.
\<close>

definition known_field :: "table \<Rightarrow> string \<Rightarrow> bool" where
  "known_field t f \<longleftrightarrow> map_of (fieldMap t) f \<noteq> None"

definition cond_holds :: "table \<Rightarrow> datum \<Rightarrow> query_condition \<Rightarrow> bool" where
  "cond_holds t d c =
     (if field c = ''KEY'' then key d = cvalue c
      else case (map_of (fieldMap t) (field c), map_of opmap (op c)) of
             (Some i, Some f) \<Rightarrow>
               i < length (datum d) \<and> apply_comp f (datum d ! i) (parse_value (cvalue c)) = Inr True
           | _ \<Rightarrow> False)"

definition cond_valid :: "table \<Rightarrow> query_condition \<Rightarrow> bool" where
  "cond_valid t c =
     (if field c = ''KEY'' then op c = ''=''
      else known_field t (field c) \<and> map_of opmap (op c) \<noteq> None)"

lemma apply_comp_total: "f \<noteq> No_comp \<Longrightarrow> apply_comp f x y = Inr (projr (apply_comp f x y))"
  by (cases f) simp_all

lemma opmap_comp: "map_of opmap o' = Some f \<Longrightarrow> \<exists>b. apply_comp f x y = Inr b"
  by (rule exI, rule apply_comp_total) (auto simp: opmap_def split: if_splits)

lemma cond_holds_KEY: "field c = ''KEY'' \<Longrightarrow> cond_holds t d c \<longleftrightarrow> key d = cvalue c"
  by (simp add: cond_holds_def)

lemma cond_holds_field:
  "field c \<noteq> ''KEY'' \<Longrightarrow> map_of (fieldMap t) (field c) = Some i \<Longrightarrow> map_of opmap (op c) = Some f \<Longrightarrow>
   i < length (datum d) \<Longrightarrow>
   cond_holds t d c \<longleftrightarrow> apply_comp f (datum d ! i) (parse_value (cvalue c)) = Inr True"
  by (simp add: cond_holds_def)

lemma eval_loop_False: "eval_loop False cs d = Inr False"
  by (induction cs) auto

lemma init_loop_total:
  "\<forall>c \<in> set cs. cond_valid t c \<Longrightarrow> \<exists>cs' k b. init_loop t first cs = Inr (cs', k, b)"
proof (induction cs arbitrary: first)
  case Nil
  show ?case by (auto intro: exI [of _ True])
next
  case (Cons c cs)
  obtain cs1 k1 b1 where i1: "init_loop t first cs = Inr (cs1, k1, b1)"
    using Cons by (meson list.set_intros(2))
  obtain cs2 k2 b2 where i2: "init_loop t (cvalue c) cs = Inr (cs2, k2, b2)"
    using Cons by (meson list.set_intros(2))
  have valid: "cond_valid t c" using Cons.prems by simp
  show ?case
  proof (cases "field c = ''KEY''")
    case True
    then show ?thesis using valid i1 i2 by (auto simp: cond_valid_def)
  next
    case False
    with valid obtain i f where "map_of (fieldMap t) (field c) = Some i" "map_of opmap (op c) = Some f"
      by (auto simp: cond_valid_def known_field_def)
    with False i1 show ?thesis by simp
  qed
qed

lemma init_loop_eval:
  assumes "init_loop t first cs = Inr (cs', k, True)"
    and "fields_ok t" and "length (datum d) = length (tfields t)"
  shows "eval_loop True cs' d = Inr (\<forall>c \<in> set cs. cond_holds t d c)"
  using assms
proof (induction t first cs arbitrary: cs' k rule: init_loop.induct)
  case (1 t first)
  then show ?case by simp
next
  case (2 t first c cs)
  show ?case
  proof (cases "field c = ''KEY''")
    case True
    obtain cs1 where cs1: "cs' = c # cs1"
        "eval_loop True cs1 d = Inr (\<forall>c \<in> set cs. cond_holds t d c)"
      using "2" True by (auto simp: res_simps split: if_splits)
    then show ?thesis
      using True by (cases "key d = cvalue c") (simp_all add: cond_holds_KEY eval_loop_False)
  next
    case False
    obtain i f cs1 where st: "map_of (fieldMap t) (field c) = Some i" "map_of opmap (op c) = Some f"
        "cs' = c\<lparr>fieldId := i, valueParsed := parse_value (cvalue c), comp := f\<rparr> # cs1"
        "eval_loop True cs1 d = Inr (\<forall>c \<in> set cs. cond_holds t d c)"
      using "2" False by (auto simp: res_simps getFieldIndex_Inr_iff bad_operator_def split: option.splits)
    have i: "i < length (datum d)"
      using getFieldIndex_bound [of t "field c" i] st(1) "2.prems" by (simp add: getFieldIndex_Inr_iff)
    obtain b where "apply_comp f (datum d ! i) (parse_value (cvalue c)) = Inr b"
      using opmap_comp [OF st(2)] by blast
    with st i False cond_holds_field [OF False st(1,2) i] show ?thesis
      by (cases b) (simp_all add: obj_get_def eval_loop_False)
  qed
qed

lemma init_loop_contradiction:
  assumes "init_loop t first cs = Inr (cs', k, False)" and "first = [] \<or> key d = first"
  shows "\<not> (\<forall>c \<in> set cs. cond_holds t d c)"
  using assms
proof (induction t first cs arbitrary: cs' k rule: init_loop.induct)
  case (1 t first)
  then show ?case by simp
next
  case (2 t first c cs)
  show ?case
  proof (cases "field c = ''KEY''")
    case True
    with "2" show ?thesis
      by (auto simp: res_simps cond_holds_def split: if_splits)
  next
    case False
    with "2" show ?thesis
      by (auto simp: res_simps bad_operator_def split: option.splits)
  qed
qed

text \<open>Compiling and evaluating, together.\<close>

definition where_holds :: "table \<Rightarrow> query_condition list \<Rightarrow> datum \<Rightarrow> bool" where
  "where_holds t cs d \<longleftrightarrow> list_all (cond_holds t d) cs"

lemma initCondition_eval:
  "initCondition t cs = Inr (cs', k, True) \<Longrightarrow> fields_ok t \<Longrightarrow> length (datum d) = length (tfields t) \<Longrightarrow>
   evalCondition cs' d = Inr (where_holds t cs d)"
  by (simp add: initCondition_def evalCondition_def where_holds_def list_all_iff init_loop_eval)

lemma initCondition_contradiction:
  "initCondition t cs = Inr (cs', k, False) \<Longrightarrow> \<not> where_holds t cs d"
  using init_loop_contradiction [of t "[]" cs cs' k d]
  by (simp add: initCondition_def where_holds_def list_all_iff)

lemma initCondition_total:
  "list_all (cond_valid t) cs \<Longrightarrow> \<exists>cs' k b. initCondition t cs = Inr (cs', k, b)"
  using init_loop_total [of cs t "[]"] by (auto simp: initCondition_def list_all_iff)

end
