(* ===== verification/Query_Data.thy ===== *)
theory Query_Data
  imports Query_Core "HOL-Library.List_Lexorder" "HOL-Library.Char_ord"
begin

section \<open>Data queries\<close>

text \<open>
  The model of the twelve \<open>execute\<close> functions of src/src/query/data: each returns the
  database after the call and the result, so that what a query has already written when an
  exception stops it is kept. A range-based \<open>for\<close> over a table is a recursion over its rows
  (\<open>row_loop\<close> when the body assigns to the row, \<open>key_loop\<close> when it renames the row,
  \<open>fold_rows\<close> when it only reads), with the conditions compiled by \<open>initCondition\<close>. The
  lemmas give every query a specification in terms of \<open>where_holds\<close>.
\<close>

subsection \<open>Catch clauses\<close>

definition unknown_error :: "exn \<Rightarrow> string res" where
  "unknown_error e = fmt_subst (''Unknown error '' @ [CHR 0x27, CHR ''?'', CHR 0x27]) (what e)"

definition unkonwn_error :: "exn \<Rightarrow> string res" where
  "unkonwn_error e = fmt_subst (''Unkonwn error '' @ [CHR 0x27, CHR ''?'', CHR 0x27]) (what e)"

text \<open>The message of each handler, in the order of its \<open>catch\<close> clauses.\<close>

fun catch_add :: "exn \<Rightarrow> string res" where
  "catch_add (TableNameNotFound m) = Inr m"
| "catch_add (TableFieldNotFound m) = Inr m"
| "catch_add (IllFormedQueryCondition m) = Inr m"
| "catch_add e = unkonwn_error e"

fun catch_update :: "exn \<Rightarrow> string res" where
  "catch_update (TableNameNotFound m) = Inr ''No such table.''"
| "catch_update (IllFormedQueryCondition m) = Inr m"
| "catch_update e = (if is_invalid_argument e then unknown_error e else unkonwn_error e)"

fun catch_count :: "exn \<Rightarrow> string res" where
  "catch_count (TableNameNotFound m) = Inr m"
| "catch_count (IllFormedQueryCondition m) = Inr m"
| "catch_count e = unknown_error e"

fun catch_swap :: "exn \<Rightarrow> string res" where
  "catch_swap (TableNameNotFound m) = Inr m"
| "catch_swap (TableFieldNotFound m) = Inr m"
| "catch_swap (IllFormedQueryCondition m) = Inr m"
| "catch_swap e = unknown_error e"

fun catch_select :: "exn \<Rightarrow> string res" where
  "catch_select (TableNameNotFound m) = Inr m"
| "catch_select (TableFieldNotFound m) = Inr m"
| "catch_select (IllFormedQueryCondition m) = Inr m"
| "catch_select e = (if is_invalid_argument e then unknown_error e else unkonwn_error e)"

fun catch_duplicate :: "exn \<Rightarrow> string res" where
  "catch_duplicate (TableNameNotFound m) = Inr ''No such table.''"
| "catch_duplicate (IllFormedQueryCondition m) = Inr m"
| "catch_duplicate e = unkonwn_error e"

text \<open>Undefined behaviour is no exception: no clause catches it.\<close>

fun try_catch ::
  "(exn \<Rightarrow> string res) \<Rightarrow> string \<Rightarrow> string \<Rightarrow> query_result res \<Rightarrow> query_result res" where
  "try_catch h qname tbl (Inr r) = Inr r"
| "try_catch h qname tbl (Inl Undefined_behaviour) = Inl Undefined_behaviour"
| "try_catch h qname tbl (Inl e) = res_bind (h e) (errorMsg3 qname tbl)"

text \<open>The \<open>try\<close> block: look the table up, then run the body on the reference.\<close>

definition try_table ::
  "(exn \<Rightarrow> string res) \<Rightarrow> string \<Rightarrow> string \<Rightarrow> (table \<Rightarrow> table \<times> query_result res) \<Rightarrow>
   database \<Rightarrow> database \<times> query_result res" where
  "try_table h qname tbl body db =
     (case db_index db tbl of
        Inl e \<Rightarrow> (db, try_catch h qname tbl (Inl e))
      | Inr t \<Rightarrow> (let (t', r) = body t in (db_store tbl t' db, try_catch h qname tbl r)))"

definition operands_error :: "string \<Rightarrow> string \<Rightarrow> nat \<Rightarrow> query_result res" where
  "operands_error qname tbl n =
     res_bind (fmt_subst ''Invalid number of operands (? operands).'' (string_of_nat n))
       (errorMsg3 qname tbl)"

definition affected :: "nat \<Rightarrow> query_result" where
  "affected n = RecordCountResult (word_of_nat n)"

subsection \<open>Loops over the rows\<close>

text \<open>The rows before the one that throws keep what was assigned to them.\<close>

fun row_loop ::
  "(datum \<Rightarrow> bool res) \<Rightarrow> (datum \<Rightarrow> datum res) \<Rightarrow> datum list \<Rightarrow> nat \<Rightarrow> datum list \<times> nat res" where
  "row_loop cond f [] counter = ([], Inr counter)"
| "row_loop cond f (d # ds) counter =
     (case cond d of
        Inl e \<Rightarrow> (d # ds, Inl e)
      | Inr b \<Rightarrow>
          if b then
            (case f d of
               Inl e \<Rightarrow> (d # ds, Inl e)
             | Inr d' \<Rightarrow> (let (ds', r) = row_loop cond f ds (Suc counter) in (d' # ds', r)))
          else (let (ds', r) = row_loop cond f ds counter in (d # ds', r)))"

fun key_loop ::
  "(datum \<Rightarrow> bool res) \<Rightarrow> string \<Rightarrow> nat list \<Rightarrow> table \<Rightarrow> nat \<Rightarrow> table \<times> nat res" where
  "key_loop cond k [] t counter = (t, Inr counter)"
| "key_loop cond k (i # is) t counter =
     (case cond (data t ! i) of
        Inl e \<Rightarrow> (t, Inl e)
      | Inr b \<Rightarrow>
          if b then
            (case setKey i k t of
               Inl e \<Rightarrow> (t, Inl e)
             | Inr t' \<Rightarrow> key_loop cond k is t' (Suc counter))
          else key_loop cond k is t counter)"

fun fold_rows ::
  "(datum \<Rightarrow> bool res) \<Rightarrow> (datum \<Rightarrow> 'a \<Rightarrow> 'a res) \<Rightarrow> datum list \<Rightarrow> 'a \<Rightarrow> 'a res" where
  "fold_rows cond f [] a = Inr a"
| "fold_rows cond f (d # ds) a =
     res_bind (cond d) (\<lambda>b.
       if b then res_bind (f d a) (fold_rows cond f ds) else fold_rows cond f ds a)"

text \<open>\<open>initCondition\<close>, and the loop unless the conditions contradict each other.\<close>

definition mutate_rows ::
  "query_condition list \<Rightarrow> (datum \<Rightarrow> datum res) \<Rightarrow> table \<Rightarrow> table \<times> nat res" where
  "mutate_rows cs f t =
     (case initCondition t cs of
        Inl e \<Rightarrow> (t, Inl e)
      | Inr (cs', _, b) \<Rightarrow>
          if b then (let (ds, r) = row_loop (evalCondition cs') f (data t) 0 in (t\<lparr>data := ds\<rparr>, r))
          else (t, Inr 0))"

definition rename_rows :: "query_condition list \<Rightarrow> string \<Rightarrow> table \<Rightarrow> table \<times> nat res" where
  "rename_rows cs k t =
     (case initCondition t cs of
        Inl e \<Rightarrow> (t, Inl e)
      | Inr (cs', _, b) \<Rightarrow>
          if b then key_loop (evalCondition cs') k [0..<length (data t)] t 0 else (t, Inr 0))"

definition scan_rows ::
  "query_condition list \<Rightarrow> (datum \<Rightarrow> 'a \<Rightarrow> 'a res) \<Rightarrow> table \<Rightarrow> 'a \<Rightarrow> 'a res" where
  "scan_rows cs f t a =
     res_bind (initCondition t cs) (\<lambda>(cs', _, b).
       if b then fold_rows (evalCondition cs') f (data t) a else Inr a)"

text \<open>Return the count of a loop, or look up the columns first.\<close>

fun count_result :: "table \<times> nat res \<Rightarrow> table \<times> query_result res" where
  "count_result (t, r) = (t, res_bind r (\<lambda>n. Inr (affected n)))"

definition lift_table :: "'a res \<Rightarrow> ('a \<Rightarrow> table \<times> query_result res) \<Rightarrow> table \<Rightarrow> table \<times> query_result res" where
  "lift_table m f t = (case m of Inl e \<Rightarrow> (t, Inl e) | Inr x \<Rightarrow> f x)"

subsection \<open>ADD and SUB\<close>

fun sum_cols :: "nat list \<Rightarrow> datum \<Rightarrow> i64 \<Rightarrow> i64 res" where
  "sum_cols [] d acc = Inr acc"
| "sum_cols (i # is) d acc = res_bind (obj_get d i) (\<lambda>x. sum_cols is d (acc + i64_of_i32 x))"

definition add_row :: "nat \<Rightarrow> nat list \<Rightarrow> datum \<Rightarrow> datum res" where
  "add_row dst src d = res_bind (sum_cols src d 0) (\<lambda>s. obj_set dst (i32_of_i64 s) d)"

definition sub_row :: "nat \<Rightarrow> nat list \<Rightarrow> datum \<Rightarrow> datum res" where
  "sub_row dst src d =
     res_bind (obj_get d (hd src)) (\<lambda>x.
     res_bind (sum_cols (tl src) d 0) (\<lambda>s. obj_set dst (i32_of_i64 (i64_of_i32 x - s)) d))"

definition arith_body ::
  "(nat \<Rightarrow> nat list \<Rightarrow> datum \<Rightarrow> datum res) \<Rightarrow> string list \<Rightarrow> query_condition list \<Rightarrow> table \<Rightarrow>
   table \<times> query_result res" where
  "arith_body row ops cs t =
     lift_table (res_bind (getFieldIndex t (last ops)) (\<lambda>dst.
                 res_bind (res_map (getFieldIndex t) (butlast ops)) (\<lambda>src. Inr (dst, src))))
       (\<lambda>(dst, src). count_result (mutate_rows cs (row dst src) t)) t"

definition AddQuery_execute ::
  "string \<Rightarrow> string list \<Rightarrow> query_condition list \<Rightarrow> database \<Rightarrow> database \<times> query_result res" where
  "AddQuery_execute tbl ops cs db =
     (if length ops < 2 then (db, operands_error ''ADD'' tbl (length ops))
      else try_table catch_add ''ADD'' tbl (arith_body add_row ops cs) db)"

definition SubQuery_execute ::
  "string \<Rightarrow> string list \<Rightarrow> query_condition list \<Rightarrow> database \<Rightarrow> database \<times> query_result res" where
  "SubQuery_execute tbl ops cs db =
     (if length ops < 2 then (db, operands_error ''SUB'' tbl (length ops))
      else try_table catch_add ''SUB'' tbl (arith_body sub_row ops cs) db)"

subsection \<open>UPDATE and SWAP\<close>

text \<open>\<open>keyValue\<close> is empty unless the first operand is \<open>KEY\<close>; \<open>fieldId\<close> starts at zero.\<close>

definition update_body :: "string list \<Rightarrow> query_condition list \<Rightarrow> table \<Rightarrow> table \<times> query_result res" where
  "update_body ops cs t =
     (if ops ! 0 = ''KEY'' then
        if ops ! 1 = [] then count_result (mutate_rows cs (obj_set 0 0) t)
        else count_result (rename_rows cs (ops ! 1) t)
      else
        lift_table (getFieldIndex t (ops ! 0))
          (\<lambda>i. count_result (mutate_rows cs (obj_set i (parse_value (ops ! 1))) t)) t)"

definition UpdateQuery_execute ::
  "string \<Rightarrow> string list \<Rightarrow> query_condition list \<Rightarrow> database \<Rightarrow> database \<times> query_result res" where
  "UpdateQuery_execute tbl ops cs db =
     (if length ops \<noteq> 2 then (db, operands_error ''UPDATE'' tbl (length ops))
      else try_table catch_update ''UPDATE'' tbl (update_body ops cs) db)"

definition swap_row :: "nat \<Rightarrow> nat \<Rightarrow> datum \<Rightarrow> datum res" where
  "swap_row i j d =
     (if i \<noteq> j then
        res_bind (obj_get d i) (\<lambda>x. res_bind (obj_get d j) (\<lambda>y.
        res_bind (obj_set i y d) (obj_set j x)))
      else Inr d)"

definition swap_body :: "string list \<Rightarrow> string \<Rightarrow> query_condition list \<Rightarrow> table \<Rightarrow> table \<times> query_result res" where
  "swap_body ops tbl cs t =
     (if length ops \<noteq> 2 then (t, operands_error ''SWAP'' tbl (length ops))
      else
        lift_table (res_bind (getFieldIndex t (ops ! 0)) (\<lambda>i.
                    res_bind (getFieldIndex t (ops ! 1)) (\<lambda>j. Inr (i, j))))
          (\<lambda>(i, j). count_result (mutate_rows cs (swap_row i j) t)) t)"

definition SwapQuery_execute ::
  "string \<Rightarrow> string list \<Rightarrow> query_condition list \<Rightarrow> database \<Rightarrow> database \<times> query_result res" where
  "SwapQuery_execute tbl ops cs db = try_table catch_swap ''SWAP'' tbl (swap_body ops tbl cs) db"

subsection \<open>INSERT, DELETE and DUPLICATE\<close>

definition insert_body :: "string list \<Rightarrow> table \<Rightarrow> table \<times> query_result res" where
  "insert_body ops t =
     (case insertByIndex (hd ops) (map parse_value (tl ops)) t of
        Inl e \<Rightarrow> (t, Inl e)
      | Inr t' \<Rightarrow> (t', Inr NullQueryResult))"

definition InsertQuery_execute ::
  "string \<Rightarrow> string list \<Rightarrow> query_condition list \<Rightarrow> database \<Rightarrow> database \<times> query_result res" where
  "InsertQuery_execute tbl ops cs db =
     (if ops = [] then
        (db, res_bind (fmt_subst ''No operand (? operands).'' (string_of_nat (length ops)))
               (errorMsg3 ''INSERT'' tbl))
      else try_table catch_update ''INSERT'' tbl (insert_body ops) db)"

definition delete_body :: "query_condition list \<Rightarrow> table \<Rightarrow> table \<times> query_result res" where
  "delete_body cs t =
     lift_table (scan_rows cs (\<lambda>d ks. Inr (ks @ [key d])) t [])
       (\<lambda>ks. count_result (delete_loop deleteByIndex ks t 0)) t"

definition DeleteQuery_execute ::
  "string \<Rightarrow> string list \<Rightarrow> query_condition list \<Rightarrow> database \<Rightarrow> database \<times> query_result res" where
  "DeleteQuery_execute tbl ops cs db = try_table catch_count ''DELETE'' tbl (delete_body cs) db"

fun dup_loop :: "(string \<times> string) list \<Rightarrow> table \<Rightarrow> nat \<Rightarrow> table \<times> nat res" where
  "dup_loop [] t counter = (t, Inr counter)"
| "dup_loop ((src, dst) # ps) t counter =
     (case duplicateByKey src dst t of
        Inl e \<Rightarrow> (t, Inl e)
      | Inr (t', b) \<Rightarrow> dup_loop ps t' (if b then Suc counter else counter))"

definition collect_copies :: "table \<Rightarrow> datum \<Rightarrow> (string \<times> string) list \<Rightarrow> (string \<times> string) list res" where
  "collect_copies t d ps =
     (case table_find t (key d @ ''_copy'') of
        None \<Rightarrow> Inr (ps @ [(key d, key d @ ''_copy'')])
      | Some _ \<Rightarrow> Inr ps)"

definition duplicate_body :: "query_condition list \<Rightarrow> table \<Rightarrow> table \<times> query_result res" where
  "duplicate_body cs t =
     lift_table (scan_rows cs (collect_copies t) t [])
       (\<lambda>ps. count_result (dup_loop ps t 0)) t"

definition DuplicateQuery_execute ::
  "string \<Rightarrow> string list \<Rightarrow> query_condition list \<Rightarrow> database \<Rightarrow> database \<times> query_result res" where
  "DuplicateQuery_execute tbl ops cs db =
     (if ops \<noteq> [] then (db, operands_error ''DUPLICATE'' tbl (length ops))
      else try_table catch_duplicate ''DUPLICATE'' tbl (duplicate_body cs) db)"

subsection \<open>COUNT, SUM, MIN and MAX\<close>

text \<open>The table is only read.\<close>

definition read_body :: "(table \<Rightarrow> query_result res) \<Rightarrow> table \<Rightarrow> table \<times> query_result res" where
  "read_body f t = (t, f t)"

text \<open>\<open>SuccessMsgResult(counter)\<close> narrows the 64-bit count to \<open>int\<close>.\<close>

definition count_body :: "query_condition list \<Rightarrow> table \<Rightarrow> query_result res" where
  "count_body cs t =
     res_bind (scan_rows cs (\<lambda>d n. Inr (n + 1)) t (0 :: i64)) (\<lambda>n. Inr (successInt (i32_of_i64 n)))"

definition CountQuery_execute ::
  "string \<Rightarrow> string list \<Rightarrow> query_condition list \<Rightarrow> database \<Rightarrow> database \<times> query_result res" where
  "CountQuery_execute tbl ops cs db =
     try_table catch_count ''COUNT'' tbl (read_body (count_body cs)) db"

text \<open>\<open>ranges::transform\<close> of the columns and the accumulators, in place.\<close>

fun zip_row :: "(i32 \<Rightarrow> 'a \<Rightarrow> 'a) \<Rightarrow> nat list \<Rightarrow> datum \<Rightarrow> 'a list \<Rightarrow> 'a list res" where
  "zip_row f (i # is) d (a # as) =
     res_bind (obj_get d i) (\<lambda>x. res_bind (zip_row f is d as) (\<lambda>as'. Inr (f x a # as')))"
| "zip_row f _ d as = Inr as"

definition sum_body :: "string list \<Rightarrow> string \<Rightarrow> query_condition list \<Rightarrow> table \<Rightarrow> query_result res" where
  "sum_body ops tbl cs t =
     (if ops = [] then
        res_bind (fmt_subst ''No operands (? operands).'' (string_of_nat (length ops))) (errorMsg3 ''SUM'' tbl)
      else if ''KEY'' \<in> set ops then errorMsg3 ''SUM'' tbl ''The KEY field cannot be summed over.''
      else
        res_bind (res_map (getFieldIndex t) ops) (\<lambda>is.
        res_bind (scan_rows cs (zip_row (\<lambda>x acc. acc + i64_of_i32 x) is) t (replicate (length is) 0)) (\<lambda>sums.
          Inr (successVector (map i32_of_i64 sums)))))"

definition SumQuery_execute ::
  "string \<Rightarrow> string list \<Rightarrow> query_condition list \<Rightarrow> database \<Rightarrow> database \<times> query_result res" where
  "SumQuery_execute tbl ops cs db = try_table catch_swap ''SUM'' tbl (read_body (sum_body ops tbl cs)) db"

definition smin :: "i32 \<Rightarrow> i32 \<Rightarrow> i32" where
  "smin val curMin = (if sint val < sint curMin then val else curMin)"

definition smax :: "i32 \<Rightarrow> i32 \<Rightarrow> i32" where
  "smax val curMax = (if sint curMax < sint val then val else curMax)"

definition extremum_row ::
  "(i32 \<Rightarrow> i32 \<Rightarrow> i32) \<Rightarrow> nat list \<Rightarrow> datum \<Rightarrow> i32 list \<times> nat \<Rightarrow> (i32 list \<times> nat) res" where
  "extremum_row f is d = (\<lambda>(ms, matched). res_bind (zip_row f is d ms) (\<lambda>ms'. Inr (ms', Suc matched)))"

definition extremum_body ::
  "(i32 \<Rightarrow> i32 \<Rightarrow> i32) \<Rightarrow> i32 \<Rightarrow> string list \<Rightarrow> query_condition list \<Rightarrow> table \<Rightarrow> query_result res" where
  "extremum_body f start ops cs t =
     res_bind (res_map (getFieldIndex t) ops) (\<lambda>is.
     res_bind (scan_rows cs (extremum_row f is) t (replicate (length is) start, 0)) (\<lambda>(ms, matched).
       Inr (if matched = 0 then NullQueryResult else successVector ms)))"

definition MinQuery_execute ::
  "string \<Rightarrow> string list \<Rightarrow> query_condition list \<Rightarrow> database \<Rightarrow> database \<times> query_result res" where
  "MinQuery_execute tbl ops cs db =
     (if ops = [] then (db, operands_error ''MIN'' tbl (length ops))
      else try_table catch_add ''MIN'' tbl (read_body (extremum_body smin ValueTypeMax ops cs)) db)"

definition MaxQuery_execute ::
  "string \<Rightarrow> string list \<Rightarrow> query_condition list \<Rightarrow> database \<Rightarrow> database \<times> query_result res" where
  "MaxQuery_execute tbl ops cs db =
     (if ops = [] then (db, operands_error ''MAX'' tbl (length ops))
      else try_table catch_add ''MAX'' tbl (read_body (extremum_body smax ValueTypeMin ops cs)) db)"

subsection \<open>SELECT\<close>

definition select_line :: "nat list \<Rightarrow> datum \<Rightarrow> string res" where
  "select_line is d =
     res_bind (res_map (obj_get d) is) (\<lambda>vs.
       Inr (''( '' @ key d @ concat (map (\<lambda>v. '' '' @ string_of_int (sint v)) vs) @ '' )'' @ [CHR 0x0A]))"

text \<open>
  \<open>ranges::sort\<close> on strings: equal lines are indistinguishable, so the sorted vector is
  determined. Characters compare as unsigned bytes.
\<close>

definition select_body :: "string list \<Rightarrow> query_condition list \<Rightarrow> table \<Rightarrow> query_result res" where
  "select_body ops cs t =
     res_bind (initCondition t cs) (\<lambda>(cs', _, b).
       if b then
         res_bind (res_map (getFieldIndex t) (tl ops)) (\<lambda>is.
         res_bind (fold_rows (evalCondition cs')
                     (\<lambda>d ls. res_bind (select_line is d) (\<lambda>l. Inr (ls @ [l]))) (data t) []) (\<lambda>v_msg.
           (let tmp = concat (sort v_msg)
            in Inr (if tmp \<noteq> [] then SuccessMsgResult (butlast tmp) else NullQueryResult))))
       else Inr (SuccessMsgResult []))"

definition SelectQuery_execute ::
  "string \<Rightarrow> string list \<Rightarrow> query_condition list \<Rightarrow> database \<Rightarrow> database \<times> query_result res" where
  "SelectQuery_execute tbl ops cs db =
     (if ops = [] then (db, operands_error ''SELECT'' tbl (length ops))
      else if ops ! 0 \<noteq> ''KEY'' then
        (db, errorMsg3 ''SELECT'' tbl ''Invalid format, the first must be KEY.'')
      else try_table catch_select ''SELECT'' tbl (read_body (select_body ops cs)) db)"

subsection \<open>Dispatch\<close>

fun execute_complex ::
  "complex_op \<Rightarrow> string \<Rightarrow> string list \<Rightarrow> query_condition list \<Rightarrow> database \<Rightarrow>
   database \<times> query_result res" where
  "execute_complex Op_Insert = InsertQuery_execute"
| "execute_complex Op_Update = UpdateQuery_execute"
| "execute_complex Op_Select = SelectQuery_execute"
| "execute_complex Op_Delete = DeleteQuery_execute"
| "execute_complex Op_Duplicate = DuplicateQuery_execute"
| "execute_complex Op_Count = CountQuery_execute"
| "execute_complex Op_Sum = SumQuery_execute"
| "execute_complex Op_Min = MinQuery_execute"
| "execute_complex Op_Max = MaxQuery_execute"
| "execute_complex Op_Add = AddQuery_execute"
| "execute_complex Op_Sub = SubQuery_execute"
| "execute_complex Op_Swap = SwapQuery_execute"

subsection \<open>What the loops compute\<close>

text \<open>
  The rows a query touches, and the table it leaves when it rewrites each of them by \<open>g\<close>.
  The lemmas assume a table in order and conditions on known columns (\<open>query_ok\<close>); then the
  early exit of contradicting conditions agrees with the loop, as no row matches.
\<close>

definition matching :: "table \<Rightarrow> query_condition list \<Rightarrow> datum list" where
  "matching t cs = filter (where_holds t cs) (data t)"

definition update_matching :: "query_condition list \<Rightarrow> (datum \<Rightarrow> datum) \<Rightarrow> table \<Rightarrow> table" where
  "update_matching cs g t = t\<lparr>data := map (\<lambda>d. if where_holds t cs d then g d else d) (data t)\<rparr>"

definition query_ok :: "table \<Rightarrow> query_condition list \<Rightarrow> bool" where
  "query_ok t cs \<longleftrightarrow> table_inv t \<and> list_all (cond_valid t) cs"

lemma query_ok_inv: "query_ok t cs \<Longrightarrow> table_inv t \<and> keys_ok t \<and> fields_ok t \<and> rows_ok t"
  by (simp add: query_ok_def table_inv_def)

lemma query_ok_row: "query_ok t cs \<Longrightarrow> d \<in> set (data t) \<Longrightarrow> length (datum d) = length (tfields t)"
  by (simp add: query_ok_def table_inv_def rows_ok_def)

lemma query_ok_init:
  assumes "query_ok t cs"
  obtains cs' k b where "initCondition t cs = Inr (cs', k, b)"
    and "b \<Longrightarrow> \<forall>d \<in> set (data t). evalCondition cs' d = Inr (where_holds t cs d)"
    and "\<not> b \<Longrightarrow> \<forall>d. \<not> where_holds t cs d"
proof -
  obtain cs' k b where i: "initCondition t cs = Inr (cs', k, b)"
    using assms initCondition_total [of t cs] by (meson query_ok_def)
  moreover have "\<forall>d \<in> set (data t). evalCondition cs' d = Inr (where_holds t cs d)" if b
    using i that initCondition_eval [of t cs cs' k] query_ok_inv [OF assms] query_ok_row [OF assms] by simp
  moreover have "\<forall>d. \<not> where_holds t cs d" if "\<not> b"
    using i that initCondition_contradiction [of t cs cs' k] by simp
  ultimately show thesis using that by blast
qed

lemma row_loop_spec:
  assumes "\<forall>d \<in> set ds. cond d = Inr (P d)" and "\<forall>d \<in> set ds. P d \<longrightarrow> f d = Inr (g d)"
  shows "row_loop cond f ds n = (map (\<lambda>d. if P d then g d else d) ds, Inr (n + length (filter P ds)))"
  using assms by (induction ds arbitrary: n) (auto simp: Let_def)

lemma fold_rows_spec:
  assumes "\<forall>d \<in> set ds. cond d = Inr (P d)"
    and "\<And>d a. d \<in> set ds \<Longrightarrow> P d \<Longrightarrow> J a \<Longrightarrow> f d a = Inr (g d a) \<and> J (g d a)" and "J a"
  shows "fold_rows cond f ds a = Inr (fold g (filter P ds) a) \<and> J (fold g (filter P ds) a)"
  using assms by (induction ds arbitrary: a) auto

lemma mutate_rows_spec:
  assumes ok: "query_ok t cs" and f: "\<And>d. d \<in> set (data t) \<Longrightarrow> f d = Inr (g d)"
  shows "mutate_rows cs f t = (update_matching cs g t, Inr (length (matching t cs)))"
proof -
  obtain cs' k b where i: "initCondition t cs = Inr (cs', k, b)"
    and T: "b \<Longrightarrow> \<forall>d \<in> set (data t). evalCondition cs' d = Inr (where_holds t cs d)"
    and F: "\<not> b \<Longrightarrow> \<forall>d. \<not> where_holds t cs d"
    using query_ok_init [OF ok] by metis
  show ?thesis
  proof (cases b)
    case True
    with i f row_loop_spec [OF T [OF True], of f g 0] show ?thesis
      by (simp add: mutate_rows_def update_matching_def matching_def)
  next
    case False
    with i F show ?thesis
      by (simp add: mutate_rows_def update_matching_def matching_def)
  qed
qed

lemma scan_rows_spec:
  assumes ok: "query_ok t cs"
    and f: "\<And>d a. d \<in> set (data t) \<Longrightarrow> J a \<Longrightarrow> f d a = Inr (g d a) \<and> J (g d a)" and a: "J a"
  shows "scan_rows cs f t a = Inr (fold g (matching t cs) a) \<and> J (fold g (matching t cs) a)"
proof -
  obtain cs' k b where i: "initCondition t cs = Inr (cs', k, b)"
    and T: "b \<Longrightarrow> \<forall>d \<in> set (data t). evalCondition cs' d = Inr (where_holds t cs d)"
    and F: "\<not> b \<Longrightarrow> \<forall>d. \<not> where_holds t cs d"
    using query_ok_init [OF ok] by metis
  show ?thesis
  proof (cases b)
    case True
    have "fold_rows (evalCondition cs') f (data t) a = Inr (fold g (filter (where_holds t cs) (data t)) a) \<and>
        J (fold g (filter (where_holds t cs) (data t)) a)"
      by (rule fold_rows_spec) (use T [OF True] f a in auto)
    with i True show ?thesis by (simp add: scan_rows_def matching_def)
  next
    case False
    with i F a show ?thesis by (simp add: scan_rows_def matching_def)
  qed
qed

text \<open>A rewrite that keeps the key and the number of values keeps the table in order.\<close>

lemma update_matching_inv:
  assumes inv: "table_inv t" and g: "\<And>d. key (g d) = key d \<and> length (datum (g d)) = length (datum d)"
  shows "table_inv (update_matching cs g t)"
proof -
  let ?h = "\<lambda>d. if where_holds t cs d then g d else d"
  have k: "key (map ?h (data t) ! i) = key (data t ! i)" if "i < length (data t)" for i
    using that g by simp
  have "keys_ok (t\<lparr>data := map ?h (data t)\<rparr>)"
    using inv k by (auto simp: table_inv_def keys_ok_def simp del: nth_map)
  then show ?thesis
    using inv g by (auto simp: table_inv_def update_matching_def fields_ok_def rows_ok_def)
qed

text \<open>The column of a field, and the value a row has there.\<close>

definition col :: "table \<Rightarrow> string \<Rightarrow> nat" where
  "col t f = (case map_of (fieldMap t) f of None \<Rightarrow> 0 | Some i \<Rightarrow> i)"

definition cell :: "table \<Rightarrow> string \<Rightarrow> datum \<Rightarrow> i32" where
  "cell t f d = datum d ! col t f"

definition set_cell :: "table \<Rightarrow> string \<Rightarrow> i32 \<Rightarrow> datum \<Rightarrow> datum" where
  "set_cell t f v d = d\<lparr>datum := (datum d)[col t f := v]\<rparr>"

lemma known_field_col: "known_field t f \<Longrightarrow> getFieldIndex t f = Inr (col t f)"
  by (auto simp: known_field_def col_def)

lemma col_bound:
  assumes "query_ok t cs" and "d \<in> set (data t)" and "known_field t f"
  shows "col t f < length (datum d)"
  using assms getFieldIndex_bound [of t f "col t f"] query_ok_row [of t cs d] query_ok_inv [of t cs]
  by (simp add: known_field_col)

lemma known_fields_cols: "list_all (known_field t) fs \<Longrightarrow> res_map (getFieldIndex t) fs = Inr (map (col t) fs)"
  by (rule res_map_total) (simp add: list_all_iff known_field_col)

lemma obj_get_cell:
  "query_ok t cs \<Longrightarrow> d \<in> set (data t) \<Longrightarrow> known_field t f \<Longrightarrow> obj_get d (col t f) = Inr (cell t f d)"
  by (simp add: obj_get_def cell_def col_bound)

lemma obj_set_cell:
  "query_ok t cs \<Longrightarrow> d \<in> set (data t) \<Longrightarrow> known_field t f \<Longrightarrow>
   obj_set (col t f) v d = Inr (set_cell t f v d)"
  by (simp add: obj_set_def set_cell_def col_bound)

lemma set_cell_frame [simp]:
  "key (set_cell t f v d) = key d" "length (datum (set_cell t f v d)) = length (datum d)"
  by (simp_all add: set_cell_def)

lemma try_table_found:
  "db_index db tbl = Inr t \<Longrightarrow> body t = (t', Inr r) \<Longrightarrow>
   try_table h qname tbl body db = (db_store tbl t' db, Inr r)"
  by (simp add: try_table_def)

lemma um_put_same: "map_of m k = Some v \<Longrightarrow> um_put k v m = m"
  unfolding um_put_def by (induction m) auto

lemma db_store_same: "db_index db tbl = Inr t \<Longrightarrow> db_store tbl t db = db"
proof -
  assume "db_index db tbl = Inr t"
  then have "map_of (tables db) tbl = Some t" by (auto simp: db_index_def split: option.splits)
  then show ?thesis by (simp add: db_store_def um_put_same)
qed

subsection \<open>Arithmetic on rows\<close>

lemma sum_cols_cells:
  assumes "query_ok t cs" "d \<in> set (data t)"
  shows "list_all (known_field t) fs \<Longrightarrow>
   sum_cols (map (col t) fs) d acc = Inr (acc + sum_list (map i64_of_i32 (map (\<lambda>f. cell t f d) fs)))"
  by (induction fs arbitrary: acc) (simp_all add: obj_get_cell [OF assms] add.assoc)

text \<open>The accumulation is 64 bits wide and narrowed at the end, which is the 32-bit sum.\<close>

definition add_spec :: "table \<Rightarrow> string \<Rightarrow> string list \<Rightarrow> datum \<Rightarrow> datum" where
  "add_spec t dst srcs d = set_cell t dst (sum_list (map (\<lambda>f. cell t f d) srcs)) d"

definition sub_spec :: "table \<Rightarrow> string \<Rightarrow> string list \<Rightarrow> datum \<Rightarrow> datum" where
  "sub_spec t dst srcs d =
     set_cell t dst (cell t (hd srcs) d - sum_list (map (\<lambda>f. cell t f d) (tl srcs))) d"

lemma add_row_spec:
  assumes "query_ok t cs" "d \<in> set (data t)" and "list_all (known_field t) (dst # srcs)"
  shows "add_row (col t dst) (map (col t) srcs) d = Inr (add_spec t dst srcs d)"
  using assms(3)
  by (simp add: add_row_def add_spec_def sum_cols_cells [OF assms(1,2)] obj_set_cell [OF assms(1,2)]
      i32_of_i64_sum_list del: map_map)

lemma sub_row_spec:
  assumes "query_ok t cs" "d \<in> set (data t)" and "list_all (known_field t) (dst # srcs)" and "srcs \<noteq> []"
  shows "sub_row (col t dst) (map (col t) srcs) d = Inr (sub_spec t dst srcs d)"
  using assms(3,4)
  by (cases srcs) (simp_all add: sub_row_def sub_spec_def sum_cols_cells [OF assms(1,2)]
      obj_set_cell [OF assms(1,2)] obj_get_cell [OF assms(1,2)] i32_of_i64_sum_list del: map_map)

lemma arith_body_spec:
  assumes ok: "query_ok t cs" and fs: "list_all (known_field t) (dst # srcs)"
    and row: "\<And>d. d \<in> set (data t) \<Longrightarrow> row (col t dst) (map (col t) srcs) d = Inr (g d)"
  shows "arith_body row (srcs @ [dst]) cs t =
     (update_matching cs g t, Inr (affected (length (matching t cs))))"
  using fs mutate_rows_spec [OF ok row]
  by (simp add: arith_body_def known_field_col known_fields_cols lift_table_def)

text \<open>
  C9: \<open>ADD\<close> on a consistent table with known columns sets the destination of every matching
  row to the sum of the sources modulo 2^32, touches no other row, and reports how many it
  touched; the table stays in order.
\<close>

theorem add_correct:
  assumes "db_index db tbl = Inr t" and "query_ok t cs"
    and "list_all (known_field t) (dst # srcs)" and "srcs \<noteq> []"
  shows "AddQuery_execute tbl (srcs @ [dst]) cs db =
      (db_store tbl (update_matching cs (add_spec t dst srcs) t) db, Inr (affected (length (matching t cs)))) \<and>
    table_inv (update_matching cs (add_spec t dst srcs) t)"
proof
  have "arith_body add_row (srcs @ [dst]) cs t =
      (update_matching cs (add_spec t dst srcs) t, Inr (affected (length (matching t cs))))"
    using assms(2,3) by (intro arith_body_spec add_row_spec)
  then show "AddQuery_execute tbl (srcs @ [dst]) cs db =
      (db_store tbl (update_matching cs (add_spec t dst srcs) t) db, Inr (affected (length (matching t cs))))"
    using assms(1,4) by (cases srcs) (simp_all add: AddQuery_execute_def try_table_found)
  show "table_inv (update_matching cs (add_spec t dst srcs) t)"
    using assms(2) by (intro update_matching_inv) (simp_all add: query_ok_def add_spec_def)
qed

text \<open>
  \<open>SUB\<close> sets the destination of every matching row to the first source minus the sum of
  the others modulo 2^32, touches no other row, and reports how many it touched.
\<close>

theorem sub_correct:
  assumes "db_index db tbl = Inr t" and "query_ok t cs"
    and "list_all (known_field t) (dst # srcs)" and "srcs \<noteq> []"
  shows "SubQuery_execute tbl (srcs @ [dst]) cs db =
      (db_store tbl (update_matching cs (sub_spec t dst srcs) t) db, Inr (affected (length (matching t cs)))) \<and>
    table_inv (update_matching cs (sub_spec t dst srcs) t)"
proof
  have "arith_body sub_row (srcs @ [dst]) cs t =
      (update_matching cs (sub_spec t dst srcs) t, Inr (affected (length (matching t cs))))"
    using assms(2-4) by (intro arith_body_spec sub_row_spec)
  then show "SubQuery_execute tbl (srcs @ [dst]) cs db =
      (db_store tbl (update_matching cs (sub_spec t dst srcs) t) db, Inr (affected (length (matching t cs))))"
    using assms(1,4) by (cases srcs) (simp_all add: SubQuery_execute_def try_table_found)
  show "table_inv (update_matching cs (sub_spec t dst srcs) t)"
    using assms(2) by (intro update_matching_inv) (simp_all add: query_ok_def sub_spec_def)
qed

subsection \<open>UPDATE and SWAP\<close>

text \<open>
  \<open>UPDATE\<close> of a value column writes the parsed operand into that column of every matching
  row and nothing else, and reports how many rows it wrote.
\<close>

theorem update_value_correct:
  assumes "db_index db tbl = Inr t" and "query_ok t cs" and "known_field t f" and "f \<noteq> ''KEY''"
  shows "UpdateQuery_execute tbl [f, v] cs db =
      (db_store tbl (update_matching cs (set_cell t f (parse_value v)) t) db,
       Inr (affected (length (matching t cs)))) \<and>
    table_inv (update_matching cs (set_cell t f (parse_value v)) t)"
proof
  have "mutate_rows cs (obj_set (col t f) (parse_value v)) t =
      (update_matching cs (set_cell t f (parse_value v)) t, Inr (length (matching t cs)))"
    using assms(2,3) by (intro mutate_rows_spec obj_set_cell)
  then have "update_body [f, v] cs t =
      (update_matching cs (set_cell t f (parse_value v)) t, Inr (affected (length (matching t cs))))"
    using assms(3,4) by (simp add: update_body_def lift_table_def known_field_col)
  then show "UpdateQuery_execute tbl [f, v] cs db =
      (db_store tbl (update_matching cs (set_cell t f (parse_value v)) t) db,
       Inr (affected (length (matching t cs))))"
    using assms(1) by (simp add: UpdateQuery_execute_def try_table_found)
  show "table_inv (update_matching cs (set_cell t f (parse_value v)) t)"
    using assms(2) by (intro update_matching_inv) (simp_all add: query_ok_def)
qed

definition swap_spec :: "table \<Rightarrow> string \<Rightarrow> string \<Rightarrow> datum \<Rightarrow> datum" where
  "swap_spec t f g d = set_cell t g (cell t f d) (set_cell t f (cell t g d) d)"

lemma swap_row_spec:
  assumes "query_ok t cs" "d \<in> set (data t)" "known_field t f" "known_field t g"
  shows "swap_row (col t f) (col t g) d = Inr (swap_spec t f g d)"
proof (cases "col t f = col t g")
  case True
  then show ?thesis
    by (simp add: swap_row_def swap_spec_def set_cell_def cell_def list_update_id)
next
  case False
  with assms show ?thesis
    by (simp add: swap_row_def swap_spec_def obj_get_cell obj_set_cell)
      (simp add: obj_set_def set_cell_def col_bound)
qed

text \<open>
  \<open>SWAP\<close> exchanges the two columns in every matching row and nothing else; with the same
  column twice it only counts.
\<close>

theorem swap_correct:
  assumes "db_index db tbl = Inr t" and "query_ok t cs" and "known_field t f" and "known_field t g"
  shows "SwapQuery_execute tbl [f, g] cs db =
      (db_store tbl (update_matching cs (swap_spec t f g) t) db, Inr (affected (length (matching t cs)))) \<and>
    table_inv (update_matching cs (swap_spec t f g) t)"
proof
  have "mutate_rows cs (swap_row (col t f) (col t g)) t =
      (update_matching cs (swap_spec t f g) t, Inr (length (matching t cs)))"
    using assms(2-4) by (intro mutate_rows_spec swap_row_spec)
  then have "swap_body [f, g] tbl cs t =
      (update_matching cs (swap_spec t f g) t, Inr (affected (length (matching t cs))))"
    using assms(3,4) by (simp add: swap_body_def lift_table_def known_field_col)
  then show "SwapQuery_execute tbl [f, g] cs db =
      (db_store tbl (update_matching cs (swap_spec t f g) t) db, Inr (affected (length (matching t cs))))"
    using assms(1) by (simp add: SwapQuery_execute_def try_table_found)
  show "table_inv (update_matching cs (swap_spec t f g) t)"
    using assms(2) by (intro update_matching_inv) (simp_all add: query_ok_def swap_spec_def)
qed

lemma swap_spec_involution:
  assumes "query_ok t cs" "d \<in> set (data t)" "known_field t f" "known_field t g"
  shows "swap_spec t f g (swap_spec t f g d) = d"
proof -
  have b: "col t f < length (datum d)" "col t g < length (datum d)"
    using assms col_bound by blast+
  show ?thesis
  proof (cases "col t f = col t g")
    case True
    then show ?thesis by (simp add: swap_spec_def set_cell_def cell_def)
  next
    case False
    then have "(datum d)[col t f := datum d ! col t g, col t g := datum d ! col t f,
        col t f := datum d ! col t f, col t g := datum d ! col t g] = datum d"
      using b by (intro nth_equalityI) (auto simp: nth_list_update)
    with False b show ?thesis by (simp add: swap_spec_def set_cell_def cell_def)
  qed
qed

subsection \<open>UPDATE of the key\<close>

text \<open>
  When exactly one row matches and the new key is free, \<open>UPDATE KEY\<close> renames that row. With
  a key that is in use the index loses a row (see the theorems after this one).
\<close>

lemma key_loop_none:
  "\<forall>i \<in> set is. cond (data t ! i) = Inr False \<Longrightarrow> key_loop cond k is t n = (t, Inr n)"
  by (induction "is") auto

lemma key_loop_append:
  "key_loop cond k is t n = (t', Inr m) \<Longrightarrow>
   key_loop cond k (is @ js) t n = key_loop cond k js t' m"
  by (induction "is" arbitrary: t n) (auto split: sum.splits if_splits)


lemma rename_rows_one:
  assumes ok: "query_ok t cs" and i: "i < length (data t)" and k: "row_of t k = None"
    and one: "\<And>j. j < length (data t) \<Longrightarrow> where_holds t cs (data t ! j) \<longleftrightarrow> j = i"
  shows "\<exists>t'. rename_rows cs k t = (t', Inr 1) \<and> setKey i k t = Inr t' \<and> table_inv t' \<and>
     data t' = (data t)[i := (data t ! i)\<lparr>key := k\<rparr>]"
proof -
  have inv: "keys_ok t" "fields_ok t" "rows_ok t" using query_ok_inv [OF ok] by simp_all
  obtain t' where t': "setKey i k t = Inr t'" "keys_ok t'" "data t' = (data t)[i := (data t ! i)\<lparr>key := k\<rparr>]"
      "tfields t' = tfields t" "fieldMap t' = fieldMap t"
    using setKey_fresh [OF inv(1) i k] by blast
  have "rows_ok t'"
    using inv(3) t'(3,4) i set_update_subset_insert [of "data t" i]
    by (fastforce simp: rows_ok_def)
  with inv t' have inv': "table_inv t'" by (simp add: table_inv_def fields_ok_def)
  obtain cs' k' b where init: "initCondition t cs = Inr (cs', k', b)"
    and T: "b \<Longrightarrow> \<forall>d \<in> set (data t). evalCondition cs' d = Inr (where_holds t cs d)"
    and F: "\<not> b \<Longrightarrow> \<forall>d. \<not> where_holds t cs d"
    using query_ok_init [OF ok] by metis
  have b: b using F one i by blast
  have ev: "evalCondition cs' (data t ! j) = Inr (j = i)" if "j < length (data t)" for j
    using T [OF b] one that by simp
  let ?L = "key_loop (evalCondition cs') k"
  have "[0..<length (data t)] = [0..<i] @ [i..<length (data t)]"
    using i upt_add_eq_append [of 0 i "length (data t) - i"] by simp
  then have split: "[0..<length (data t)] = [0..<i] @ i # [Suc i..<length (data t)]"
    using i by (simp add: upt_conv_Cons)
  have pre: "?L [0..<i] t 0 = (t, Inr 0)"
    using i ev by (intro key_loop_none) simp
  have post: "?L [Suc i..<length (data t)] t' 1 = (t', Inr 1)"
    using ev t'(3) by (intro key_loop_none) simp
  have "?L [0..<length (data t)] t 0 = (t', Inr 1)"
    unfolding split using key_loop_append [OF pre] post ev [OF i] t'(1) by simp
  with init b have "rename_rows cs k t = (t', Inr 1)" by (simp add: rename_rows_def)
  with t' inv' show ?thesis by blast
qed

text \<open>
  when the conditions select exactly one row and the new key is free, \<open>UPDATE KEY\<close>
  renames that row, keeps every other row and the position of all, and leaves the index
  consistent.
\<close>

theorem update_key_correct:
  assumes "db_index db tbl = Inr t" and "query_ok t cs" and "i < length (data t)"
    and "row_of t k = None" and "k \<noteq> []"
    and "\<And>j. j < length (data t) \<Longrightarrow> where_holds t cs (data t ! j) \<longleftrightarrow> j = i"
  shows "\<exists>t'. UpdateQuery_execute tbl [''KEY'', k] cs db = (db_store tbl t' db, Inr (affected 1)) \<and>
     table_inv t' \<and> data t' = (data t)[i := (data t ! i)\<lparr>key := k\<rparr>]"
proof -
  obtain t' where t': "rename_rows cs k t = (t', Inr 1)" "table_inv t'"
      "data t' = (data t)[i := (data t ! i)\<lparr>key := k\<rparr>]"
    using rename_rows_one [OF assms(2,3,4,6)] by blast
  then have "update_body [''KEY'', k] cs t = (t', Inr (affected 1))"
    using assms(5) by (simp add: update_body_def)
  with t' assms(1) show ?thesis
    by (intro exI [of _ t']) (simp add: UpdateQuery_execute_def try_table_found)
qed

text \<open>
  The example tables of the witnesses: two fields, two rows, with or without a second row
  to come into conflict with.
\<close>

definition demo_table :: table where
  "demo_table =
     \<lparr>tableName = ''t'', tfields = [''a'', ''b''], fieldMap = [(''a'', 0), (''b'', 1)],
      data = [\<lparr>key = ''x'', datum = [3, 5]\<rparr>, \<lparr>key = ''y'', datum = [10, 2]\<rparr>],
      keyMap = [(''x'', 0), (''y'', 1)]\<rparr>"

definition demo_db :: database where
  "demo_db = \<lparr>tables = [(''t'', demo_table)], fileTableNameMap = []\<rparr>"

definition mk_cond :: "string \<Rightarrow> string \<Rightarrow> string \<Rightarrow> query_condition" where
  "mk_cond f o' v = \<lparr>field = f, fieldId = 0, op = o', comp = No_comp, cvalue = v, valueParsed = 0\<rparr>"

definition demo_cs :: "query_condition list" where
  "demo_cs = [mk_cond ''a'' ''>'' ''4'']"

lemma demo_ok [simp]: "query_ok demo_table demo_cs" "query_ok demo_table []"
  by (simp_all add: query_ok_def table_inv_def keys_ok_def fields_ok_def rows_ok_def demo_table_def demo_cs_def
      mk_cond_def cond_valid_def known_field_def opmap_def less_Suc_eq numeral_2_eq_2)

lemma demo_index [simp]: "db_index demo_db ''t'' = Inr demo_table"
  by (simp add: db_index_def demo_db_def)

lemma demo_fields [simp]:
  "known_field demo_table ''a''" "known_field demo_table ''b''" "\<not> known_field demo_table ''c''"
  by (simp_all add: known_field_def demo_table_def)

lemma demo_keys [simp]:
  "row_of demo_table ''x'' = Some [3, 5]" "row_of demo_table ''y'' = Some [10, 2]"
  "row_of demo_table ''z'' = None"
  by (simp_all add: row_of_def table_find_def demo_table_def)

lemma demo_length [simp]: "length (data demo_table) = 2"
  by (simp add: demo_table_def)

lemma demo_where:
  "where_holds demo_table demo_cs (data demo_table ! 0) = False"
  "where_holds demo_table demo_cs (data demo_table ! 1) = True"
  by code_simp+

theorem update_key_correct_witness:
  "\<exists>t'. UpdateQuery_execute ''t'' [''KEY'', ''z''] demo_cs demo_db = (db_store ''t'' t' demo_db, Inr (affected 1)) \<and>
     table_inv t' \<and> data t' = (data demo_table)[1 := (data demo_table ! 1)\<lparr>key := ''z''\<rparr>]"
  by (rule update_key_correct)
    (use demo_where in \<open>auto simp: less_2_cases_iff\<close>)

theorem add_correct_witness:
  "AddQuery_execute ''t'' [''a'', ''b'', ''b''] demo_cs demo_db =
     (db_store ''t'' (update_matching demo_cs (add_spec demo_table ''b'' [''a'', ''b'']) demo_table) demo_db,
      Inr (affected (length (matching demo_table demo_cs))))"
  using add_correct [of demo_db "''t''" demo_table demo_cs "''b''" "[''a'', ''b'']"] by simp

theorem sub_correct_witness:
  "SubQuery_execute ''t'' [''a'', ''b'', ''b''] demo_cs demo_db =
     (db_store ''t'' (update_matching demo_cs (sub_spec demo_table ''b'' [''a'', ''b'']) demo_table) demo_db,
      Inr (affected (length (matching demo_table demo_cs))))"
  using sub_correct [of demo_db "''t''" demo_table demo_cs "''b''" "[''a'', ''b'']"] by simp

theorem update_value_correct_witness:
  "UpdateQuery_execute ''t'' [''b'', ''7''] demo_cs demo_db =
     (db_store ''t'' (update_matching demo_cs (set_cell demo_table ''b'' (parse_value ''7'')) demo_table) demo_db,
      Inr (affected (length (matching demo_table demo_cs))))"
  using update_value_correct [of demo_db "''t''" demo_table demo_cs "''b''" "''7''"] by simp

theorem swap_correct_witness:
  "SwapQuery_execute ''t'' [''a'', ''b''] demo_cs demo_db =
     (db_store ''t'' (update_matching demo_cs (swap_spec demo_table ''a'' ''b'') demo_table) demo_db,
      Inr (affected (length (matching demo_table demo_cs))))"
  using swap_correct [of demo_db "''t''" demo_table demo_cs "''a''" "''b''"] by simp

subsection \<open>INSERT\<close>

text \<open>
  C32: \<open>INSERT\<close> of a fresh key appends one row with the parsed values and prints nothing; the
  table stays in order when there is one value per column.
\<close>

theorem insert_correct:
  assumes "db_index db tbl = Inr t" and "keys_ok t" and "row_of t k = None"
  shows "\<exists>t'. InsertQuery_execute tbl (k # vs) cs db = (db_store tbl t' db, Inr NullQueryResult) \<and> keys_ok t' \<and>
     data t' = data t @ [\<lparr>key = k, datum = map parse_value vs\<rparr>] \<and>
     row_of t' = (row_of t)(k \<mapsto> map parse_value vs) \<and>
     (table_inv t \<and> length vs = length (tfields t) \<longrightarrow> table_inv t')"
proof -
  obtain t' where t': "insertByIndex k (map parse_value vs) t = Inr t'" "keys_ok t'"
      "row_of t' = (row_of t)(k \<mapsto> map parse_value vs)"
    using tbl.insert_fresh assms(2,3) by blast
  moreover note frame = insertByIndex_frame [OF t'(1)]
  moreover have "table_inv t'" if "table_inv t" "length vs = length (tfields t)"
    using that t'(2) frame by (auto simp: table_inv_def fields_ok_def rows_ok_def)
  ultimately show ?thesis
    using assms(1) by (intro exI [of _ t']) (simp add: InsertQuery_execute_def insert_body_def try_table_found)
qed

text \<open>
  \<open>INSERT\<close> of a key that exists changes nothing and reports an error.
\<close>

theorem insert_conflict:
  assumes "db_index db tbl = Inr t" and "row_of t k \<noteq> None"
  shows "\<exists>m. InsertQuery_execute tbl (k # vs) cs db = (db, Inr (ErrorMsgResult m))"
proof -
  have "um_contains (keyMap t) k"
    using assms(2) by (auto simp: row_of_def table_find_def um_contains_def)
  then obtain e where e: "insertByIndex k (map parse_value vs) t = Inl (ConflictingKey e)"
    by (simp add: insertByIndex_def)
  obtain s where "unknown_error (ConflictingKey e) = Inr s"
    using fmt_all_total [of "[what (ConflictingKey e)]" "''Unknown error '' @ [CHR 0x27, CHR ''?'', CHR 0x27]"]
    by (auto simp: unknown_error_def res_simps)
  then show ?thesis
    using assms(1) e errorMsg3_total [of "''INSERT''" tbl s] db_store_same [OF assms(1)]
    by (auto simp: InsertQuery_execute_def try_table_def insert_body_def)
qed

subsection \<open>DELETE\<close>

lemma delete_loop_frame:
  "delete_loop deleteByIndex ks t n = (t', r) \<Longrightarrow>
   tfields t' = tfields t \<and> fieldMap t' = fieldMap t \<and> tableName t' = tableName t"
proof (induction ks arbitrary: t n)
  case Nil
  then show ?case by simp
next
  case (Cons k ks)
  show ?case
  proof (cases "deleteByIndex k t")
    case (Inl e)
    with Cons.prems show ?thesis by simp
  next
    case (Inr tb)
    obtain t1 b where tb: "tb = (t1, b)" by (cases tb)
    with Cons.prems Inr have "delete_loop deleteByIndex ks t1 (if b then Suc n else n) = (t', r)" by simp
    from Cons.IH [OF this] deleteByIndex_frame [of k t t1 b] Inr tb show ?thesis by simp
  qed
qed

lemma matching_keys_distinct: "keys_ok t \<Longrightarrow> distinct (map key (matching t cs))"
  unfolding matching_def by (intro distinct_map_filter keys_ok_distinct_keys)

lemma fold_snoc: "fold (\<lambda>d acc. acc @ [f d]) ds acc = acc @ map f ds"
  by (induction ds arbitrary: acc) simp_all

lemma row_of_mem: "keys_ok t \<Longrightarrow> row_of t (key d) = Some (datum d) \<longleftrightarrow> d \<in> set (data t)"
proof -
  have "key d' = key d \<and> datum d' = datum d \<longleftrightarrow> d' = d" for d' :: datum
    by auto
  then show "keys_ok t \<Longrightarrow> ?thesis" by (simp add: row_of_iff)
qed

lemma keyed_rows_mset:
  assumes "keys_ok t" "keys_ok t'" and "set (data t') = {d \<in> set (data t). P d}"
  shows "mset (data t') = filter_mset P (mset (data t))"
proof -
  have "distinct (data t)" "distinct (data t')"
    using assms(1,2) keys_ok_distinct_keys by (auto simp: distinct_map)
  then have "mset (data t') = mset (filter P (data t))"
    using assms(3) by (subst set_eq_iff_mset_eq_distinct [symmetric]) auto
  then show ?thesis by simp
qed

text \<open>
  C18: \<open>DELETE\<close> removes exactly the matching rows, keeps the others (as a multiset: the last
  row moves into a gap), reports their number and leaves the table in order.
\<close>

theorem delete_correct:
  assumes "db_index db tbl = Inr t" and ok: "query_ok t cs"
  shows "\<exists>t'. DeleteQuery_execute tbl ops cs db =
       (db_store tbl t' db, Inr (affected (length (matching t cs)))) \<and> table_inv t' \<and>
     mset (data t') = filter_mset (\<lambda>d. \<not> where_holds t cs d) (mset (data t))"
proof -
  have inv: "keys_ok t" "fields_ok t" "rows_ok t" using query_ok_inv [OF ok] by simp_all
  let ?ks = "map key (matching t cs)"
  have scan: "scan_rows cs (\<lambda>d ks. Inr (ks @ [key d])) t [] = Inr ?ks"
    using scan_rows_spec [OF ok, of "\<lambda>_. True" "\<lambda>d ks. Inr (ks @ [key d])" "\<lambda>d ks. ks @ [key d]" "[]"]
    by (simp add: fold_snoc)
  have row: "row_of t (key d) = Some (datum d)" if "d \<in> set (data t)" for d
    using that row_of_iff [OF inv(1)] by blast
  have all: "filter (\<lambda>k. row_of t k \<noteq> None) ?ks = ?ks"
    using row by (intro filter_True) (auto simp: matching_def)
  obtain t' where t': "delete_loop deleteByIndex ?ks t 0 = (t', Inr (length ?ks))" "keys_ok t'"
      "row_of t' = (\<lambda>k. if k \<in> set ?ks then None else row_of t k)"
    using tbl.delete_loop_spec [OF inv(1) matching_keys_distinct [OF inv(1)], of cs 0] unfolding all by auto
  have hit: "key d \<in> set ?ks \<longleftrightarrow> where_holds t cs d" if "d \<in> set (data t)" for d
  proof
    assume "key d \<in> set ?ks"
    then obtain d' where "d' \<in> set (data t)" "where_holds t cs d'" "key d' = key d"
      by (auto simp: matching_def)
    with that keys_ok_inj [OF inv(1)] show "where_holds t cs d" by (metis in_set_conv_nth)
  qed (use that in \<open>auto simp: matching_def\<close>)
  have "d \<in> set (data t') \<longleftrightarrow> d \<in> set (data t) \<and> \<not> where_holds t cs d" for d
  proof -
    have "d \<in> set (data t') \<longleftrightarrow> row_of t' (key d) = Some (datum d)"
      using row_of_mem [OF t'(2)] by simp
    also have "\<dots> \<longleftrightarrow> key d \<notin> set ?ks \<and> row_of t (key d) = Some (datum d)"
      using t'(3) by simp
    also have "row_of t (key d) = Some (datum d) \<longleftrightarrow> d \<in> set (data t)"
      by (rule row_of_mem [OF inv(1)])
    finally show ?thesis using hit by blast
  qed
  then have set: "set (data t') = {d \<in> set (data t). \<not> where_holds t cs d}" by blast
  have "table_inv t'"
    using inv t'(2) set delete_loop_frame [OF t'(1)] by (auto simp: table_inv_def fields_ok_def rows_ok_def)
  then show ?thesis
    using assms(1) scan t'(1) keyed_rows_mset [OF inv(1) t'(2) set]
    by (intro exI [of _ t']) (simp add: DeleteQuery_execute_def delete_body_def lift_table_def try_table_found)
qed

subsection \<open>DUPLICATE\<close>

definition copy_key :: "string \<Rightarrow> string" where
  "copy_key k = k @ ''_copy''"

lemma copy_key_inj [simp]: "copy_key k = copy_key k' \<longleftrightarrow> k = k'"
  by (simp add: copy_key_def)

text \<open>The matching rows whose copy has a free key.\<close>

definition to_copy :: "table \<Rightarrow> query_condition list \<Rightarrow> datum list" where
  "to_copy t cs = filter (\<lambda>d. row_of t (copy_key (key d)) = None) (matching t cs)"

lemma duplicateByKey_fresh:
  assumes ok: "keys_ok t" and src: "row_of t k = Some v" and dst: "row_of t k' = None"
  shows "\<exists>t'. duplicateByKey k k' t = Inr (t', True) \<and> keys_ok t' \<and> row_of t' = (row_of t)(k' \<mapsto> v) \<and>
     data t' = data t @ [\<lparr>key = k', datum = v\<rparr>] \<and> tfields t' = tfields t \<and> fieldMap t' = fieldMap t"
proof -
  obtain i where i: "map_of (keyMap t) k = Some i" "datum (data t ! i) = v"
    using src by (auto simp: row_of_def table_find_def)
  then have "i < length (data t)" using keys_ok_find [OF ok] by blast
  moreover obtain t' where "insertByIndex k' v t = Inr t'" "keys_ok t'" "row_of t' = (row_of t)(k' \<mapsto> v)"
    using tbl.insert_fresh ok dst by blast
  ultimately show ?thesis
    using i dst insertByIndex_frame [of k' v t t'] by (simp add: duplicateByKey_def row_of_None_iff)
qed

lemma dup_loop_spec:
  assumes "keys_ok t" and "\<forall>d \<in> set ds. row_of t (key d) = Some (datum d) \<and> row_of t (copy_key (key d)) = None"
    and "distinct (map key ds)"
  shows "\<exists>t'. dup_loop (map (\<lambda>d. (key d, copy_key (key d))) ds) t n = (t', Inr (n + length ds)) \<and> keys_ok t' \<and>
     data t' = data t @ map (\<lambda>d. d\<lparr>key := copy_key (key d)\<rparr>) ds \<and> tfields t' = tfields t \<and> fieldMap t' = fieldMap t"
  using assms
proof (induction ds arbitrary: t n)
  case Nil
  then show ?case by simp
next
  case (Cons d ds)
  obtain t1 where t1: "duplicateByKey (key d) (copy_key (key d)) t = Inr (t1, True)" "keys_ok t1"
      "row_of t1 = (row_of t)(copy_key (key d) \<mapsto> datum d)"
      "data t1 = data t @ [\<lparr>key = copy_key (key d), datum = datum d\<rparr>]" "tfields t1 = tfields t" "fieldMap t1 = fieldMap t"
    using duplicateByKey_fresh [OF Cons.prems(1), of "key d" "datum d" "copy_key (key d)"] Cons.prems(2) by auto
  have "\<forall>d' \<in> set ds. row_of t1 (key d') = Some (datum d') \<and> row_of t1 (copy_key (key d')) = None"
    using Cons.prems(2,3) t1(3) by (force simp: image_iff)
  from Cons.IH [OF t1(2) this, of "Suc n"] Cons.prems(3) t1 show ?case by auto
qed

lemma collect_copies_fold:
  "fold (\<lambda>d ps. if row_of t (copy_key (key d)) = None then ps @ [(key d, copy_key (key d))] else ps) ds acc =
   acc @ map (\<lambda>d. (key d, copy_key (key d))) (filter (\<lambda>d. row_of t (copy_key (key d)) = None) ds)"
  by (induction ds arbitrary: acc) auto

text \<open>
  C29: \<open>DUPLICATE\<close> appends, in order, a copy of every matching row whose key with the suffix
  \<open>_copy\<close> is free, changes no existing row, reports the number of copies and leaves the table
  in order.
\<close>

theorem duplicate_correct:
  assumes "db_index db tbl = Inr t" and ok: "query_ok t cs"
  shows "\<exists>t'. DuplicateQuery_execute tbl [] cs db =
       (db_store tbl t' db, Inr (affected (length (to_copy t cs)))) \<and> table_inv t' \<and>
     data t' = data t @ map (\<lambda>d. d\<lparr>key := copy_key (key d)\<rparr>) (to_copy t cs)"
proof -
  have inv: "keys_ok t" "fields_ok t" "rows_ok t" using query_ok_inv [OF ok] by simp_all
  let ?ps = "map (\<lambda>d. (key d, copy_key (key d))) (to_copy t cs)"
  have step: "collect_copies t d ps =
      Inr (if row_of t (copy_key (key d)) = None then ps @ [(key d, copy_key (key d))] else ps)" for d ps
    by (simp add: collect_copies_def row_of_def copy_key_def split: option.split)
  have scan: "scan_rows cs (collect_copies t) t [] = Inr ?ps"
    using scan_rows_spec [OF ok, of "\<lambda>_. True" "collect_copies t" _ "[]", OF conjI [OF step TrueI] TrueI]
    by (simp add: collect_copies_fold to_copy_def)
  have "\<forall>d \<in> set (to_copy t cs). row_of t (key d) = Some (datum d) \<and> row_of t (copy_key (key d)) = None"
    using row_of_mem [OF inv(1)] by (simp add: to_copy_def matching_def)
  moreover have "distinct (map key (to_copy t cs))"
    unfolding to_copy_def using matching_keys_distinct [OF inv(1)] by (rule distinct_map_filter)
  ultimately obtain t' where t': "dup_loop ?ps t 0 = (t', Inr (length (to_copy t cs)))" "keys_ok t'"
      "data t' = data t @ map (\<lambda>d. d\<lparr>key := copy_key (key d)\<rparr>) (to_copy t cs)"
      "tfields t' = tfields t" "fieldMap t' = fieldMap t"
    using dup_loop_spec [OF inv(1), of "to_copy t cs" 0] by auto
  have "table_inv t'"
    using inv t' by (auto simp: table_inv_def fields_ok_def rows_ok_def to_copy_def matching_def)
  with t' scan assms(1) show ?thesis
    by (intro exI [of _ t']) (simp add: DuplicateQuery_execute_def duplicate_body_def lift_table_def try_table_found)
qed

subsection \<open>COUNT and SUM\<close>

lemma fold_count: "fold (\<lambda>d n. n + 1) ds (w :: i64) = w + word_of_nat (length ds)"
  by (induction ds arbitrary: w) simp_all

lemma i32_of_i64_of_nat: "i32_of_i64 (word_of_nat n) = word_of_nat n"
  using i32_of_i64_of_int [of "int n"] by simp

text \<open>
  \<open>COUNT\<close> answers the number of matching rows (as a 32-bit integer) and changes nothing.
\<close>

theorem count_correct:
  assumes "db_index db tbl = Inr t" and ok: "query_ok t cs"
  shows "CountQuery_execute tbl ops cs db = (db, Inr (successInt (word_of_nat (length (matching t cs)))))"
proof -
  have "scan_rows cs (\<lambda>d n. Inr (n + 1)) t (0 :: i64) = Inr (word_of_nat (length (matching t cs)))"
    using scan_rows_spec [OF ok, of "\<lambda>_. True" "\<lambda>d n. Inr (n + 1)" "\<lambda>d n. n + 1" "0 :: i64"]
    by (simp add: fold_count)
  with assms(1) show ?thesis
    by (simp add: CountQuery_execute_def read_body_def count_body_def try_table_found db_store_same
        i32_of_i64_of_nat)
qed

lemma zip_row_cells:
  assumes "query_ok t cs" "d \<in> set (data t)"
  shows "list_all (known_field t) fs \<Longrightarrow> length as = length fs \<Longrightarrow>
   zip_row f (map (col t) fs) d as = Inr (map2 (\<lambda>x a. f (cell t x d) a) fs as)"
proof (induction fs arbitrary: as)
  case Nil
  then show ?case by simp
next
  case (Cons x fs)
  then obtain a as' where "as = a # as'" "length as' = length fs" by (cases as) auto
  with Cons show ?case by (simp add: obj_get_cell [OF assms])
qed

lemma fold_map2:
  "fold (\<lambda>d as. map2 (\<lambda>x a. F d x a) fs as) ds (map h fs) = map (\<lambda>x. fold (\<lambda>d a. F d x a) ds (h x)) fs"
proof (induction ds arbitrary: h)
  case Nil
  then show ?case by simp
next
  case (Cons d ds)
  have "map2 (\<lambda>x a. F d x a) fs (map h fs) = map (\<lambda>x. F d x (h x)) fs"
    by (induction fs) simp_all
  with Cons [of "\<lambda>x. F d x (h x)"] show ?case by simp
qed

text \<open>The accumulators of a scan over columns, one per operand.\<close>

lemma scan_columns:
  assumes ok: "query_ok t cs" and fs: "list_all (known_field t) fs"
  shows "scan_rows cs (zip_row f (map (col t) fs)) t (replicate (length fs) a) =
     Inr (map (\<lambda>x. fold (\<lambda>d. f (cell t x d)) (matching t cs) a) fs)"
proof -
  have "scan_rows cs (zip_row f (map (col t) fs)) t (map (\<lambda>_. a) fs) =
      Inr (fold (\<lambda>d. map2 (\<lambda>x a. f (cell t x d) a) fs) (matching t cs) (map (\<lambda>_. a) fs))"
    using scan_rows_spec [OF ok, of "\<lambda>as. length as = length fs" "zip_row f (map (col t) fs)"
        "\<lambda>d. map2 (\<lambda>x a. f (cell t x d) a) fs" "map (\<lambda>_. a) fs"]
    by (simp add: zip_row_cells [OF ok _ fs])
  then show ?thesis
    using fold_map2 [of "\<lambda>d x. f (cell t x d)" fs "matching t cs" "\<lambda>_. a"] by (simp add: map_replicate_const)
qed

lemma fold_sum: "i32_of_i64 (fold (\<lambda>d acc. acc + i64_of_i32 (g d)) ds acc) = i32_of_i64 acc + sum_list (map g ds)"
  by (induction ds arbitrary: acc) (simp_all add: add.assoc)

text \<open>
  C35: \<open>SUM\<close> answers, per operand, the sum of the column over the matching rows modulo 2^32,
  and changes nothing.
\<close>

theorem sum_correct:
  assumes "db_index db tbl = Inr t" and ok: "query_ok t cs"
    and fs: "list_all (known_field t) fs" and "fs \<noteq> []" and "''KEY'' \<notin> set fs"
  shows "SumQuery_execute tbl fs cs db =
     (db, Inr (successVector (map (\<lambda>f. sum_list (map (cell t f) (matching t cs))) fs)))"
proof -
  have "sum_body fs tbl cs t = Inr (successVector (map (\<lambda>f. sum_list (map (cell t f) (matching t cs))) fs))"
    using assms(4,5) scan_columns [OF ok fs, of "\<lambda>x acc. acc + i64_of_i32 x" 0]
    by (simp add: sum_body_def known_fields_cols [OF fs] fold_sum o_def)
  with assms(1) show ?thesis
    by (simp add: SumQuery_execute_def read_body_def try_table_found db_store_same)
qed

subsection \<open>MIN and MAX\<close>

lemma sint_smin: "sint (smin x y) = min (sint x) (sint y)"
  by (simp add: smin_def)

lemma sint_smax: "sint (smax x y) = max (sint x) (sint y)"
  by (simp add: smax_def)

lemma sint_fold:
  assumes "\<And>x y. sint (f x y) = F (sint x) (sint (y :: i32))"
  shows "sint (fold (\<lambda>d. f (g d)) ds m) = fold F (map (\<lambda>d. sint (g d)) ds) (sint m)"
  by (induction ds arbitrary: m) (simp_all add: assms)

lemma fold_min_spec:
  assumes "ds \<noteq> []"
  shows "fold (\<lambda>d. smin (g d)) ds ValueTypeMax = word_of_int (Min ((\<lambda>d. sint (g d)) ` set ds))"
proof -
  let ?S = "(\<lambda>d. sint (g d)) ` set ds"
  have "sint (fold (\<lambda>d. smin (g d)) ds ValueTypeMax) = fold min (map (\<lambda>d. sint (g d)) ds) (2 ^ 31 - 1)"
    by (simp add: sint_fold [of smin min, OF sint_smin])
  also have "\<dots> = Min (set ((2 ^ 31 - 1) # map (\<lambda>d. sint (g d)) ds))"
    by (rule Min.set_eq_fold [symmetric])
  also have "\<dots> = min (2 ^ 31 - 1) (Min ?S)"
    using assms by (simp add: Min.insert)
  also have "\<dots> = Min ?S"
  proof -
    have "Min ?S \<in> ?S" using assms by (intro Min_in) auto
    then obtain d where "Min ?S = sint (g d)" by auto
    then show ?thesis using sint_i32_range [of "g d"] by simp
  qed
  finally have "sint (fold (\<lambda>d. smin (g d)) ds ValueTypeMax) = Min ?S" .
  from arg_cong [OF this, of "word_of_int :: int \<Rightarrow> i32"] show ?thesis by simp
qed

lemma fold_max_spec:
  assumes "ds \<noteq> []"
  shows "fold (\<lambda>d. smax (g d)) ds ValueTypeMin = word_of_int (Max ((\<lambda>d. sint (g d)) ` set ds))"
proof -
  let ?S = "(\<lambda>d. sint (g d)) ` set ds"
  have "sint (fold (\<lambda>d. smax (g d)) ds ValueTypeMin) = fold max (map (\<lambda>d. sint (g d)) ds) (- (2 ^ 31))"
    by (simp add: sint_fold [of smax max, OF sint_smax])
  also have "\<dots> = Max (set (- (2 ^ 31) # map (\<lambda>d. sint (g d)) ds))"
    by (rule Max.set_eq_fold [symmetric])
  also have "\<dots> = max (- (2 ^ 31)) (Max ?S)"
    using assms by (simp add: Max.insert)
  also have "\<dots> = Max ?S"
  proof -
    have "Max ?S \<in> ?S" using assms by (intro Max_in) auto
    then obtain d where "Max ?S = sint (g d)" by auto
    then show ?thesis using sint_i32_range [of "g d"] by simp
  qed
  finally have "sint (fold (\<lambda>d. smax (g d)) ds ValueTypeMin) = Max ?S" .
  from arg_cong [OF this, of "word_of_int :: int \<Rightarrow> i32"] show ?thesis by simp
qed

lemma extremum_body_spec:
  assumes ok: "query_ok t cs" and fs: "list_all (known_field t) fs"
  shows "extremum_body f start fs cs t = Inr (if matching t cs = [] then NullQueryResult
     else successVector (map (\<lambda>x. fold (\<lambda>d. f (cell t x d)) (matching t cs) start) fs))"
proof -
  let ?g = "\<lambda>d (ms, n). (map2 (\<lambda>x a. f (cell t x d) a) fs ms, Suc n)"
  have pair: "fold ?g ds (ms, n) = (fold (\<lambda>d. map2 (\<lambda>x a. f (cell t x d) a) fs) ds ms, n + length ds)" for ds ms n
    by (induction ds arbitrary: ms n) simp_all
  have "scan_rows cs (extremum_row f (map (col t) fs)) t (map (\<lambda>_. start) fs, 0) =
      Inr (fold ?g (matching t cs) (map (\<lambda>_. start) fs, 0))"
    using scan_rows_spec [OF ok, of "\<lambda>(as, _). length as = length fs" "extremum_row f (map (col t) fs)"
        ?g "(map (\<lambda>_. start) fs, 0)"]
    by (auto simp: extremum_row_def zip_row_cells [OF ok _ fs])
  then show ?thesis
    using fold_map2 [of "\<lambda>d x. f (cell t x d)" fs "matching t cs" "\<lambda>_. start"]
    by (auto simp: extremum_body_def known_fields_cols [OF fs] pair map_replicate_const)
qed

text \<open>
  \<open>MIN\<close> answers, per operand, the smallest value of the column over the matching rows,
  in the signed order, nothing when no row matches, and changes nothing.
\<close>

theorem min_correct:
  assumes "db_index db tbl = Inr t" and ok: "query_ok t cs"
    and fs: "list_all (known_field t) fs" and "fs \<noteq> []"
  shows "MinQuery_execute tbl fs cs db =
     (db, Inr (if matching t cs = [] then NullQueryResult
               else successVector (map (\<lambda>f. word_of_int (Min ((\<lambda>d. sint (cell t f d)) ` set (matching t cs)))) fs)))"
  using assms(1,4)
  by (simp add: MinQuery_execute_def read_body_def extremum_body_spec [OF ok fs] try_table_found
      db_store_same fold_min_spec)

text \<open>
  \<open>MAX\<close> answers, per operand, the greatest value of the column over the matching rows,
  in the signed order, nothing when no row matches, and changes nothing.
\<close>

theorem max_correct:
  assumes "db_index db tbl = Inr t" and ok: "query_ok t cs"
    and fs: "list_all (known_field t) fs" and "fs \<noteq> []"
  shows "MaxQuery_execute tbl fs cs db =
     (db, Inr (if matching t cs = [] then NullQueryResult
               else successVector (map (\<lambda>f. word_of_int (Max ((\<lambda>d. sint (cell t f d)) ` set (matching t cs)))) fs)))"
  using assms(1,4)
  by (simp add: MaxQuery_execute_def read_body_def extremum_body_spec [OF ok fs] try_table_found
      db_store_same fold_max_spec)

subsection \<open>SELECT\<close>

definition line_of :: "table \<Rightarrow> string list \<Rightarrow> datum \<Rightarrow> string" where
  "line_of t fs d =
     ''( '' @ key d @ concat (map (\<lambda>f. '' '' @ string_of_int (sint (cell t f d))) fs) @ '' )'' @ [CHR 0x0A]"

lemma select_line_spec:
  assumes "query_ok t cs" "d \<in> set (data t)" and "list_all (known_field t) fs"
  shows "select_line (map (col t) fs) d = Inr (line_of t fs d)"
proof -
  have "res_map (obj_get d) (map (col t) fs) = Inr (map (\<lambda>f. cell t f d) fs)"
    using assms(3) by (induction fs) (simp_all add: obj_get_cell [OF assms(1,2)])
  then show ?thesis by (simp add: select_line_def line_of_def o_def)
qed

lemma concat_lines_Nil: "concat (map (line_of t fs) ds) = [] \<longleftrightarrow> ds = []"
  by (cases ds) (simp_all add: line_of_def)

text \<open>
  C30: \<open>SELECT\<close> changes nothing; when rows match, its answer is one line per matching row,
  sorted by the text of the lines, without the last newline; otherwise it prints nothing, or
  an empty line when the conditions contradict each other.
\<close>

theorem select_correct:
  assumes "db_index db tbl = Inr t" and ok: "query_ok t cs" and fs: "list_all (known_field t) fs"
  shows "\<exists>r. SelectQuery_execute tbl (''KEY'' # fs) cs db = (db, Inr r) \<and>
     (if matching t cs = [] then r = NullQueryResult \<or> r = SuccessMsgResult []
      else \<exists>ls. sorted ls \<and> mset ls = mset (map (line_of t fs) (matching t cs)) \<and>
             r = SuccessMsgResult (butlast (concat ls)))"
proof -
  obtain cs' k b where i: "initCondition t cs = Inr (cs', k, b)"
    and T: "b \<Longrightarrow> \<forall>d \<in> set (data t). evalCondition cs' d = Inr (where_holds t cs d)"
    and F: "\<not> b \<Longrightarrow> \<forall>d. \<not> where_holds t cs d"
    using query_ok_init [OF ok] by metis
  have ex: "SelectQuery_execute tbl (''KEY'' # fs) cs db = (db, Inr r)" if "select_body (''KEY'' # fs) cs t = Inr r" for r
    using assms(1) that by (simp add: SelectQuery_execute_def read_body_def try_table_found db_store_same)
  show ?thesis
  proof (cases b)
    case False
    then have "matching t cs = []" using F by (simp add: matching_def)
    moreover have "select_body (''KEY'' # fs) cs t = Inr (SuccessMsgResult [])"
      using i False by (simp add: select_body_def)
    ultimately show ?thesis using ex by simp
  next
    case True
    let ?ls = "map (line_of t fs) (matching t cs)"
    have "fold_rows (evalCondition cs') (\<lambda>d ls. res_bind (select_line (map (col t) fs) d) (\<lambda>l. Inr (ls @ [l]))) (data t) []
        = Inr ?ls"
      using fold_rows_spec [OF T [OF True], of "\<lambda>_. True" _ "\<lambda>d ls. ls @ [line_of t fs d]" "[]"]
      by (simp add: select_line_spec [OF ok _ fs] fold_snoc matching_def)
    then have body: "select_body (''KEY'' # fs) cs t =
        Inr (if concat (sort ?ls) \<noteq> [] then SuccessMsgResult (butlast (concat (sort ?ls))) else NullQueryResult)"
      using i True by (simp add: select_body_def known_fields_cols [OF fs] Let_def)
    have "concat (sort ?ls) = [] \<longleftrightarrow> matching t cs = []"
      using concat_lines_Nil [of t fs "matching t cs"] by (simp add: concat_eq_Nil_conv)
    with ex [OF body] show ?thesis
      by (auto intro!: exI [of _ "sort ?ls"])
  qed
qed

subsection \<open>The theorems at work\<close>

lemma demo_tfields: "tfields demo_table = [''a'', ''b'']"
  by (simp add: demo_table_def)

theorem insert_correct_witness:
  "\<exists>t'. InsertQuery_execute ''t'' [''z'', ''1'', ''2''] [] demo_db = (db_store ''t'' t' demo_db, Inr NullQueryResult) \<and>
     table_inv t'"
  using insert_correct [of demo_db "''t''" demo_table "''z''" "[''1'', ''2'']" "[]"] query_ok_inv [OF demo_ok(1)]
  by (auto simp: demo_tfields)

theorem insert_conflict_witness:
  "\<exists>m. InsertQuery_execute ''t'' [''x'', ''1'', ''2''] [] demo_db = (demo_db, Inr (ErrorMsgResult m))"
  using insert_conflict [of demo_db "''t''" demo_table "''x''" "[''1'', ''2'']" "[]"] by simp

theorem delete_correct_witness:
  "\<exists>t'. DeleteQuery_execute ''t'' [] demo_cs demo_db =
       (db_store ''t'' t' demo_db, Inr (affected (length (matching demo_table demo_cs)))) \<and> table_inv t'"
  using delete_correct [of demo_db "''t''" demo_table demo_cs "[]"] by auto

theorem duplicate_correct_witness:
  "\<exists>t'. DuplicateQuery_execute ''t'' [] [] demo_db =
       (db_store ''t'' t' demo_db, Inr (affected (length (to_copy demo_table [])))) \<and> table_inv t'"
  using duplicate_correct [of demo_db "''t''" demo_table "[]"] by auto

lemma demo_matching: "matching demo_table demo_cs = [\<lparr>key = ''y'', datum = [10, 2]\<rparr>]"
  by code_simp

lemma demo_cells: "cell demo_table ''a'' d = datum d ! 0" "cell demo_table ''b'' d = datum d ! 1"
  by (simp_all add: cell_def col_def demo_table_def)

theorem count_correct_witness:
  "CountQuery_execute ''t'' [] demo_cs demo_db = (demo_db, Inr (successInt 1))"
  using count_correct [of demo_db "''t''" demo_table demo_cs "[]"] by (simp add: demo_matching)

theorem sum_correct_witness:
  "SumQuery_execute ''t'' [''a'', ''b''] demo_cs demo_db = (demo_db, Inr (successVector [10, 2]))"
  using sum_correct [of demo_db "''t''" demo_table demo_cs "[''a'', ''b'']"]
  by (simp add: demo_matching demo_cells)

theorem min_correct_witness:
  "MinQuery_execute ''t'' [''a''] demo_cs demo_db = (demo_db, Inr (successVector [10]))"
  using min_correct [of demo_db "''t''" demo_table demo_cs "[''a'']"]
  by (simp add: demo_matching demo_cells)

theorem max_correct_witness:
  "MaxQuery_execute ''t'' [''b''] demo_cs demo_db = (demo_db, Inr (successVector [2]))"
  using max_correct [of demo_db "''t''" demo_table demo_cs "[''b'']"]
  by (simp add: demo_matching demo_cells)

theorem select_correct_witness:
  "\<exists>r. SelectQuery_execute ''t'' [''KEY'', ''b''] demo_cs demo_db = (demo_db, Inr r)"
  using select_correct [of demo_db "''t''" demo_table demo_cs "[''b'']"] by auto

subsection \<open>Where the source falls short\<close>

text \<open>
  \<open>setKey\<close> does not check whether the new key is in use: renaming a row to the key of
  another one leaves two rows with that key and an index that finds only one of them.
\<close>

theorem setKey_conflict:
  assumes ok: "keys_ok t" and i: "i < length (data t)" and j: "j < length (data t)" "j \<noteq> i"
  shows "\<exists>t'. setKey i (key (data t ! j)) t = Inr t' \<and> \<not> distinct (map key (data t')) \<and> \<not> keys_ok t'"
proof -
  have "map_of (keyMap t) (key (data t ! i)) = Some i"
    using ok i by (simp add: keys_ok_def)
  then obtain t' where t': "setKey i (key (data t ! j)) t = Inr t'"
      "data t' = (data t)[i := (data t ! i)\<lparr>key := key (data t ! j)\<rparr>]"
    using i by (simp add: setKey_def)
  have "map key (data t') ! i = map key (data t') ! j"
    using t'(2) i j by simp
  then have "\<not> distinct (map key (data t'))"
    using t'(2) i j nth_eq_iff_index_eq [of "map key (data t')" i j] by auto
  then show ?thesis using t' keys_ok_distinct_keys by blast
qed

theorem setKey_conflict_witness:
  "\<exists>t'. setKey 0 (key (data demo_table ! 1)) demo_table = Inr t' \<and> \<not> distinct (map key (data t')) \<and> \<not> keys_ok t'"
  using setKey_conflict [of demo_table 0 1] query_ok_inv [OF demo_ok(1)] by simp

text \<open>
  two \<open>UPDATE\<close> queries that give every row the same key lead to undefined behaviour: the
  second one dereferences the end of the key index.
\<close>

theorem update_key_twice_undefined:
  "snd (UpdateQuery_execute ''t'' [''KEY'', ''w''] []
     (fst (UpdateQuery_execute ''t'' [''KEY'', ''z''] [] demo_db))) = Inl Undefined_behaviour"
  by code_simp

lemma res_map_mem_Inl:
  "x \<in> set xs \<Longrightarrow> f x = Inl e \<Longrightarrow> (\<And>y e'. y \<in> set xs \<Longrightarrow> f y = Inl e' \<Longrightarrow> e' = e) \<Longrightarrow> res_map f xs = Inl e"
proof (induction xs)
  case Nil
  then show ?case by simp
next
  case (Cons y ys)
  show ?case
  proof (cases "f y")
    case (Inl e')
    with Cons.prems(3) [of y e'] show ?thesis by simp
  next
    case (Inr v)
    then have "x \<in> set ys" using Cons.prems(1,2) by auto
    then have "res_map f ys = Inl e"
      by (rule Cons.IH [OF _ Cons.prems(2)]) (rule Cons.prems(3), simp_all)
    with Inr show ?thesis by simp
  qed
qed

text \<open>
  C37: \<open>INSERT\<close> does not compare the number of values with the number of columns: after an
  insert of too few values, printing or dumping the table reads past the end of the row.
\<close>

theorem insert_short_row_undefined:
  assumes "db_index db tbl = Inr t" and "keys_ok t" and "row_of t k = None" and "length vs < length (tfields t)"
  shows "\<exists>t'. InsertQuery_execute tbl (k # vs) cs db = (db_store tbl t' db, Inr NullQueryResult) \<and>
     print_table t' = Inl Undefined_behaviour"
proof -
  obtain t' where t': "insertByIndex k (map parse_value vs) t = Inr t'"
    using tbl.insert_fresh assms(2,3) by blast
  then have f: "tfields t' = tfields t" "data t' = data t @ [\<lparr>key = k, datum = map parse_value vs\<rparr>]"
    using insertByIndex_frame by blast+
  have "res_map (print_row (length (tfields t'))) (data t') = Inl Undefined_behaviour"
    by (rule res_map_mem_Inl [of "\<lparr>key = k, datum = map parse_value vs\<rparr>"])
      (use f assms(4) in \<open>auto simp: print_row_def split: if_splits\<close>)
  then have "print_table t' = Inl Undefined_behaviour" by (simp add: print_table_def)
  with t' assms(1) show ?thesis
    by (intro exI [of _ t']) (simp add: InsertQuery_execute_def insert_body_def try_table_found)
qed

theorem insert_short_row_undefined_witness:
  "\<exists>t'. InsertQuery_execute ''t'' [''z'', ''1''] [] demo_db = (db_store ''t'' t' demo_db, Inr NullQueryResult) \<and>
     print_table t' = Inl Undefined_behaviour"
  using insert_short_row_undefined [of demo_db "''t''" demo_table "''z''" "[''1'']" "[]"] query_ok_inv [OF demo_ok(1)]
  by (simp add: demo_tfields)

end
