(* ===== verification/Data_Safety.thy ===== *)
theory Data_Safety
  imports Query_Data
begin
section \<open>Data queries: what holds whatever the query\<close>

text \<open>
  Properties of all twelve data queries, with no assumption on the operands or the
  conditions: they touch one table only, the read queries touch none, the registry stays
  in order, and every exception of the body becomes a result. The exception is \<open>UPDATE KEY\<close>,
  which can break the key index; the last part shows how.
\<close>

subsection \<open>One table only\<close>

definition only_table :: "string \<Rightarrow> database \<Rightarrow> database \<Rightarrow> bool" where
  "only_table tbl db db' \<longleftrightarrow> fileTableNameMap db' = fileTableNameMap db \<and>
     (\<forall>n. n \<noteq> tbl \<longrightarrow> map_of (tables db') n = map_of (tables db) n) \<and>
     um_keys (tables db') = um_keys (tables db)"

lemma only_table_refl [simp]: "only_table tbl db db"
  by (simp add: only_table_def)

lemma try_table_only: "only_table tbl db (fst (try_table h q tbl body db))"
proof (cases "db_index db tbl")
  case (Inl e)
  then show ?thesis by (simp add: try_table_def)
next
  case (Inr t)
  then have "tbl \<in> set (um_keys (tables db))"
    by (auto simp: db_index_def split: option.splits dest: map_of_SomeD intro: rev_image_eqI)
  with Inr show ?thesis
    by (simp add: try_table_def only_table_def db_store_def umap_simps split: prod.split)
qed

lemmas execute_defs =
  AddQuery_execute_def SubQuery_execute_def UpdateQuery_execute_def SwapQuery_execute_def
  InsertQuery_execute_def DeleteQuery_execute_def DuplicateQuery_execute_def CountQuery_execute_def
  SumQuery_execute_def MinQuery_execute_def MaxQuery_execute_def SelectQuery_execute_def

lemma complex_only_table: "only_table tbl db (fst (execute_complex oper tbl ops cs db))"
  by (cases oper) (simp_all add: execute_defs try_table_only)

subsection \<open>Reads do not write\<close>

lemma try_table_read: "fst (try_table h q tbl (read_body f) db) = db"
  by (simp add: try_table_def read_body_def db_store_same split: sum.split)

text \<open>
  a data query that the classification calls a read, which the runtime runs under a
  shared lock, does not change the database, whatever its outcome.
\<close>

lemma execute_complex_reads:
  "getQueryKind (complex_type oper) = Kind_Read \<Longrightarrow> fst (execute_complex oper tbl ops cs db) = db"
  by (cases oper) (simp_all add: execute_defs try_table_read)

subsection \<open>The registry stays in order\<close>

text \<open>What a body must keep for the registry invariant.\<close>

definition kept :: "table \<Rightarrow> table \<Rightarrow> bool" where
  "kept t t' \<longleftrightarrow> keys_ok t' \<and> fields_ok t' \<and> tableName t' = tableName t"

definition body_ok :: "(table \<Rightarrow> table \<times> query_result res) \<Rightarrow> bool" where
  "body_ok body \<longleftrightarrow> (\<forall>t. keys_ok t \<and> fields_ok t \<longrightarrow> kept t (fst (body t)))"

lemma body_okI: "(\<And>t. keys_ok t \<Longrightarrow> fields_ok t \<Longrightarrow> kept t (fst (body t))) \<Longrightarrow> body_ok body"
  by (simp add: body_ok_def)

lemma kept_refl: "keys_ok t \<Longrightarrow> fields_ok t \<Longrightarrow> kept t t"
  by (simp add: kept_def)

lemma kept_frame:
  "keys_ok t' \<Longrightarrow> fields_ok t \<Longrightarrow> tfields t' = tfields t \<Longrightarrow> fieldMap t' = fieldMap t \<Longrightarrow>
   tableName t' = tableName t \<Longrightarrow> kept t t'"
  by (simp add: kept_def fields_ok_def)

lemma try_table_inv:
  assumes "body_ok body" and inv: "db_inv db"
  shows "db_inv (fst (try_table h q tbl body db))"
proof (cases "db_index db tbl")
  case (Inl e)
  with inv show ?thesis by (simp add: try_table_def)
next
  case (Inr t)
  obtain t' r where b: "body t = (t', r)" by (cases "body t")
  have "tableName t = tbl" "keys_ok t" "fields_ok t"
    using db_inv_index [OF inv Inr] by simp_all
  then have "keys_ok t' \<and> fields_ok t' \<and> tableName t' = tbl"
    using assms(1) b by (auto simp: body_ok_def kept_def dest!: spec [of _ t])
  with Inr b inv show ?thesis by (simp add: try_table_def db_inv_store)
qed

lemma row_loop_keys:
  assumes "\<And>d d'. f d = Inr d' \<Longrightarrow> key d' = key d" and "row_loop cond f ds n = (ds', r)"
  shows "map key ds' = map key ds"
  using assms(2)
proof (induction ds arbitrary: n ds')
  case Nil
  then show ?case by simp
next
  case (Cons d ds)
  then show ?case
    using assms(1) by (auto simp: Let_def split: sum.splits if_splits prod.splits)
qed

lemma keys_ok_map_key:
  assumes "map key ds = map key (data t)" and "keys_ok t"
  shows "keys_ok (t\<lparr>data := ds\<rparr>)"
proof -
  have l: "length ds = length (data t)" using assms(1) by (metis length_map)
  have "key (ds ! i) = key (data t ! i)" if "i < length (data t)" for i
    using assms(1) l that by (metis nth_map)
  with l assms(2) show ?thesis by (auto simp: keys_ok_def)
qed

lemma mutate_rows_kept:
  assumes "\<And>d d'. f d = Inr d' \<Longrightarrow> key d' = key d" and "keys_ok t" "fields_ok t"
  shows "kept t (fst (mutate_rows cs f t))"
proof (cases "initCondition t cs")
  case (Inl e)
  with assms show ?thesis by (simp add: mutate_rows_def kept_refl)
next
  case (Inr x)
  obtain cs' k b where x: "x = (cs', k, b)" by (cases x)
  obtain ds r where loop: "row_loop (evalCondition cs') f (data t) 0 = (ds, r)"
    by (cases "row_loop (evalCondition cs') f (data t) 0")
  have "keys_ok (t\<lparr>data := ds\<rparr>)"
    using row_loop_keys [OF assms(1) loop] assms(2) by (rule keys_ok_map_key)
  with Inr x loop assms(2,3) show ?thesis
    by (simp add: mutate_rows_def kept_def fields_ok_def)
qed

lemma fst_count_result [simp]: "fst (count_result p) = fst p"
  by (cases p) simp

lemma lift_table_kept:
  "(\<And>x. m = Inr x \<Longrightarrow> kept t (fst (f x))) \<Longrightarrow> kept t t \<Longrightarrow> kept t (fst (lift_table m f t))"
  by (simp add: lift_table_def split: sum.split)

lemma obj_set_key: "obj_set i v d = Inr d' \<Longrightarrow> key d' = key d"
  by (auto simp: obj_set_def split: if_splits)

lemma add_row_key: "add_row i is d = Inr d' \<Longrightarrow> key d' = key d"
  by (auto simp: add_row_def res_simps obj_set_key)

lemma sub_row_key: "sub_row i is d = Inr d' \<Longrightarrow> key d' = key d"
  by (auto simp: sub_row_def res_simps obj_set_key)

lemma swap_row_key: "swap_row i j d = Inr d' \<Longrightarrow> key d' = key d"
  using obj_set_key by (fastforce simp: swap_row_def res_simps split: if_splits)

lemma arith_body_ok:
  assumes "\<And>i is d d'. row i is d = Inr d' \<Longrightarrow> key d' = key d"
  shows "body_ok (arith_body row ops cs)"
  unfolding arith_body_def
  by (intro body_okI lift_table_kept) (auto simp: mutate_rows_kept [OF assms] kept_refl)

lemma update_body_ok:
  assumes "ops ! 0 \<noteq> ''KEY''"
  shows "body_ok (update_body ops cs)"
  using assms
  by (intro body_okI) (simp add: update_body_def lift_table_kept mutate_rows_kept [OF obj_set_key] kept_refl)

lemma swap_body_ok: "body_ok (swap_body ops tbl cs)"
proof (rule body_okI)
  fix t assume "keys_ok t" "fields_ok t"
  moreover from this have "kept t (fst (lift_table m (\<lambda>(i, j). count_result (mutate_rows cs (swap_row i j) t)) t))" for m
    by (intro lift_table_kept) (auto simp: mutate_rows_kept [OF swap_row_key] kept_refl)
  ultimately show "kept t (fst (swap_body ops tbl cs t))"
    by (simp add: swap_body_def kept_refl)
qed

lemma insert_body_ok: "body_ok (insert_body ops)"
proof (rule body_okI)
  fix t assume ok: "keys_ok t" "fields_ok t"
  show "kept t (fst (insert_body ops t))"
  proof (cases "insertByIndex (hd ops) (map parse_value (tl ops)) t")
    case (Inl e)
    with ok show ?thesis by (simp add: insert_body_def kept_refl)
  next
    case (Inr t')
    with ok insertByIndex_frame [OF Inr] insertByIndex_keys_ok [OF ok(1) Inr] show ?thesis
      by (simp add: insert_body_def kept_frame)
  qed
qed

lemma read_body_ok: "body_ok (read_body f)"
  by (simp add: body_ok_def read_body_def kept_refl)

lemma delete_loop_ok:
  "keys_ok t \<Longrightarrow> keys_ok (fst (delete_loop deleteByIndex ks t n))"
proof (induction ks arbitrary: t n)
  case Nil
  then show ?case by simp
next
  case (Cons k ks)
  then show ?case
    using deleteByIndex_keys_ok [of t k] by (cases "deleteByIndex k t") auto
qed

lemma delete_body_ok: "body_ok (delete_body cs)"
proof (rule body_okI)
  fix t assume ok: "keys_ok t" "fields_ok t"
  have "kept t (fst (delete_loop deleteByIndex ks t 0))" for ks
  proof (cases "delete_loop deleteByIndex ks t 0")
    case (Pair t' r)
    with ok delete_loop_ok [OF ok(1), of ks 0] delete_loop_frame [OF Pair] show ?thesis
      by (simp add: kept_frame)
  qed
  with ok show "kept t (fst (delete_body cs t))"
    unfolding delete_body_def by (intro lift_table_kept) (simp_all add: kept_refl)
qed

lemma duplicateByKey_ok:
  assumes ok: "keys_ok t" and dup: "duplicateByKey k k' t = Inr (t', b)"
  shows "keys_ok t' \<and> tfields t' = tfields t \<and> fieldMap t' = fieldMap t \<and> tableName t' = tableName t"
proof (cases "t' = t")
  case True
  with ok show ?thesis by simp
next
  case False
  with dup obtain v where "insertByIndex k' v t = Inr t'"
    by (auto simp: duplicateByKey_def res_simps split: if_splits option.splits)
  then show ?thesis
    using insertByIndex_keys_ok [OF ok] insertByIndex_frame by blast
qed

lemma dup_loop_kept:
  "keys_ok t \<Longrightarrow> fields_ok t \<Longrightarrow> kept t (fst (dup_loop ps t n))"
proof (induction ps arbitrary: t n)
  case Nil
  then show ?case by (simp add: kept_refl)
next
  case (Cons p ps)
  obtain src dst where p: "p = (src, dst)" by (cases p)
  show ?case
  proof (cases "duplicateByKey src dst t")
    case (Inl e)
    with p Cons.prems show ?thesis by (simp add: kept_refl)
  next
    case (Inr tb)
    obtain t1 b where tb: "tb = (t1, b)" by (cases tb)
    have f: "keys_ok t1" "tfields t1 = tfields t" "fieldMap t1 = fieldMap t" "tableName t1 = tableName t"
      using duplicateByKey_ok [OF Cons.prems(1)] Inr tb by blast+
    then have "kept t1 (fst (dup_loop ps t1 (if b then Suc n else n)))"
      using Cons.prems(2) by (intro Cons.IH) (simp_all add: fields_ok_def)
    with f Inr tb p show ?thesis by (simp add: kept_def)
  qed
qed

lemma duplicate_body_ok: "body_ok (duplicate_body cs)"
  unfolding duplicate_body_def
  by (intro body_okI lift_table_kept) (simp_all add: dup_loop_kept kept_refl)

text \<open>
  a data query, successful or not and whatever its operands, keeps the registry in order
  (every table under its name, keys unique and indexed, columns indexed), unless it is an
  \<open>UPDATE\<close> of the key.
\<close>

lemma execute_complex_keeps:
  assumes "db_inv db" and "oper = Op_Update \<longrightarrow> ops ! 0 \<noteq> ''KEY''"
  shows "db_inv (fst (execute_complex oper tbl ops cs db))"
  using assms
  by (cases oper)
    (simp_all add: execute_defs try_table_inv arith_body_ok add_row_key sub_row_key update_body_ok swap_body_ok
      insert_body_ok read_body_ok delete_body_ok duplicate_body_ok)


lemma demo_db_inv: "db_inv demo_db"
  using demo_ok(2) by (simp add: db_inv_def demo_db_def query_ok_def table_inv_def) (simp add: demo_table_def)

subsection \<open>Every exception becomes a result\<close>

definition defined :: "'a res \<Rightarrow> bool" where
  "defined r \<longleftrightarrow> r \<noteq> Inl Undefined_behaviour"

lemma defined_Inr [simp]: "defined (Inr x)"
  by (simp add: defined_def)

lemma defined_Inl [simp]: "defined (Inl e) \<longleftrightarrow> e \<noteq> Undefined_behaviour"
  by (simp add: defined_def)

lemma defined_bind: "defined m \<Longrightarrow> (\<And>x. m = Inr x \<Longrightarrow> defined (f x)) \<Longrightarrow> defined (res_bind m f)"
  by (cases m) simp_all

lemma defined_res_map: "(\<And>x. x \<in> set xs \<Longrightarrow> defined (f x)) \<Longrightarrow> defined (res_map f xs)"
  by (induction xs) (auto intro!: defined_bind)

lemma defined_getFieldIndex: "defined (getFieldIndex t f)"
  by (cases "map_of (fieldMap t) f") (simp_all add: getFieldIndex_None)

lemma defined_obj_get: "defined (obj_get d i)"
  by (simp add: obj_get_def index_exn_def)

lemma defined_obj_set: "defined (obj_set i v d)"
  by (simp add: obj_set_def index_exn_def)

lemma defined_fmt: "CHR ''?'' \<in> set s \<Longrightarrow> defined (fmt_subst s v)"
  using count_list_fmt_subst [of s v] count_list_0_iff [of s "CHR ''?''"] by fastforce

lemma defined_bad_operator: "defined (bad_operator o')"
  unfolding bad_operator_def by (intro defined_bind defined_fmt) simp_all

lemma defined_init_loop: "defined (init_loop t first cs)"
proof (induction cs arbitrary: first)
  case Nil
  then show ?case by simp
next
  case (Cons c cs)
  have step: "defined (res_bind (init_loop t k cs) f)" if "\<And>x. defined (f x)" for k f
    using Cons that by (intro defined_bind)
  show ?case
    by (auto simp: defined_bad_operator intro!: defined_bind defined_getFieldIndex step split: option.split prod.split)
qed

lemma defined_initCondition: "defined (initCondition t cs)"
  by (simp add: initCondition_def defined_init_loop)

lemma defined_apply_comp: "defined (apply_comp c x y)"
  by (cases c) simp_all

lemma defined_eval_loop: "defined (eval_loop b cs d)"
  by (induction cs arbitrary: b) (auto intro!: defined_bind defined_obj_get defined_apply_comp)

lemma defined_evalCondition: "defined (evalCondition cs d)"
  by (simp add: evalCondition_def defined_eval_loop)

lemma defined_row_loop:
  assumes "\<And>d. defined (cond d)" and "\<And>d. defined (f d)"
  shows "defined (snd (row_loop cond f ds n))"
proof (induction ds arbitrary: n)
  case Nil
  then show ?case by simp
next
  case (Cons d ds)
  obtain ds1 r1 where 1: "row_loop cond f ds (Suc n) = (ds1, r1)" by fastforce
  obtain ds2 r2 where 2: "row_loop cond f ds n = (ds2, r2)" by fastforce
  show ?case
    using Cons [of "Suc n"] Cons [of n] assms(1) [of d] assms(2) [of d] 1 2
    by (cases "cond d"; cases "f d") simp_all
qed

lemma defined_mutate_rows:
  assumes "\<And>d. defined (f d)"
  shows "defined (snd (mutate_rows cs f t))"
proof (cases "initCondition t cs")
  case (Inl e)
  with defined_initCondition [of t cs] show ?thesis by (simp add: mutate_rows_def)
next
  case (Inr x)
  obtain cs' k b where x: "x = (cs', k, b)" by (cases x)
  obtain ds r where loop: "row_loop (evalCondition cs') f (data t) 0 = (ds, r)" by fastforce
  have "defined r"
    using defined_row_loop [of "evalCondition cs'" f "data t" 0] defined_evalCondition assms loop by simp
  with Inr x loop show ?thesis by (simp add: mutate_rows_def)
qed

lemma defined_fold_rows:
  assumes "\<And>d. defined (cond d)" and "\<And>d a. defined (f d a)"
  shows "defined (fold_rows cond f ds a)"
  using assms by (induction ds arbitrary: a) (auto intro!: defined_bind)

lemma defined_scan_rows:
  "(\<And>d a. defined (f d a)) \<Longrightarrow> defined (scan_rows cs f t a)"
  unfolding scan_rows_def
  by (intro defined_bind defined_initCondition) (auto simp: defined_fold_rows defined_evalCondition split: prod.split)

lemma defined_count_result: "defined (snd p) \<Longrightarrow> defined (snd (count_result p))"
  by (cases p) (auto intro: defined_bind)

lemma defined_lift_table:
  "defined m \<Longrightarrow> (\<And>x. m = Inr x \<Longrightarrow> defined (snd (f x))) \<Longrightarrow> defined (snd (lift_table m f t))"
  by (auto simp: lift_table_def split: sum.split)

lemma defined_errorMsg3: "defined (errorMsg3 q tbl m)"
  using errorMsg3_total [of q tbl m] by (auto simp: defined_def)

lemma defined_operands_error: "defined (operands_error q tbl n)"
  unfolding operands_error_def by (intro defined_bind defined_fmt defined_errorMsg3) simp

text \<open>Handlers that always produce a message.\<close>

definition handler_ok :: "(exn \<Rightarrow> string res) \<Rightarrow> bool" where
  "handler_ok h \<longleftrightarrow> (\<forall>e. e \<noteq> Undefined_behaviour \<longrightarrow> (\<exists>m. h e = Inr m))"

lemma unknown_error_total: "\<exists>m. unknown_error e = Inr m"
  using fmt_subst_append [of "''Unknown error '' @ [CHR 0x27]" "[CHR 0x27]" "what e"] by (simp add: unknown_error_def)

lemma unkonwn_error_total: "\<exists>m. unkonwn_error e = Inr m"
  using fmt_subst_append [of "''Unkonwn error '' @ [CHR 0x27]" "[CHR 0x27]" "what e"] by (simp add: unkonwn_error_def)

lemma handlers_ok:
  "handler_ok catch_add" "handler_ok catch_update" "handler_ok catch_count" "handler_ok catch_swap"
  "handler_ok catch_select" "handler_ok catch_duplicate"
proof -
  note tot = unknown_error_total unkonwn_error_total
  show "handler_ok catch_add" unfolding handler_ok_def
    by (rule allI, rename_tac e, case_tac e) (simp_all add: tot)
  show "handler_ok catch_update" unfolding handler_ok_def
    by (rule allI, rename_tac e, case_tac e) (simp_all add: tot)
  show "handler_ok catch_count" unfolding handler_ok_def
    by (rule allI, rename_tac e, case_tac e) (simp_all add: tot)
  show "handler_ok catch_swap" unfolding handler_ok_def
    by (rule allI, rename_tac e, case_tac e) (simp_all add: tot)
  show "handler_ok catch_select" unfolding handler_ok_def
    by (rule allI, rename_tac e, case_tac e) (simp_all add: tot)
  show "handler_ok catch_duplicate" unfolding handler_ok_def
    by (rule allI, rename_tac e, case_tac e) (simp_all add: tot)
qed

lemma try_catch_total:
  assumes "handler_ok h" and "defined r"
  shows "\<exists>x. try_catch h q tbl r = Inr x"
proof (cases r)
  case (Inr x)
  then show ?thesis by simp
next
  case (Inl e)
  then have e: "e \<noteq> Undefined_behaviour" using assms(2) by simp
  then obtain m where "h e = Inr m" using assms(1) by (auto simp: handler_ok_def)
  with e Inl errorMsg3_total [of q tbl m] show ?thesis by (cases e) auto
qed

definition returns :: "'a \<times> 'b res \<Rightarrow> bool" where
  "returns p \<longleftrightarrow> (\<exists>r. snd p = Inr r)"

lemma try_table_returns:
  assumes "handler_ok h" and inv: "db_inv db" and body: "\<And>t. keys_ok t \<Longrightarrow> defined (snd (body t))"
  shows "returns (try_table h q tbl body db)"
proof (cases "db_index db tbl")
  case (Inl e)
  then have "e \<noteq> Undefined_behaviour" by (auto simp: db_index_def split: option.splits)
  with Inl try_catch_total [OF assms(1), of "Inl e" q tbl] show ?thesis
    by (simp add: try_table_def returns_def)
next
  case (Inr t)
  obtain t' r where b: "body t = (t', r)" by fastforce
  have "defined r" using body [of t] db_inv_index [OF inv Inr] b by simp
  with Inr b try_catch_total [OF assms(1), of r q tbl] show ?thesis
    by (simp add: try_table_def returns_def)
qed

lemma defined_sum_cols: "defined (sum_cols is d acc)"
  by (induction "is" arbitrary: acc) (auto intro!: defined_bind defined_obj_get)

lemma defined_rows:
  "defined (add_row i is d)" "defined (sub_row i is d)" "defined (swap_row i j d)"
  by (auto simp: add_row_def sub_row_def swap_row_def
      intro!: defined_bind defined_obj_get defined_obj_set defined_sum_cols)

lemma defined_arith_body:
  "(\<And>i is d. defined (row i is d)) \<Longrightarrow> defined (snd (arith_body row ops cs t))"
  unfolding arith_body_def
  by (intro defined_lift_table defined_bind defined_getFieldIndex defined_res_map)
    (auto intro!: defined_count_result defined_mutate_rows)

lemma defined_update_body: "ops ! 0 \<noteq> ''KEY'' \<Longrightarrow> defined (snd (update_body ops cs t))"
  by (auto simp: update_body_def
      intro!: defined_lift_table defined_getFieldIndex defined_count_result defined_mutate_rows defined_obj_set)

lemma defined_swap_body: "defined (snd (swap_body ops tbl cs t))"
  by (auto simp: swap_body_def defined_operands_error
      intro!: defined_lift_table defined_bind defined_getFieldIndex defined_count_result defined_mutate_rows defined_rows)

lemma defined_insert_body: "defined (snd (insert_body ops t))"
  by (simp add: insert_body_def insertByIndex_def)

lemma delete_loop_total:
  "keys_ok t \<Longrightarrow> \<exists>m. snd (delete_loop deleteByIndex ks t n) = Inr m"
proof (induction ks arbitrary: t n)
  case Nil
  then show ?case by simp
next
  case (Cons k ks)
  obtain t1 where t1: "deleteByIndex k t = Inr (t1, row_of t k \<noteq> None)" "keys_ok t1"
    using tbl.delete_any [OF Cons.prems] by blast
  with Cons.IH [OF t1(2)] show ?case by auto
qed

lemma defined_delete_body: "keys_ok t \<Longrightarrow> defined (snd (delete_body cs t))"
  unfolding delete_body_def
proof (intro defined_lift_table defined_scan_rows defined_count_result)
  fix ks
  assume "keys_ok t"
  then show "defined (snd (delete_loop deleteByIndex ks t 0))"
    using delete_loop_total [of t ks 0] by auto
qed simp

lemma duplicateByKey_total:
  assumes ok: "keys_ok t"
  shows "\<exists>t' b. duplicateByKey k k' t = Inr (t', b) \<and> keys_ok t'"
proof (cases "um_contains (keyMap t) k' \<or> map_of (keyMap t) k = None")
  case True
  with ok show ?thesis by (auto simp: duplicateByKey_def)
next
  case False
  then obtain i where "map_of (keyMap t) k = Some i" "row_of t k' = None"
    by (auto simp: row_of_None_iff)
  with duplicateByKey_fresh [OF ok, of k "datum (data t ! i)" k'] show ?thesis
    by (auto simp: row_of_def table_find_def)
qed

lemma dup_loop_total: "keys_ok t \<Longrightarrow> \<exists>m. snd (dup_loop ps t n) = Inr m"
proof (induction ps arbitrary: t n)
  case Nil
  then show ?case by simp
next
  case (Cons p ps)
  obtain src dst where p: "p = (src, dst)" by (cases p)
  obtain t1 b where "duplicateByKey src dst t = Inr (t1, b)" "keys_ok t1"
    using duplicateByKey_total [OF Cons.prems] by blast
  with Cons.IH [of t1] p show ?case by simp
qed

lemma defined_duplicate_body: "keys_ok t \<Longrightarrow> defined (snd (duplicate_body cs t))"
  unfolding duplicate_body_def
proof (intro defined_lift_table defined_scan_rows defined_count_result)
  show "defined (collect_copies t d ps)" for d ps
    by (simp add: collect_copies_def split: option.split)
  fix ps
  assume "keys_ok t"
  then show "defined (snd (dup_loop ps t 0))"
    using dup_loop_total [of t ps 0] by auto
qed

lemma defined_zip_row: "defined (zip_row f is d as)"
  by (induction f "is" d as rule: zip_row.induct) (auto intro!: defined_bind defined_obj_get)

lemma defined_count_body: "defined (count_body cs t)"
  unfolding count_body_def by (intro defined_bind defined_scan_rows) simp_all

lemma defined_sum_body: "defined (sum_body ops tbl cs t)"
  by (auto simp: sum_body_def defined_errorMsg3 intro!: defined_bind defined_fmt defined_res_map
      defined_getFieldIndex defined_scan_rows defined_zip_row)

lemma defined_extremum_body: "defined (extremum_body f start ops cs t)"
  unfolding extremum_body_def extremum_row_def
  by (intro defined_bind defined_res_map defined_getFieldIndex defined_scan_rows)
    (auto intro!: defined_bind defined_zip_row)

lemma defined_select_body: "defined (select_body ops cs t)"
  by (auto simp: select_body_def select_line_def Let_def
      intro!: defined_bind defined_initCondition defined_res_map defined_getFieldIndex defined_fold_rows
        defined_evalCondition defined_obj_get)

lemma execute_returns:
  assumes "db_inv db" and "oper = Op_Update \<longrightarrow> ops ! 0 \<noteq> ''KEY''"
  shows "\<exists>r. snd (execute_complex oper tbl ops cs db) = Inr r"
proof -
  have op: "returns (db, operands_error q tbl n)" for q n
    using errorMsg3_total [of q tbl] fmt_subst_append [of "''Invalid number of operands (''" "'' operands).''" "string_of_nat n"]
    by (auto simp: returns_def operands_error_def)
  have no: "returns (db, res_bind (fmt_subst ''No operand (? operands).'' (string_of_nat n)) (errorMsg3 q tbl))" for q n
    using errorMsg3_total [of q tbl] fmt_subst_append [of "''No operand (''" "'' operands).''" "string_of_nat n"]
    by (auto simp: returns_def)
  have fm: "returns (db, errorMsg3 q tbl m)" for q m
    using errorMsg3_total [of q tbl m] by (auto simp: returns_def)
  have tt: "returns (try_table h q tbl body db)"
    if "h \<in> {catch_add, catch_update, catch_count, catch_swap, catch_select, catch_duplicate}"
      "\<And>t. keys_ok t \<Longrightarrow> defined (snd (body t))" for h q body
    using that handlers_ok by (intro try_table_returns assms(1)) auto
  have "returns (execute_complex oper tbl ops cs db)"
  proof (cases oper)
    case Op_Update
    with assms(2) op tt show ?thesis by (simp add: UpdateQuery_execute_def defined_update_body)
  qed (simp_all add: execute_defs op no fm tt read_body_def defined_arith_body defined_rows defined_swap_body
      defined_insert_body defined_delete_body defined_duplicate_body defined_count_body defined_sum_body
      defined_extremum_body defined_select_body)
  then show ?thesis by (simp add: returns_def)
qed

text \<open>
  C11: on a registry in order, a data query always returns a result: every exception its body
  can throw is caught by one of its handlers, whose message can always be formatted, and no
  step leaves the defined behaviour of the language. The exception is \<open>UPDATE KEY\<close>.
\<close>

theorem execute_complex_returns:
  assumes "db_inv db" and "oper = Op_Update \<longrightarrow> ops ! 0 \<noteq> ''KEY''"
  shows "\<exists>r. snd (execute_complex oper tbl ops cs db) = Inr r"
  by (rule execute_returns [OF assms])

theorem execute_complex_returns_witness:
  "\<exists>r. snd (execute_complex Op_Sum ''t'' [''c''] demo_cs demo_db) = Inr r"
  using execute_complex_returns [of demo_db Op_Sum "[''c'']" "''t''" demo_cs] demo_db_inv by simp

end
