(* ===== verification/Query_Manage.thy ===== *)
theory Query_Manage
  imports Data_Safety
begin

section \<open>Management queries\<close>

text \<open>
  The model of src/src/query/management: the queries that load, dump, drop, truncate, copy,
  list and print tables, and \<open>QUIT\<close>, \<open>LISTEN\<close> and \<open>NOP\<close>. They act on a world of a
  database, the files and the standard output. \<open>execute\<close> is the virtual function of
  \<open>Query\<close>, over all queries.
\<close>

subsection \<open>State\<close>

text \<open>A file can be opened for reading when it is in \<open>files\<close>, for writing unless it is in
  \<open>unwritable\<close>; opening for writing truncates it.\<close>

record world =
  db :: database
  files :: files
  unwritable :: "string list"
  out :: string

definition print_out :: "string \<Rightarrow> world \<Rightarrow> world" where
  "print_out s w = w\<lparr>out := out w @ s\<rparr>"

definition write_file :: "string \<Rightarrow> string \<Rightarrow> world \<Rightarrow> world" where
  "write_file f s w = w\<lparr>files := um_put f s (files w)\<rparr>"

text \<open>\<open>catch (const std::exception &e)\<close> with the message alone.\<close>

fun catch_all :: "string \<Rightarrow> query_result res \<Rightarrow> query_result res" where
  "catch_all qname (Inr r) = Inr r"
| "catch_all qname (Inl Undefined_behaviour) = Inl Undefined_behaviour"
| "catch_all qname (Inl e) = errorMsg2 qname (what e)"

definition cannot_open :: "string \<Rightarrow> string \<Rightarrow> query_result res" where
  "cannot_open qname f =
     res_bind (fmt_subst (''Cannot open file '' @ [CHR 0x27, CHR ''?'', CHR 0x27]) f) (errorMsg2 qname)"

subsection \<open>The queries\<close>

definition LoadTableQuery_execute :: "string \<Rightarrow> world \<Rightarrow> world \<times> query_result res" where
  "LoadTableQuery_execute f w =
     (case map_of (files w) f of
        None \<Rightarrow> (w, cannot_open ''LOAD'' f)
      | Some text \<Rightarrow>
          (case loadTableFromStream text f (db w) of
             Inl e \<Rightarrow> (w, catch_all ''LOAD'' (Inl e))
           | Inr d \<Rightarrow> (w\<lparr>db := d\<rparr>, Inr NullQueryResult)))"

definition DumpTableQuery_execute :: "string \<Rightarrow> string \<Rightarrow> world \<Rightarrow> world \<times> query_result res" where
  "DumpTableQuery_execute tbl f w =
     (if f \<in> set (unwritable w) then (w, cannot_open ''DUMP'' f)
      else
        (case res_bind (db_index (db w) tbl) print_table of
           Inl e \<Rightarrow> (write_file f [] w, catch_all ''DUMP'' (Inl e))
         | Inr text \<Rightarrow> (write_file f text w, Inr NullQueryResult)))"

definition DropTableQuery_execute :: "string \<Rightarrow> world \<Rightarrow> world \<times> query_result res" where
  "DropTableQuery_execute tbl w =
     (case dropTable tbl (db w) of
        Inr d \<Rightarrow> (w\<lparr>db := d\<rparr>, Inr NullQueryResult)
      | Inl (TableNameNotFound _) \<Rightarrow> (w, errorMsg3 ''DROP'' tbl ''No such table.'')
      | Inl e \<Rightarrow> (w, catch_all ''DROP'' (Inl e)))"

definition TruncateTableQuery_execute :: "string \<Rightarrow> world \<Rightarrow> world \<times> query_result res" where
  "TruncateTableQuery_execute tbl w =
     (case db_index (db w) tbl of
        Inr t \<Rightarrow> (w\<lparr>db := db_store tbl (fst (table_clear t)) (db w)\<rparr>, Inr NullQueryResult)
      | Inl (TableNameNotFound _) \<Rightarrow> (w, errorMsg3 ''TRUNCATE'' tbl ''No such table.'')
      | Inl e \<Rightarrow> (w, catch_all ''TRUNCATE'' (Inl e)))"

definition CopyTableQuery_execute :: "string \<Rightarrow> string \<Rightarrow> world \<Rightarrow> world \<times> query_result res" where
  "CopyTableQuery_execute tbl new_table w =
     (case res_bind (db_index (db w) tbl) (\<lambda>t. registerTable (table_copy new_table t) (db w)) of
        Inr d \<Rightarrow> (w\<lparr>db := d\<rparr>, Inr NullQueryResult)
      | Inl (TableNameNotFound m) \<Rightarrow> (w, errorMsg3 ''COPYTABLE'' tbl m)
      | Inl (DuplicatedTableName m) \<Rightarrow> (w, errorMsg3 ''COPYTABLE'' new_table m)
      | Inl e \<Rightarrow> (w, catch_all ''COPYTABLE'' (Inl e)))"

definition ListTableQuery_execute :: "world \<Rightarrow> world \<times> query_result res" where
  "ListTableQuery_execute w = (print_out (printAllTable (db w)) w, successName ''LIST'')"

text \<open>Only \<open>TableNameNotFound\<close> is caught here.\<close>

definition PrintTableQuery_execute :: "string \<Rightarrow> world \<Rightarrow> world \<times> query_result res" where
  "PrintTableQuery_execute tbl w =
     (case db_index (db w) tbl of
        Inl (TableNameNotFound _) \<Rightarrow> (w, errorMsg3 ''SHOWTABLE'' tbl ''No such table.'')
      | Inl e \<Rightarrow> (w, Inl e)
      | Inr t \<Rightarrow>
          (let w1 = print_out (''================'' @ [CHR 0x0A] @ ''TABLE = '') w
           in case print_table t of
                Inl e \<Rightarrow> (w1, Inl e)
              | Inr s \<Rightarrow> (print_out (s @ ''================'' @ [CHR 0x0A, CHR 0x0A]) w1, successMsg2 ''SHOWTABLE'' tbl)))"

definition QuitQuery_execute :: "world \<Rightarrow> world \<times> query_result res" where
  "QuitQuery_execute w = (w, Inl QuitException)"

definition ListenQuery_execute :: "string \<Rightarrow> world \<Rightarrow> world \<times> query_result res" where
  "ListenQuery_execute f w = (w, Inr (SuccessMsgResult (''ANSWER = ( listening from '' @ f @ '' )'')))"

fun execute :: "query \<Rightarrow> world \<Rightarrow> world \<times> query_result res" where
  "execute (LoadTableQuery tbl f) w = LoadTableQuery_execute f w"
| "execute (DumpTableQuery tbl f) w = DumpTableQuery_execute tbl f w"
| "execute (DropTableQuery tbl) w = DropTableQuery_execute tbl w"
| "execute (TruncateTableQuery tbl) w = TruncateTableQuery_execute tbl w"
| "execute (CopyTableQuery tbl n) w = CopyTableQuery_execute tbl n w"
| "execute ListTableQuery w = ListTableQuery_execute w"
| "execute (PrintTableQuery tbl) w = PrintTableQuery_execute tbl w"
| "execute QuitQuery w = QuitQuery_execute w"
| "execute (ListenQuery f) w = ListenQuery_execute f w"
| "execute NopQuery w = (w, Inr NullQueryResult)"
| "execute (ComplexQuery oper tbl ops cs) w =
     (let (d, r) = execute_complex oper tbl ops cs (db w) in (w\<lparr>db := d\<rparr>, r))"

subsection \<open>Registry and reads\<close>

text \<open>A query that renames keys.\<close>

fun renames_keys :: "query \<Rightarrow> bool" where
  "renames_keys (ComplexQuery oper tbl ops cs) \<longleftrightarrow> oper = Op_Update \<and> ops ! 0 = ''KEY''"
| "renames_keys _ \<longleftrightarrow> False"

lemma db_inv_clear:
  assumes "db_inv d" and "db_index d tbl = Inr t"
  shows "db_inv (db_store tbl (fst (table_clear t)) d)"
  using db_inv_index [OF assms] assms(1)
  by (intro db_inv_store) (simp_all add: table_clear_def keys_ok_def fields_ok_def)

lemma db_inv_copy:
  assumes "db_inv d" and "db_index d tbl = Inr t" and "registerTable (table_copy n t) d = Inr d'"
  shows "db_inv d'"
  using db_inv_index [OF assms(1,2)]
  by (intro db_inv_register [OF assms(1) _ _ assms(3)]) (simp_all add: table_copy_def keys_ok_def fields_ok_def)

lemma execute_keeps:
  assumes "db_inv (db w)" and "\<not> renames_keys q"
  shows "db_inv (db (fst (execute q w)))"
proof (cases q)
  case (LoadTableQuery tbl f)
  with assms(1) show ?thesis
    by (auto simp: LoadTableQuery_execute_def db_inv_load split: option.split sum.split)
next
  case (DropTableQuery tbl)
  with assms(1) show ?thesis
    by (auto simp: DropTableQuery_execute_def db_inv_drop split: sum.split exn.split)
next
  case (TruncateTableQuery tbl)
  with assms(1) show ?thesis
    by (auto simp: TruncateTableQuery_execute_def db_inv_clear split: sum.split exn.split)
next
  case (CopyTableQuery tbl n)
  with assms(1) show ?thesis
    by (auto simp: CopyTableQuery_execute_def res_simps db_inv_copy split: sum.split exn.split)
next
  case (ComplexQuery oper tbl ops cs)
  with assms execute_complex_keeps [of "db w" oper ops tbl cs] show ?thesis
    by (simp add: split_beta)
qed (use assms(1) in \<open>auto simp: DumpTableQuery_execute_def ListTableQuery_execute_def PrintTableQuery_execute_def
      QuitQuery_execute_def ListenQuery_execute_def print_out_def write_file_def Let_def split: sum.split exn.split\<close>)

text \<open>
  C12: every query, management or data and whatever its outcome, keeps the registry in order
  (tables under their names, keys unique and indexed, columns indexed), unless it is an
  \<open>UPDATE\<close> of the key.
\<close>

theorem execute_inv:
  assumes "db_inv (db w)" and "\<not> renames_keys q"
  shows "db_inv (db (fst (execute q w)))"
  using execute_keeps [OF assms] .

definition demo_world :: world where
  "demo_world = \<lparr>db = demo_db, files = [], unwritable = [''ro''], out = []\<rparr>"

theorem execute_inv_witness:
  "db_inv (db (fst (execute (CopyTableQuery ''t'' ''u'') demo_world)))"
  using execute_inv [of demo_world "CopyTableQuery ''t'' ''u''"] demo_db_inv by (simp add: demo_world_def)

text \<open>
  C31: every query that the classification calls a read, which the runtime runs under a shared
  lock, leaves the database as it was, whatever its outcome.
\<close>

theorem execute_read:
  assumes "getQueryKind (queryType q) = Kind_Read"
  shows "db (fst (execute q w)) = db w"
proof (cases q)
  case (ComplexQuery oper tbl ops cs)
  with assms execute_complex_reads [of oper tbl ops cs "db w"] show ?thesis
    by (simp add: split_beta)
qed (use assms in \<open>auto simp: DumpTableQuery_execute_def ListTableQuery_execute_def PrintTableQuery_execute_def
      print_out_def write_file_def Let_def split: sum.split exn.split\<close>)

theorem execute_read_witness:
  "db (fst (execute (DumpTableQuery ''t'' ''f'') demo_world)) = demo_db"
  using execute_read [of "DumpTableQuery ''t'' ''f''" demo_world] by (simp add: demo_world_def)

subsection \<open>Loading, dumping and copying\<close>

lemma registerTable_db: "registerTable t d = Inr d' \<Longrightarrow>
    d' = db_store (tableName t) t d \<and> map_of (tables d) (tableName t) = None"
  by (auto simp: registerTable_def db_store_def um_contains_def split: if_splits)

lemma loadTableFromStream_stores:
  "loadTableFromStream text source d = Inr d' \<Longrightarrow>
   \<exists>t. d' = db_store (tableName t) t d \<and> map_of (tables d) (tableName t) = None"
  by (auto simp: loadTableFromStream_def res_simps dest!: registerTable_db split: prod.splits)

lemma db_store_drop:
  "map_of (tables d) n = Some t \<Longrightarrow> dropTable n d = Inr (d\<lparr>tables := um_erase n (tables d)\<rparr>)"
  by (auto simp: dropTable_def um_contains_def)

text \<open>
  C20: \<open>DUMP\<close> to a writable file, \<open>DROP\<close> and \<open>LOAD\<close> give a table back when it is \<open>dumpable\<close> (its name, its keys and its
  columns are words without blanks, its column names and values take fewer than ten characters) and has one value
  per column in every row: same columns, same rows in the same order, same rows by key, in order; every other table
  is untouched. What happens to wider values is below.
\<close>

theorem dump_drop_load:
  assumes "db_inv (db w)" and "db_index (db w) n = Inr t" and "rows_ok t" and "dumpable t"
    and "f \<notin> set (unwritable w)"
    and w1: "w1 = fst (execute (DumpTableQuery n f) w)"
    and w2: "w2 = fst (execute (DropTableQuery n) w1)"
  shows "\<exists>t'. execute (LoadTableQuery n f) w2 = (w2\<lparr>db := db_store n t' (db w2)\<rparr>, Inr NullQueryResult) \<and>
     table_inv t' \<and> tfields t' = tfields t \<and> data t' = data t \<and> row_of t' = row_of t \<and>
     (\<forall>m. m \<noteq> n \<longrightarrow> map_of (tables (db_store n t' (db w2))) m = map_of (tables (db w)) m)"
proof -
  have t: "map_of (tables (db w)) n = Some t" "tableName t = n" "table_inv t"
    using db_inv_index [OF assms(1,2)] assms(3) by (simp_all add: table_inv_def)
  obtain tx where tx: "print_table t = Inr tx"
    using print_table_text [OF assms(3)] by blast
  have w1': "w1 = write_file f tx w"
    using assms(2,5) tx by (simp add: w1 DumpTableQuery_execute_def)
  have w2': "w2 = w1\<lparr>db := (db w)\<lparr>tables := um_erase n (tables (db w))\<rparr>\<rparr>"
    using db_store_drop [OF t(1)] by (simp add: w2 w1' DropTableQuery_execute_def write_file_def)
  have "map_of (files w2) f = Some tx"
    by (simp add: w2' w1' write_file_def umap_simps)
  moreover have "\<not> um_contains (tables (db w2)) (tableName t)"
    using t(2) by (simp add: w2' um_contains_def map_of_um_erase)
  from load_dump [OF t(3) assms(4) this tx, of f] obtain t' where
    "loadTableFromStream tx f (db w2) = Inr (db_store n t' (db w2))" "table_inv t'"
    "tfields t' = tfields t" "data t' = data t" "row_of t' = row_of t"
    using t(2) by auto
  moreover have "map_of (tables (db_store n t' (db w2))) m = map_of (tables (db w)) m" if "m \<noteq> n" for m t'
    using that by (simp add: db_store_def w2' umap_simps)
  ultimately show ?thesis
    by (intro exI [of _ t']) (simp add: LoadTableQuery_execute_def)
qed

lemma demo_dumpable: "dumpable demo_table"
  by (simp add: dumpable_def demo_table_def is_cell_def is_word_def is_space_def string_of_int_def string_of_nat.simps)

definition demo_dumped :: world where
  "demo_dumped = fst (execute (DumpTableQuery ''t'' ''f'') demo_world)"

definition demo_dropped :: world where
  "demo_dropped = fst (execute (DropTableQuery ''t'') demo_dumped)"

theorem dump_drop_load_witness:
  "\<exists>t'. execute (LoadTableQuery ''t'' ''f'') demo_dropped =
     (demo_dropped\<lparr>db := db_store ''t'' t' (db demo_dropped)\<rparr>, Inr NullQueryResult) \<and> data t' = data demo_table"
proof -
  have "db demo_world = demo_db" "''f'' \<notin> set (unwritable demo_world)"
    by (simp_all add: demo_world_def)
  then show ?thesis
    using dump_drop_load [of demo_world "''t''" demo_table "''f''", OF _ _ _ demo_dumpable _ demo_dumped_def demo_dropped_def]
      demo_db_inv query_ok_inv [OF demo_ok(1)] by (simp only: demo_index) blast
qed

text \<open>
  The columns are printed with \<open>setw(10)\<close> and nothing between them, so a value of ten characters in the first column runs
  into the key: the dumped file cannot be loaded, and after the \<open>DROP\<close> the table is gone.
\<close>

definition wide_table :: table where
  "wide_table = \<lparr>tableName = ''t'', tfields = [''a''], fieldMap = [(''a'', 0)],
     data = [\<lparr>key = ''x'', datum = [1234567890]\<rparr>], keyMap = [(''x'', 0)]\<rparr>"

definition wide_text :: string where
  "wide_text = ''t'' @ [CHR 0x09] @ ''2'' @ [CHR 0x0A] @ ''       KEY         a'' @ [CHR 0x0A] @ ''         x1234567890'' @ [CHR 0x0A]"

lemma wide_value: "string_of_int 1234567890 = ''1234567890''"
proof -
  have "string_of_nat 1234567890 = map digit_char [1, 2, 3, 4, 5, 6, 7, 8, 9, 0]"
    by (simp add: string_of_nat.simps [of "numeral n" for n] string_of_nat.simps [of "Suc 0"])
  also have "\<dots> = ''1234567890''" by code_simp
  finally show ?thesis by (simp add: string_of_int_def)
qed

lemma wide_head: "string_of_nat (length (tfields wide_table) + 1) = ''2''" "setw 10 ''x'' = ''         x''"
  "concat (map (setw 10) (tfields wide_table)) = ''         a''" "setw 10 ''1234567890'' = ''1234567890''"
  "setw 10 ''KEY'' = ''       KEY''"
  by code_simp+

lemma wide_print: "print_table wide_table = Inr wide_text"
proof -
  have r: "print_row 1 \<lparr>key = ''x'', datum = [1234567890]\<rparr> = Inr (''         x'' @ ''1234567890'' @ [CHR 0x0A])"
    unfolding print_row_def by (simp add: wide_value wide_head)
  have "data wide_table = [\<lparr>key = ''x'', datum = [1234567890]\<rparr>]" "length (tfields wide_table) = 1" "tableName wide_table = ''t''" by (simp_all add: wide_table_def)
  then show ?thesis unfolding print_table_def wide_text_def wide_head by (simp add: r [unfolded One_nat_def])
qed

definition wide_world :: world where
  "wide_world = \<lparr>db = \<lparr>tables = [(''t'', wide_table)], fileTableNameMap = []\<rparr>, files = [], unwritable = [], out = []\<rparr>"

lemma wide_load: "case execute (LoadTableQuery ''t'' ''f'')
    \<lparr>db = \<lparr>tables = [], fileTableNameMap = []\<rparr>, files = [(''f'', wide_text)], unwritable = [], out = []\<rparr> of
   (w, Inr (ErrorMsgResult m)) \<Rightarrow> tables (db w) = [] | _ \<Rightarrow> False"
  by code_simp

theorem wide_value_lost:
  assumes w: "w = fst (execute (DropTableQuery ''t'') (fst (execute (DumpTableQuery ''t'' ''f'') wide_world)))"
  shows "map_of (files w) ''f'' = Some wide_text \<and>
     (\<exists>w' m. execute (LoadTableQuery ''t'' ''f'') w = (w', Inr (ErrorMsgResult m)) \<and> tables (db w') = [])"
proof -
  have "w = \<lparr>db = \<lparr>tables = [], fileTableNameMap = []\<rparr>, files = [(''f'', wide_text)], unwritable = [], out = []\<rparr>"
    by (simp add: w wide_world_def DumpTableQuery_execute_def DropTableQuery_execute_def wide_print write_file_def
      db_index_def dropTable_def um_contains_def um_erase_def um_put_def)
  with wide_load show ?thesis by (auto split: prod.splits sum.splits query_result.splits)
qed

text \<open>
  \<open>COPYTABLE\<close> to a free name adds a table with the rows and columns of the source, in
  order when the source is, and changes neither the source nor any other table.
\<close>

theorem copy_table_correct:
  assumes "db_index (db w) n = Inr t" and "map_of (tables (db w)) n' = None"
  shows "\<exists>w'. execute (CopyTableQuery n n') w = (w', Inr NullQueryResult) \<and>
     map_of (tables (db w')) = (map_of (tables (db w)))(n' \<mapsto> table_copy n' t) \<and>
     data (table_copy n' t) = data t \<and> tfields (table_copy n' t) = tfields t \<and>
     row_of (table_copy n' t) = row_of t \<and> (table_inv t \<longrightarrow> table_inv (table_copy n' t))"
proof -
  have "registerTable (table_copy n' t) (db w) = Inr ((db w)\<lparr>tables := um_put n' (table_copy n' t) (tables (db w))\<rparr>)"
    using assms(2) by (simp add: registerTable_def um_contains_def table_copy_def)
  then show ?thesis
    using assms(1)
    by (simp add: CopyTableQuery_execute_def map_of_um_put)
      (auto simp: table_copy_def row_of_def table_find_def table_inv_def keys_ok_def fields_ok_def rows_ok_def)
qed

theorem copy_table_correct_witness:
  "\<exists>w'. execute (CopyTableQuery ''t'' ''u'') demo_world = (w', Inr NullQueryResult)"
proof -
  have "db_index (db demo_world) ''t'' = Inr demo_table" "map_of (tables (db demo_world)) ''u'' = None"
    by (simp_all add: demo_world_def) (simp add: demo_db_def)
  from copy_table_correct [OF this] show ?thesis by blast
qed

text \<open>
  \<open>DUMP\<close> opens, and so empties, the output file before it looks the table up: dumping a
  table that does not exist reports an error and destroys the contents of the file.
\<close>

theorem dump_missing_truncates:
  assumes "map_of (tables (db w)) n = None" and "f \<notin> set (unwritable w)"
  shows "\<exists>w' m. execute (DumpTableQuery n f) w = (w', Inr (ErrorMsgResult m)) \<and> map_of (files w') f = Some []"
  using assms errorMsg2_total
  by (simp add: DumpTableQuery_execute_def db_index_def write_file_def map_of_um_put)

theorem dump_missing_truncates_witness:
  "\<exists>w' m. execute (DumpTableQuery ''u'' ''f'') demo_world = (w', Inr (ErrorMsgResult m)) \<and> map_of (files w') ''f'' = Some []"
  using dump_missing_truncates [of demo_world "''u''" "''f''"] by (simp add: demo_world_def demo_db_def)

subsection \<open>Descriptions\<close>

text \<open>\<open>toString\<close>, with the unbalanced quotation marks of the source.\<close>

fun complex_toString :: "complex_op \<Rightarrow> string \<Rightarrow> string" where
  "complex_toString Op_Add t = ''QUERY = ADD '' @ t @ [CHR 0x22]"
| "complex_toString Op_Count t = ''QUERY = COUNT FROM '' @ t @ [CHR 0x22]"
| "complex_toString Op_Delete t = ''QUERY = DELETE '' @ t @ [CHR 0x22]"
| "complex_toString Op_Duplicate t = ''QUERY = DUPLICATE FROM '' @ t"
| "complex_toString Op_Insert t = ''QUERY = INSERT '' @ t @ [CHR 0x22]"
| "complex_toString Op_Max t = ''QUERY = MAX '' @ t @ [CHR 0x22]"
| "complex_toString Op_Min t = ''QUERY = MIN '' @ t @ [CHR 0x22]"
| "complex_toString Op_Select t = ''QUERY = SELECT '' @ t @ [CHR 0x22]"
| "complex_toString Op_Sub t = ''QUERY = SUB '' @ t @ [CHR 0x22]"
| "complex_toString Op_Sum t = ''QUERY = SUM FROM '' @ t @ [CHR 0x22]"
| "complex_toString Op_Swap t = ''QUERY = SWAP FROM '' @ t"
| "complex_toString Op_Update t = ''QUERY = UPDATE '' @ t @ [CHR 0x22]"

fun toString :: "query \<Rightarrow> string" where
  "toString (LoadTableQuery t f) = ''QUERY = Load TABLE, FILE = '' @ quoted f"
| "toString (DumpTableQuery t f) = ''QUERY = Dump TABLE, FILE = '' @ quoted f"
| "toString (DropTableQuery t) = ''QUERY = DROP, Table = '' @ quoted t"
| "toString (TruncateTableQuery t) = ''QUERY = TRUNCATE, Table = '' @ quoted t"
| "toString (CopyTableQuery t n) = ''QUERY = COPYTABLE, FROM '' @ t @ '' TO '' @ n"
| "toString ListTableQuery = ''QUERY = LIST''"
| "toString QuitQuery = ''QUERY = Quit''"
| "toString (PrintTableQuery t) = ''QUERY = SHOWTABLE, Table = '' @ quoted t"
| "toString (ListenQuery f) = ''QUERY = LISTEN, FILE = '' @ quoted f"
| "toString NopQuery = ''QUERY = NOOP''"
| "toString (ComplexQuery oper t _ _) = complex_toString oper t"

end
