(* ===== verification/Query_Parser.thy ===== *)
theory Query_Parser
  imports Query_Manage
begin

section \<open>Parsing queries\<close>

text \<open>
  The model of src/src/query/QueryParser.h, QueryParser.cpp, QueryBuilders.h and
  QueryBuilders.cpp: the tokenizer, the chain of builders and the parser of the data
  queries. A vector iterator is the list of the tokens that are left; reading through the
  end iterator is undefined. The diagnostics on the error stream are not modelled.

  \<open>clear\<close> empties the members of the builders before every parse, so the table, operands
  and conditions a parse collects are values it returns.
\<close>

subsection \<open>Tokens\<close>

lemma read_word_shorter: "read_word s = Some (w, rest) \<Longrightarrow> length rest < length s"
proof -
  assume r: "read_word s = Some (w, rest)"
  let ?s = "skip_ws s"
  have "w = takeWhile (\<lambda>c. \<not> is_space c) ?s" "rest = dropWhile (\<lambda>c. \<not> is_space c) ?s" "w \<noteq> []"
    using r by (auto simp: read_word_def Let_def split: if_splits)
  then have "length w + length rest = length ?s" "w \<noteq> []"
    by (metis length_append takeWhile_dropWhile_id) (use r in \<open>auto simp: read_word_def Let_def split: if_splits\<close>)
  moreover have "length ?s \<le> length s"
    by (simp add: skip_ws_def length_dropWhile_le)
  ultimately show ?thesis by (cases w) auto
qed

function tokens_of :: "string \<Rightarrow> string list" where
  "tokens_of s = (case read_word s of None \<Rightarrow> [] | Some (t, rest) \<Rightarrow> t # tokens_of rest)"
  by pat_completeness auto

termination
  by (relation "measure length") (auto dest: read_word_shorter)

declare tokens_of.simps [simp del]

record tokenized =
  token :: "string list"
  rawQueryString :: string

definition tokenizeQueryString :: "string \<Rightarrow> tokenized" where
  "tokenizeQueryString s = \<lparr>token = tokens_of s, rawQueryString = s\<rparr>"

subsection \<open>Operands and conditions\<close>

text \<open>The loop of \<open>parseOperands\<close>, entered with the iterator dereferenced.\<close>

fun operand_loop :: "string list \<Rightarrow> (string list \<times> string list) res" where
  "operand_loop [] = Inl Undefined_behaviour"
| "operand_loop (t # ts) =
     (if t = '')'' then Inr ([], ts)
      else if ts = [] then Inl (IllFormedQuery ''Ill-formed operand'')
      else res_bind (operand_loop ts) (\<lambda>(ops, rest). Inr (t # ops, rest)))"

fun parseOperands :: "string list \<Rightarrow> (string list \<times> string list) res" where
  "parseOperands [] = Inl Undefined_behaviour"
| "parseOperands (t # ts) =
     (if t \<noteq> ''('' then Inl (IllFormedQuery ''Ill-formed operand.'') else operand_loop ts)"

definition new_cond :: "string \<Rightarrow> string \<Rightarrow> string \<Rightarrow> query_condition" where
  "new_cond f o' v =
     \<lparr>field = f, fieldId = 0, op = o', comp = No_comp, cvalue = v, valueParsed = 0\<rparr>"

fun parseWhereConditions :: "string list \<Rightarrow> query_condition list res" where
  "parseWhereConditions [] = Inr []"
| "parseWhereConditions (t # ts) =
     (if t \<noteq> ''('' then Inl (IllFormedQuery ''Ill-formed query condition'')
      else
        (case ts of
           [] \<Rightarrow> Inl (IllFormedQuery ''Missing field in condition'')
         | [f] \<Rightarrow> Inl (IllFormedQuery ''Missing operator in condition'')
         | [f, o'] \<Rightarrow> Inl (IllFormedQuery ''Missing  in condition'')
         | [f, o', v] \<Rightarrow> Inl (IllFormedQuery ''Ill-formed query condition'')
         | f # o' # v # e # rest \<Rightarrow>
             if e \<noteq> '')'' then Inl (IllFormedQuery ''Ill-formed query condition'')
             else res_bind (parseWhereConditions rest) (\<lambda>cs. Inr (new_cond f o' v # cs))))"

text \<open>\<open>FROM table\<close> and the optional \<open>WHERE\<close> clause, the iterator on \<open>FROM\<close>.\<close>

fun parse_from :: "string list \<Rightarrow> (string \<times> query_condition list) res" where
  "parse_from (_ # tbl # rest) =
     (case rest of
        [] \<Rightarrow> Inr (tbl, [])
      | t # ts \<Rightarrow>
          if t \<noteq> ''WHERE'' then
            res_bind (fmt_subst (''Expecting '' @ quoted ''WHERE'' @ '', found '' @ quoted ''?'' @ ''.'') t)
              (\<lambda>m. Inl (IllFormedQuery m))
          else res_bind (parseWhereConditions ts) (\<lambda>cs. Inr (tbl, cs)))"
| "parse_from _ = Inl (IllFormedQuery ''Missing targed table'')"

definition parseToken :: "string list \<Rightarrow> (string \<times> string list \<times> query_condition list) res" where
  "parseToken ts =
     (case tl ts of
        [] \<Rightarrow> Inl (IllFormedQuery ''Missing FROM clause'')
      | t # rest \<Rightarrow>
          if t \<noteq> ''FROM'' then
            res_bind (parseOperands (t # rest)) (\<lambda>(ops, rest').
              if rest' = [] \<or> hd rest' \<noteq> ''FROM'' then Inl (IllFormedQuery ''Missing FROM clause'')
              else res_bind (parse_from rest') (\<lambda>(tbl, cs). Inr (tbl, ops, cs)))
          else res_bind (parse_from (t # rest)) (\<lambda>(tbl, cs). Inr (tbl, [], cs)))"

subsection \<open>The builders\<close>

datatype builder = FakeQueryBuilder | DebugQueryBuilder | ManageTableQueryBuilder | ComplexQueryBuilder

definition complex_names :: "(string, complex_op) umap" where
  "complex_names =
     [(''INSERT'', Op_Insert), (''UPDATE'', Op_Update), (''SELECT'', Op_Select), (''DELETE'', Op_Delete),
      (''DUPLICATE'', Op_Duplicate), (''COUNT'', Op_Count), (''SUM'', Op_Sum), (''MIN'', Op_Min),
      (''MAX'', Op_Max), (''ADD'', Op_Add), (''SUB'', Op_Sub), (''SWAP'', Op_Swap)]"

text \<open>
  What one builder makes of the tokens: a query, an error, or \<open>None\<close> to pass the tokens on.
  \<open>LOAD\<close> and \<open>DUMP\<close> touch the table names of files while parsing.
\<close>

definition debug_extract :: "string list \<Rightarrow> query option" where
  "debug_extract ts =
     (case ts of
        [a] \<Rightarrow> if a = ''LIST'' then Some ListTableQuery
               else if a = ''QUIT'' then Some QuitQuery else None
      | [a, b] \<Rightarrow> if a = ''SHOWTABLE'' then Some (PrintTableQuery b) else None
      | [a, b, c, d] \<Rightarrow> if a = ''LISTEN'' \<and> b = ''('' \<and> d = '')'' then Some (ListenQuery c) else None
      | _ \<Rightarrow> None)"

definition manage_extract :: "string list \<Rightarrow> world \<Rightarrow> (world \<times> query) option" where
  "manage_extract ts w =
     (case ts of
        [a, b] \<Rightarrow>
          if a = ''LOAD'' then
            (let (n, d) = getFileTableName (files w) b (db w) in Some (w\<lparr>db := d\<rparr>, LoadTableQuery n b))
          else if a = ''DROP'' then Some (w, DropTableQuery b)
          else if a = ''TRUNCATE'' then Some (w, TruncateTableQuery b)
          else None
      | [a, b, c] \<Rightarrow>
          if a = ''DUMP'' then Some (w\<lparr>db := updateFileTableName c b (db w)\<rparr>, DumpTableQuery b c)
          else if a = ''COPYTABLE'' then Some (w, CopyTableQuery b c)
          else None
      | _ \<Rightarrow> None)"

definition complex_extract :: "string list \<Rightarrow> query option res" where
  "complex_extract ts =
     (case parseToken ts of
        Inl (IllFormedQuery _) \<Rightarrow> Inr None
      | Inl e \<Rightarrow> Inl e
      | Inr (tbl, ops, cs) \<Rightarrow> Inr (map_option (\<lambda>oper. ComplexQuery oper tbl ops cs) (map_of complex_names (hd ts))))"

text \<open>The chain; behind its last builder stands a \<open>FailedQueryBuilder\<close>.\<close>

fun tryExtractQuery :: "builder list \<Rightarrow> tokenized \<Rightarrow> world \<Rightarrow> world \<times> query res" where
  "tryExtractQuery [] q w = (w, Inl (QueryBuilderMatchFailed (rawQueryString q)))"
| "tryExtractQuery (FakeQueryBuilder # bs) q w = tryExtractQuery bs q w"
| "tryExtractQuery (DebugQueryBuilder # bs) q w =
     (case debug_extract (token q) of
        Some r \<Rightarrow> (w, Inr r)
      | None \<Rightarrow> tryExtractQuery bs q w)"
| "tryExtractQuery (ManageTableQueryBuilder # bs) q w =
     (case manage_extract (token q) w of
        Some (w', r) \<Rightarrow> (w', Inr r)
      | None \<Rightarrow> tryExtractQuery bs q w)"
| "tryExtractQuery (ComplexQueryBuilder # bs) q w =
     (case complex_extract (token q) of
        Inl e \<Rightarrow> (w, Inl e)
      | Inr (Some r) \<Rightarrow> (w, Inr r)
      | Inr None \<Rightarrow> tryExtractQuery bs q w)"

text \<open>A parser is its chain of builders, empty as long as \<open>first\<close> is null.\<close>

definition registerQueryBuilder :: "builder \<Rightarrow> builder list \<Rightarrow> builder list" where
  "registerQueryBuilder b bs = bs @ [b]"

definition parseQuery :: "builder list \<Rightarrow> string \<Rightarrow> world \<Rightarrow> world \<times> query res" where
  "parseQuery bs s w =
     (if bs = [] then (w, Inl (QueryBuilderMatchFailed s))
      else
        (let q = tokenizeQueryString s
         in if token q = [] then (w, Inl (QueryBuilderMatchFailed [])) else tryExtractQuery bs q w))"

text \<open>The parser that \<open>main\<close> sets up.\<close>

definition main_parser :: "builder list" where
  "main_parser =
     registerQueryBuilder ComplexQueryBuilder (registerQueryBuilder ManageTableQueryBuilder
       (registerQueryBuilder DebugQueryBuilder []))"


subsection \<open>Tokens of printed text\<close>

definition unwords :: "string list \<Rightarrow> string" where
  "unwords ws = concat (map (\<lambda>w. '' '' @ w) ws)"

lemma tokens_of_word:
  "is_word w \<Longrightarrow> stops_word rest \<Longrightarrow> tokens_of ('' '' @ w @ rest) = w # tokens_of rest"
  using read_word_word [of w rest 1] by (subst tokens_of.simps) (simp add: is_word_def)

lemma unwords_stops: "stops_word (unwords ws)"
  by (cases ws) (simp_all add: unwords_def stops_word_def)

lemma tokens_of_unwords: "list_all is_word ws \<Longrightarrow> tokens_of (unwords ws) = ws"
proof (induction ws)
  case Nil
  then show ?case by (subst tokens_of.simps) (simp add: unwords_def read_word_def skip_ws_def)
next
  case (Cons w ws)
  have "unwords (w # ws) = '' '' @ w @ unwords ws" by (simp add: unwords_def)
  with Cons tokens_of_word [of w "unwords ws"] unwords_stops show ?case by simp
qed

lemma read_word_is_word: "read_word s = Some (w, rest) \<Longrightarrow> is_word w"
  by (auto simp: read_word_def Let_def is_word_def split: if_splits dest: set_takeWhileD)

lemma tokens_of_words: "t \<in> set (tokens_of s) \<Longrightarrow> is_word t"
proof (induction s rule: tokens_of.induct)
  case (1 s)
  show ?case
  proof (cases "read_word s")
    case None
    with "1.prems" show ?thesis by (simp add: tokens_of.simps [of s])
  next
    case (Some p)
    obtain w rest where p: "p = (w, rest)" by (cases p)
    with Some "1.prems" have "t = w \<or> t \<in> set (tokens_of rest)" by (simp add: tokens_of.simps [of s])
    then show ?thesis using "1.IH" Some p read_word_is_word by blast
  qed
qed

subsection \<open>Printing and parsing data queries\<close>

definition complex_name :: "complex_op \<Rightarrow> string" where
  "complex_name oper =
     (case oper of Op_Insert \<Rightarrow> ''INSERT'' | Op_Update \<Rightarrow> ''UPDATE'' | Op_Select \<Rightarrow> ''SELECT''
      | Op_Delete \<Rightarrow> ''DELETE'' | Op_Duplicate \<Rightarrow> ''DUPLICATE'' | Op_Count \<Rightarrow> ''COUNT''
      | Op_Sum \<Rightarrow> ''SUM'' | Op_Min \<Rightarrow> ''MIN'' | Op_Max \<Rightarrow> ''MAX'' | Op_Add \<Rightarrow> ''ADD''
      | Op_Sub \<Rightarrow> ''SUB'' | Op_Swap \<Rightarrow> ''SWAP'')"

lemma complex_names_name [simp]: "map_of complex_names (complex_name oper) = Some oper"
  by (cases oper) (simp_all add: complex_names_def complex_name_def)

lemma complex_name_word: "is_word (complex_name oper)"
  by (cases oper) (simp_all add: complex_name_def is_word_def is_space_def)

definition cond_tokens :: "string \<times> string \<times> string \<Rightarrow> string list" where
  "cond_tokens = (\<lambda>(f, o', v). [''('', f, o', v, '')''])"

definition complex_tokens ::
  "complex_op \<Rightarrow> string \<Rightarrow> string list \<Rightarrow> (string \<times> string \<times> string) list \<Rightarrow> string list" where
  "complex_tokens oper tbl ops cs =
     complex_name oper # ''('' # ops @ '')'' # ''FROM'' # tbl #
       (if cs = [] then [] else ''WHERE'' # concat (map cond_tokens cs))"

definition make_conds :: "(string \<times> string \<times> string) list \<Rightarrow> query_condition list" where
  "make_conds cs = map (\<lambda>(f, o', v). new_cond f o' v) cs"

lemma operand_loop_print: "'')'' \<notin> set ops \<Longrightarrow> operand_loop (ops @ '')'' # rest) = Inr (ops, rest)"
  by (induction ops) auto

lemma parseWhereConditions_print: "parseWhereConditions (concat (map cond_tokens cs)) = Inr (make_conds cs)"
  by (induction cs) (auto simp: cond_tokens_def make_conds_def)

lemma parseToken_print:
  assumes "'')'' \<notin> set ops"
  shows "parseToken (complex_tokens oper tbl ops cs) = Inr (tbl, ops, make_conds cs)"
  using operand_loop_print [OF assms] parseWhereConditions_print [of cs]
  by (simp add: parseToken_def complex_tokens_def make_conds_def)

lemma complex_tokens_words:
  assumes "list_all is_word ops" "is_word tbl" "list_all (\<lambda>(f, o', v). is_word f \<and> is_word o' \<and> is_word v) cs"
  shows "list_all is_word (complex_tokens oper tbl ops cs)"
proof -
  have "list_all is_word (concat (map cond_tokens cs))"
    using assms(3) by (induction cs) (auto simp: cond_tokens_def is_word_def is_space_def)
  then show ?thesis
    using assms(1,2) complex_name_word by (auto simp: complex_tokens_def is_word_def is_space_def)
qed

lemma complex_tokens_length: "\<exists>a b c d e ts. complex_tokens oper tbl ops cs = a # b # c # d # e # ts"
  by (cases ops; cases "tl ops"; cases "tl (tl ops)") (auto simp: complex_tokens_def)

lemma parse_print:
  assumes "list_all is_word ops" "is_word tbl" "list_all (\<lambda>(f, o', v). is_word f \<and> is_word o' \<and> is_word v) cs"
    and "'')'' \<notin> set ops"
  shows "parseQuery main_parser (unwords (complex_tokens oper tbl ops cs)) w =
     (w, Inr (ComplexQuery oper tbl ops (make_conds cs)))"
proof -
  let ?ts = "complex_tokens oper tbl ops cs"
  have tok: "tokens_of (unwords ?ts) = ?ts"
    using tokens_of_unwords complex_tokens_words [OF assms(1-3)] by blast
  obtain a b c d e ts where long: "?ts = a # b # c # d # e # ts"
    using complex_tokens_length by blast
  then have skip: "debug_extract ?ts = None" "manage_extract ?ts w = None"
    by (simp_all add: debug_extract_def manage_extract_def)
  have "hd ?ts = complex_name oper" by (simp add: complex_tokens_def)
  then have "complex_extract ?ts = Inr (Some (ComplexQuery oper tbl ops (make_conds cs)))"
    by (simp add: complex_extract_def parseToken_print [OF assms(4)])
  moreover have "?ts \<noteq> []" by (simp add: complex_tokens_def)
  ultimately show ?thesis
    using skip by (simp add: parseQuery_def main_parser_def registerQueryBuilder_def tokenizeQueryString_def tok)
qed

text \<open>
  the parser that \<open>main\<close> sets up reads back every data query that is printed as words:
  the same operation, table, operands and conditions, with no effect on the world. An operand
  must not be a closing parenthesis.
\<close>

theorem parse_print_complex:
  assumes "list_all is_word ops" "is_word tbl" "list_all (\<lambda>(f, o', v). is_word f \<and> is_word o' \<and> is_word v) cs"
    and "'')'' \<notin> set ops"
  shows "parseQuery main_parser (unwords (complex_tokens oper tbl ops cs)) w =
     (w, Inr (ComplexQuery oper tbl ops (make_conds cs)))"
  using parse_print [OF assms] .

theorem parse_print_complex_witness:
  "parseQuery main_parser (unwords (complex_tokens Op_Sum ''t'' [''a''] [(''a'', ''>'', ''1'')])) demo_world =
     (demo_world, Inr (ComplexQuery Op_Sum ''t'' [''a''] (make_conds [(''a'', ''>'', ''1'')])))"
  by (rule parse_print_complex) (simp_all add: is_word_def is_space_def)

subsection \<open>Failures and undefined behaviour\<close>

lemma operand_loop_undefined: "operand_loop ts = Inl Undefined_behaviour \<longleftrightarrow> ts = []"
  by (induction ts rule: operand_loop.induct) (auto simp: res_simps)

lemma parseWhereConditions_defined: "parseWhereConditions ts \<noteq> Inl Undefined_behaviour"
  by (induction ts rule: parseWhereConditions.induct) (auto simp: res_simps split: list.split)

lemma parse_from_defined: "parse_from ts \<noteq> Inl Undefined_behaviour"
proof (cases ts rule: parse_from.cases)
  case (1 t tbl rest)
  have "fmt_subst (''Expecting '' @ quoted ''WHERE'' @ '', found '' @ quoted ''?'' @ ''.'') x \<noteq> Inl Undefined_behaviour" for x
    using defined_fmt [of "''Expecting '' @ quoted ''WHERE'' @ '', found '' @ quoted ''?'' @ ''.''" x]
    by (simp add: defined_def quoted_def)
  with 1 parseWhereConditions_defined show ?thesis
    by (auto simp: res_simps split: list.split)
qed auto

lemma parseToken_undefined:
  "parseToken ts = Inl Undefined_behaviour \<longleftrightarrow> (\<exists>a. ts = [a, ''(''])"
proof (cases ts rule: list.exhaust [case_names Nil Cons])
  case Nil
  then show ?thesis by (simp add: parseToken_def)
next
  case (Cons a us)
  then show ?thesis
    using parse_from_defined
    by (cases us) (auto simp: parseToken_def res_simps operand_loop_undefined)
qed

lemma complex_extract_undefined:
  "complex_extract ts = Inl Undefined_behaviour \<longleftrightarrow> (\<exists>a. ts = [a, ''(''])"
  using parseToken_undefined [of ts]
  by (auto simp: complex_extract_def split: sum.splits exn.splits prod.splits)

lemma parse_undefined:
  "snd (parseQuery main_parser s w) = Inl Undefined_behaviour \<longleftrightarrow>
   (\<exists>a. tokens_of s = [a, ''(''] \<and> a \<notin> {''SHOWTABLE'', ''LOAD'', ''DROP'', ''TRUNCATE''})"
proof (cases "tokens_of s")
  case Nil
  then show ?thesis by (simp add: parseQuery_def main_parser_def registerQueryBuilder_def tokenizeQueryString_def)
next
  case (Cons a ts)
  show ?thesis
  proof (cases "\<exists>a. tokens_of s = [a, ''('']")
    case True
    then obtain a where "tokens_of s = [a, ''('']" by blast
    moreover have "complex_extract [a, ''(''] = Inl Undefined_behaviour"
      using complex_extract_undefined by blast
    ultimately show ?thesis
      by (auto simp: parseQuery_def main_parser_def registerQueryBuilder_def tokenizeQueryString_def
          debug_extract_def manage_extract_def Let_def split: prod.split)
  next
    case False
    then have "complex_extract (tokens_of s) \<noteq> Inl Undefined_behaviour"
      using complex_extract_undefined by blast
    with Cons False show ?thesis
      by (auto simp: parseQuery_def main_parser_def registerQueryBuilder_def tokenizeQueryString_def Let_def
          split: option.split sum.split)
  qed
qed

text \<open>
  C40: parsing leaves the defined behaviour of the language exactly for a word followed by a
  lone opening parenthesis, as in \<open>INSERT (\<close>: \<open>parseOperands\<close> then dereferences the end
  iterator. Only the two-token commands of the earlier builders are spared.
\<close>

theorem parse_undefined_iff:
  "snd (parseQuery main_parser s w) = Inl Undefined_behaviour \<longleftrightarrow>
   (\<exists>a. tokens_of s = [a, ''(''] \<and> a \<notin> {''SHOWTABLE'', ''LOAD'', ''DROP'', ''TRUNCATE''})"
  by (rule parse_undefined)

text \<open>The tables and the files are never touched by parsing, and an error leaves no trace.\<close>

lemma getFileTableName_tables: "tables (snd (getFileTableName fs f d)) = tables d"
  by (simp add: getFileTableName_def Let_def split: option.split)

lemma manage_extract_frame:
  "manage_extract ts w = Some (w', r) \<Longrightarrow>
   tables (db w') = tables (db w) \<and> files w' = files w \<and> out w' = out w"
  using getFileTableName_tables [of "files w" _ "db w"]
  by (auto simp: manage_extract_def updateFileTableName_def Let_def split: list.splits if_splits prod.splits)
    (metis snd_conv)

text \<open>
  parsing with any chain of builders changes neither tables, nor files, nor the output
  (only the recorded table names of files), and when it fails it changes nothing at all.
\<close>

theorem parse_frame:
  assumes "parseQuery bs s w = (w', r)"
  shows "tables (db w') = tables (db w) \<and> files w' = files w \<and> out w' = out w \<and>
     (\<forall>e. r = Inl e \<longrightarrow> w' = w)"
proof -
  have chain: "tables (db w') = tables (db w) \<and> files w' = files w \<and> out w' = out w \<and> (\<forall>e. r = Inl e \<longrightarrow> w' = w)"
    if "tryExtractQuery bs q w = (w', r)" for bs q
    using that
    by (induction bs q w rule: tryExtractQuery.induct)
      (auto dest: manage_extract_frame split: option.splits sum.splits prod.splits)
  then show ?thesis
    using assms by (auto simp: parseQuery_def Let_def split: if_splits)
qed

theorem parse_frame_witness:
  "tables (db (fst (parseQuery main_parser ''DUMP t f'' demo_world))) = tables demo_db"
  using parse_frame [of main_parser "''DUMP t f''" demo_world, OF surjective_pairing] by (simp add: demo_world_def)

end
