(* ===== verification/Global_Index.thy ===== *)
theory Global_Index
  imports Query_Core
begin

section \<open>The cross-table index\<close>

text \<open>
  The model of src/src/scheduler/GlobalIndex.h and GlobalIndex.cpp: a priority queue of keys,
  one per announced head of a table queue, with versions that make older keys of the same
  table stale. A \<open>TableQueue *\<close> is the name of its table (the queues are never freed), and
  the null pointer is \<open>None\<close>.

  A \<open>std::priority_queue\<close> is the list of its elements. Which element is on top is decided by
  the comparator when that is a strict weak order; \<open>KeyCmp\<close> is not one (see below), and then
  it depends on the library. So the index of the top is a parameter \<open>sel\<close> of the model, with
  the contract \<open>priority_queue\<close>; \<open>best_index\<close> is a function that meets it.
\<close>

subsection \<open>Priority queues\<close>

definition strict_weak :: "('a \<Rightarrow> 'a \<Rightarrow> bool) \<Rightarrow> 'a set \<Rightarrow> bool" where
  "strict_weak cmp A \<longleftrightarrow>
     (\<forall>x \<in> A. \<not> cmp x x) \<and>
     (\<forall>x \<in> A. \<forall>y \<in> A. \<forall>z \<in> A. cmp x y \<longrightarrow> cmp y z \<longrightarrow> cmp x z) \<and>
     (\<forall>x \<in> A. \<forall>y \<in> A. \<forall>z \<in> A. \<not> cmp x y \<longrightarrow> \<not> cmp y z \<longrightarrow> \<not> cmp x z)"

text \<open>\<open>cmp x y\<close> says that \<open>x\<close> comes after \<open>y\<close>, as the comparators of the source do.\<close>

locale priority_queue =
  fixes sel :: "'a list \<Rightarrow> nat"
    and cmp :: "'a \<Rightarrow> 'a \<Rightarrow> bool"
  assumes sel_less: "xs \<noteq> [] \<Longrightarrow> sel xs < length xs"
    and sel_best: "xs \<noteq> [] \<Longrightarrow> strict_weak cmp (set xs) \<Longrightarrow> x \<in> set xs \<Longrightarrow> \<not> cmp (xs ! sel xs) x"

text \<open>An index out of range, which the contract excludes, counts as the first.\<close>

definition pq_index :: "('a list \<Rightarrow> nat) \<Rightarrow> 'a list \<Rightarrow> nat" where
  "pq_index sel xs = (if sel xs < length xs then sel xs else 0)"

definition pq_top :: "('a list \<Rightarrow> nat) \<Rightarrow> 'a list \<Rightarrow> 'a" where
  "pq_top sel xs = xs ! pq_index sel xs"

definition pq_pop :: "('a list \<Rightarrow> nat) \<Rightarrow> 'a list \<Rightarrow> 'a list" where
  "pq_pop sel xs = take (pq_index sel xs) xs @ drop (Suc (pq_index sel xs)) xs"

lemma strict_weak_irrefl: "strict_weak cmp A \<Longrightarrow> x \<in> A \<Longrightarrow> \<not> cmp x x"
  by (simp add: strict_weak_def)

lemma strict_weak_trans:
  "strict_weak cmp A \<Longrightarrow> x \<in> A \<Longrightarrow> y \<in> A \<Longrightarrow> z \<in> A \<Longrightarrow> cmp x y \<Longrightarrow> cmp y z \<Longrightarrow> cmp x z"
  unfolding strict_weak_def by blast

definition pq_push :: "'a \<Rightarrow> 'a list \<Rightarrow> 'a list" where
  "pq_push x xs = xs @ [x]"

lemma pq_index_less: "xs \<noteq> [] \<Longrightarrow> pq_index sel xs < length xs"
  by (simp add: pq_index_def)

lemma length_pq_pop: "xs \<noteq> [] \<Longrightarrow> length (pq_pop sel xs) < length xs"
  using pq_index_less [of xs sel] by (simp add: pq_pop_def)

lemma top_pop_mset: "xs \<noteq> [] \<Longrightarrow> mset xs = add_mset (pq_top sel xs) (mset (pq_pop sel xs))"
  using arg_cong [OF id_take_nth_drop [OF pq_index_less, of xs sel], of mset]
  by (simp add: pq_pop_def pq_top_def)

lemma top_mem: "xs \<noteq> [] \<Longrightarrow> pq_top sel xs \<in> set xs"
  by (simp add: pq_top_def pq_index_less)

lemma pop_subset: "set (pq_pop sel xs) \<subseteq> set xs"
  using set_take_subset set_drop_subset by (fastforce simp: pq_pop_def)

context priority_queue begin

lemma top_best:
  assumes "xs \<noteq> []" and "strict_weak cmp (set xs)" and "x \<in> set xs"
  shows "\<not> cmp (pq_top sel xs) x"
proof -
  have "pq_index sel xs = sel xs" using sel_less [OF assms(1)] by (simp add: pq_index_def)
  with sel_best [OF assms] show ?thesis by (simp add: pq_top_def)
qed

lemma top_beats_rest:
  "xs \<noteq> [] \<Longrightarrow> strict_weak cmp (set xs) \<Longrightarrow> x \<in> set (pq_pop sel xs) \<Longrightarrow> \<not> cmp (pq_top sel xs) x"
  using top_best pop_subset [of sel xs] by blast

end

text \<open>A selection that meets the contract: keep the first element nothing beats.\<close>

fun best_from :: "('a \<Rightarrow> 'a \<Rightarrow> bool) \<Rightarrow> 'a \<Rightarrow> nat \<Rightarrow> nat \<Rightarrow> 'a list \<Rightarrow> nat" where
  "best_from cmp b i j [] = i"
| "best_from cmp b i j (x # xs) =
     (if cmp b x then best_from cmp x j (Suc j) xs else best_from cmp b i (Suc j) xs)"

definition best_index :: "('a \<Rightarrow> 'a \<Rightarrow> bool) \<Rightarrow> 'a list \<Rightarrow> nat" where
  "best_index cmp xs = (case xs of [] \<Rightarrow> 0 | x # ys \<Rightarrow> best_from cmp x 0 1 ys)"

lemma best_from_less:
  "i < j \<Longrightarrow> best_from cmp b i j xs < j + length xs"
proof (induction xs arbitrary: b i j)
  case Nil
  then show ?case by simp
next
  case (Cons a xs)
  from Cons.IH [of j "Suc j" a] Cons.IH [of i "Suc j" b] Cons.prems show ?case by auto
qed

lemma best_from_best:
  assumes "strict_weak cmp (set (pre @ xs))" and "i < length pre" "pre ! i = b" "j = length pre"
    and "\<forall>y \<in> set pre. \<not> cmp b y" and "x \<in> set (pre @ xs)"
  shows "\<not> cmp ((pre @ xs) ! best_from cmp b i j xs) x"
  using assms
proof (induction xs arbitrary: b i j pre)
  case Nil
  then show ?case by auto
next
  case (Cons a xs)
  have sw: "strict_weak cmp (set ((pre @ [a]) @ xs))" and x: "x \<in> set ((pre @ [a]) @ xs)"
    using Cons.prems(1,6) by simp_all
  have b: "b \<in> set pre" using Cons.prems(2,3) by auto
  show ?case
  proof (cases "cmp b a")
    case True
    have irr: "\<not> cmp a a" using strict_weak_irrefl [OF sw] by simp
    have "\<not> cmp a y" if "y \<in> set pre" for y
    proof
      assume "cmp a y"
      then have "cmp b y" using b that True by (intro strict_weak_trans [OF sw, of b a y]) auto
      with Cons.prems(5) that show False by blast
    qed
    with irr have "\<forall>y \<in> set (pre @ [a]). \<not> cmp a y" by auto
    from Cons.IH [OF sw _ _ _ this x, of j "Suc j"] True Cons.prems(4) show ?thesis
      by (simp add: nth_append)
  next
    case False
    with Cons.prems(5) have "\<forall>y \<in> set (pre @ [a]). \<not> cmp b y" by auto
    from Cons.IH [OF sw _ _ _ this x, of i "Suc j"] False Cons.prems(2-4) show ?thesis
      by (simp add: nth_append)
  qed
qed

lemma best_index_contract: "priority_queue (best_index cmp) cmp"
proof
  fix xs :: "'a list"
  assume ne: "xs \<noteq> []"
  then obtain a ys where xs: "xs = a # ys" by (cases xs) auto
  show "best_index cmp xs < length xs"
    using best_from_less [of 0 1 cmp a ys] by (simp add: best_index_def xs)
  fix x
  assume sw: "strict_weak cmp (set xs)" and x: "x \<in> set xs"
  then have "\<not> cmp a a" using strict_weak_irrefl [OF sw] by (simp add: xs)
  then show "\<not> cmp (xs ! best_index cmp xs) x"
    using best_from_best [of cmp "[a]" ys 0 a 1 x] sw x by (simp add: best_index_def xs)
qed

subsection \<open>Keys\<close>

record gkey =
  pri :: query_priority
  stamp :: u64
  headSeq :: u64
  tbl :: string
  version :: u64

definition kFairnessQuantum :: u64 where
  "kFairnessQuantum = 64"

definition key_cmp :: "gkey \<Rightarrow> gkey \<Rightarrow> bool" where
  "key_cmp l r =
     (if pri l \<noteq> pri r then pri l > pri r
      else
        (let diff = (if stamp l > stamp r then stamp l - stamp r else stamp r - stamp l)
         in if diff \<ge> kFairnessQuantum then stamp l > stamp r else headSeq l > headSeq r))"

interpretation gq: priority_queue "best_index key_cmp" key_cmp
  by (rule best_index_contract)

subsection \<open>State and operations\<close>

record global_index =
  heap :: "gkey list"
  latestVersion :: "(string, u64) umap"

definition gi_new :: global_index where
  "gi_new = \<lparr>heap = [], latestVersion = []\<rparr>"

definition upsert :: "string option \<Rightarrow> query_priority \<Rightarrow> u64 \<Rightarrow> u64 \<Rightarrow> global_index \<Rightarrow> global_index" where
  "upsert tableQ p tick hs g =
     (case tableQ of
        None \<Rightarrow> g
      | Some t \<Rightarrow>
          (let ver = um_get 0 (latestVersion g) t + 1
           in g\<lparr>latestVersion := um_put t ver (latestVersion g),
                heap := pq_push \<lparr>pri = p, stamp = tick, headSeq = hs, tbl = t, version = ver\<rparr> (heap g)\<rparr>))"

definition current :: "(string, u64) umap \<Rightarrow> gkey \<Rightarrow> bool" where
  "current lv k \<longleftrightarrow> map_of lv (tbl k) = Some (version k)"

text \<open>\<open>pickBest\<close>: the result is the queue it returns, \<open>None\<close> when it returns false.\<close>

function pick_loop :: "(gkey list \<Rightarrow> nat) \<Rightarrow> (string, u64) umap \<Rightarrow> gkey list \<Rightarrow> gkey option \<times> gkey list" where
  "pick_loop sel lv h =
     (if h = [] then (None, [])
      else if \<not> current lv (pq_top sel h) then pick_loop sel lv (pq_pop sel h)
      else (Some (pq_top sel h), pq_pop sel h))"
  by pat_completeness auto
termination
  by (relation "measure (\<lambda>(sel, lv, h). length h)") (auto simp: length_pq_pop)

declare pick_loop.simps [simp del]

definition pickBest :: "(gkey list \<Rightarrow> nat) \<Rightarrow> global_index \<Rightarrow> string option \<times> global_index" where
  "pickBest sel g =
     (let (k, h) = pick_loop sel (latestVersion g) (heap g) in (map_option tbl k, g\<lparr>heap := h\<rparr>))"


subsection \<open>Picking\<close>

lemma pick_loop_spec:
  assumes "pick_loop sel lv h = (r, h')"
  shows "\<exists>stale. mset h = mset h' + mset stale + (case r of None \<Rightarrow> {#} | Some k \<Rightarrow> {#k#}) \<and>
     list_all (\<lambda>k. \<not> current lv k) stale \<and> (case r of None \<Rightarrow> h' = [] | Some k \<Rightarrow> current lv k)"
  using assms
proof (induction sel lv h rule: pick_loop.induct)
  case (1 sel lv h)
  consider "h = []" | "h \<noteq> []" "\<not> current lv (pq_top sel h)" | "h \<noteq> []" "current lv (pq_top sel h)" by blast
  then show ?case
  proof cases
    case 1
    with "1.prems" show ?thesis
      by (subst (asm) pick_loop.simps) (auto intro: exI [of _ "[]"])
  next
    case 2
    with "1.prems" have "pick_loop sel lv (pq_pop sel h) = (r, h')"
      by (subst (asm) pick_loop.simps) simp
    from "1.IH" [OF 2 this] obtain stale where
      "mset (pq_pop sel h) = mset h' + mset stale + (case r of None \<Rightarrow> {#} | Some k \<Rightarrow> {#k#})"
      "list_all (\<lambda>k. \<not> current lv k) stale" "case r of None \<Rightarrow> h' = [] | Some k \<Rightarrow> current lv k"
      by blast
    with 2 top_pop_mset [OF 2(1), of sel] show ?thesis
      by (intro exI [of _ "pq_top sel h # stale"]) simp
  next
    case 3
    with "1.prems" have "r = Some (pq_top sel h)" "h' = pq_pop sel h"
      by (subst (asm) pick_loop.simps, simp)+
    with 3 top_pop_mset [OF 3(1), of sel] show ?thesis
      by (intro exI [of _ "[]"]) simp
  qed
qed

lemma strict_weak_subset: "strict_weak cmp A \<Longrightarrow> B \<subseteq> A \<Longrightarrow> strict_weak cmp B"
  unfolding strict_weak_def by blast

lemma pick_loop_best:
  assumes pq: "priority_queue sel cmp"
  shows "pick_loop sel lv h = (Some k, h') \<Longrightarrow> strict_weak cmp (set h) \<Longrightarrow> x \<in> set h \<Longrightarrow> current lv x \<Longrightarrow>
     \<not> cmp k x"
proof (induction h rule: length_induct)
  case (1 h)
  have ne: "h \<noteq> []" using "1.prems"(3) by auto
  show ?case
  proof (cases "current lv (pq_top sel h)")
    case True
    with ne "1.prems"(1) have "k = pq_top sel h"
      by (subst (asm) pick_loop.simps) simp
    with priority_queue.top_best [OF pq ne "1.prems"(2,3)] show ?thesis by simp
  next
    case False
    with ne "1.prems"(1) have rec: "pick_loop sel lv (pq_pop sel h) = (Some k, h')"
      by (subst (asm) pick_loop.simps) simp
    have "x \<noteq> pq_top sel h" using False "1.prems"(4) by auto
    then have "x \<in> set (pq_pop sel h)"
      using arg_cong [OF top_pop_mset [OF ne, of sel], of set_mset] "1.prems"(3) by auto
    with rec "1.IH" length_pq_pop [OF ne, of sel] strict_weak_subset [OF "1.prems"(2) pop_subset] "1.prems"(4)
    show ?thesis by blast
  qed
qed

text \<open>
  \<open>pickBest\<close> removes and returns a table whose key is its newest; what it discards is
  stale, and when it returns nothing every key was stale.
\<close>

theorem pickBest_correct:
  assumes "pickBest sel g = (r, g')"
  shows "latestVersion g' = latestVersion g \<and>
     (case r of
        None \<Rightarrow> heap g' = [] \<and> list_all (\<lambda>k. \<not> current (latestVersion g) k) (heap g)
      | Some t \<Rightarrow> \<exists>k stale. tbl k = t \<and> current (latestVersion g) k \<and>
          mset (heap g) = add_mset k (mset (heap g') + mset stale) \<and>
          list_all (\<lambda>k. \<not> current (latestVersion g) k) stale)"
proof -
  obtain k h' where p: "pick_loop sel (latestVersion g) (heap g) = (k, h')" by fastforce
  with assms have r: "r = map_option tbl k" "g' = g\<lparr>heap := h'\<rparr>" by (simp_all add: pickBest_def)
  from pick_loop_spec [OF p] obtain stale where st:
    "mset (heap g) = mset h' + mset stale + (case k of None \<Rightarrow> {#} | Some k \<Rightarrow> {#k#})"
    "list_all (\<lambda>k. \<not> current (latestVersion g) k) stale" "case k of None \<Rightarrow> h' = [] | Some k \<Rightarrow> current (latestVersion g) k"
    by blast
  show ?thesis
  proof (cases k)
    case None
    with st have "set (heap g) = set stale" by (intro mset_eq_setD) simp
    with None st r show ?thesis by (simp add: list_all_iff)
  next
    case (Some a)
    with st r show ?thesis by (auto intro!: exI [of _ a] exI [of _ stale])
  qed
qed

definition demo_index :: global_index where
  "demo_index = upsert (Some ''a'') HIGH 0 7 (upsert (Some ''b'') NORMAL 0 3 (upsert (Some ''a'') NORMAL 0 1 gi_new))"

theorem pickBest_correct_witness:
  "\<exists>k. tbl k = ''a'' \<and> current (latestVersion demo_index) k"
proof -
  have "fst (pickBest (best_index key_cmp) demo_index) = Some ''a''"
    by code_simp
  then obtain g' where "pickBest (best_index key_cmp) demo_index = (Some ''a'', g')"
    by (metis prod.collapse)
  from pickBest_correct [OF this] show ?thesis by auto
qed

subsection \<open>The order of the keys\<close>

definition key_dist :: "gkey \<Rightarrow> gkey \<Rightarrow> u64" where
  "key_dist l r = (if stamp l > stamp r then stamp l - stamp r else stamp r - stamp l)"

definition same_window :: "gkey list \<Rightarrow> bool" where
  "same_window h \<longleftrightarrow> list_all (\<lambda>k. list_all (\<lambda>l. key_dist k l < kFairnessQuantum) h) h"

lemma key_cmp_window:
  "key_dist l r < kFairnessQuantum \<Longrightarrow> key_cmp l r \<longleftrightarrow> pri l > pri r \<or> pri l = pri r \<and> headSeq l > headSeq r"
  by (auto simp: key_cmp_def key_dist_def Let_def)

lemma key_cmp_strict_weak: "same_window h \<Longrightarrow> strict_weak key_cmp (set h)"
  unfolding strict_weak_def same_window_def list_all_iff
  by (intro conjI ballI) (simp_all add: key_cmp_window, (force | fastforce)+)

text \<open>
  C36: as long as the ticks of the keys lie within the fairness window, \<open>pickBest\<close> returns a
  current key that no other current key beats: none has a more urgent priority, and none of
  the same priority has a smaller head sequence. This holds for any implementation of the
  standard priority queue.
\<close>

theorem pickBest_order:
  assumes "priority_queue sel key_cmp" and "same_window (heap g)"
    and "pick_loop sel (latestVersion g) (heap g) = (Some k, h')" and "x \<in> set (heap g)" "current (latestVersion g) x"
  shows "pri k < pri x \<or> pri k = pri x \<and> headSeq k \<le> headSeq x"
proof -
  have "k \<in> set (heap g)"
    using pick_loop_spec [OF assms(3)] by (metis (no_types, lifting) in_multiset_in_set option.simps(5) union_iff union_single_eq_member)
  with assms(2,4) have "key_dist k x < kFairnessQuantum"
    by (simp add: same_window_def list_all_iff)
  moreover have "\<not> key_cmp k x"
    using pick_loop_best [OF assms(1,3) key_cmp_strict_weak [OF assms(2)] assms(4,5)] .
  ultimately show ?thesis by (auto simp: key_cmp_window not_less)
qed

definition key_of :: "string \<Rightarrow> query_priority \<Rightarrow> u64 \<Rightarrow> u64 \<Rightarrow> u64 \<Rightarrow> gkey" where
  "key_of t p s hs v = \<lparr>pri = p, stamp = s, headSeq = hs, tbl = t, version = v\<rparr>"

theorem pickBest_order_witness:
  "\<exists>k h'. pick_loop (best_index key_cmp) (latestVersion demo_index) (heap demo_index) = (Some k, h') \<and>
     (pri k < NORMAL \<or> pri k = NORMAL \<and> headSeq k \<le> 3)"
proof -
  let ?x = "key_of ''b'' NORMAL 0 3 1"
  have "fst (pick_loop (best_index key_cmp) (latestVersion demo_index) (heap demo_index)) \<noteq> None"
    by code_simp
  then obtain k h' where p: "pick_loop (best_index key_cmp) (latestVersion demo_index) (heap demo_index) = (Some k, h')"
    by (metis option.exhaust prod.collapse)
  have "same_window (heap demo_index)" "current (latestVersion demo_index) ?x" "?x \<in> set (heap demo_index)"
    by code_simp+
  from pickBest_order [OF best_index_contract this(1) p this(3,2)] p show ?thesis
    by (auto simp: key_of_def)
qed

text \<open>
  beyond the window the comparator is no strict weak order, which \<open>std::priority_queue\<close>
  requires: three keys of one priority can beat each other in a circle.
\<close>

theorem key_cmp_cycle:
  "let a = key_of ''a'' NORMAL 0 3 1; b = key_of ''b'' NORMAL 40 2 1; c = key_of ''c'' NORMAL 80 1 1
   in key_cmp a b \<and> key_cmp b c \<and> key_cmp c a \<and> \<not> strict_weak key_cmp {a, b, c}"
proof -
  define a b c where abc: "a = key_of ''a'' NORMAL 0 3 1" "b = key_of ''b'' NORMAL 40 2 1" "c = key_of ''c'' NORMAL 80 1 1"
  have cyc: "key_cmp a b" "key_cmp b c" "key_cmp c a"
    by (simp_all add: abc key_cmp_def key_of_def kFairnessQuantum_def)
  have "\<not> strict_weak key_cmp {a, b, c}"
  proof
    assume sw: "strict_weak key_cmp {a, b, c}"
    have "key_cmp a c" by (rule strict_weak_trans [OF sw _ _ _ cyc(1,2)]) simp_all
    then have "key_cmp a a" using cyc(3) by (intro strict_weak_trans [OF sw, of a c a]) simp_all
    then show False using strict_weak_irrefl [OF sw, of a] by simp
  qed
  with cyc show ?thesis unfolding abc Let_def by blast
qed

subsection \<open>Announcing\<close>

text \<open>
  after \<open>upsert\<close> of a table, the key it pushed is current and every older key of that
  table is stale (its version is one less or smaller, modulo 2^64); the other tables keep
  their current keys.
\<close>

theorem upsert_correct:
  assumes "upsert (Some t) p tick hs g = g'"
  shows "heap g' = heap g @ [key_of t p tick hs (um_get 0 (latestVersion g) t + 1)] \<and>
     current (latestVersion g') (key_of t p tick hs (um_get 0 (latestVersion g) t + 1)) \<and>
     (\<forall>k. tbl k = t \<and> current (latestVersion g) k \<longrightarrow> \<not> current (latestVersion g') k) \<and>
     (\<forall>k. tbl k \<noteq> t \<longrightarrow> current (latestVersion g') k = current (latestVersion g) k)"
  using assms
  by (auto simp: upsert_def Let_def pq_push_def key_of_def current_def umap_simps um_get_def)

theorem upsert_correct_witness:
  "heap (upsert (Some ''a'') HIGH 5 9 gi_new) = [key_of ''a'' HIGH 5 9 1]"
  using upsert_correct [of "''a''" HIGH 5 9 gi_new, OF refl] by (simp add: gi_new_def um_get_def)

end
