(* ===== verification/Dependency_Manager.thy ===== *)
theory Dependency_Manager
  imports Global_Index
begin

section \<open>Dependencies between tasks\<close>

text \<open>
  The model of src/src/scheduler/ScheduledItem.h, DependencyManager.h and
  DependencyManager.cpp: which earlier task on the same file or table a task waits for, what
  has completed, and the heaps of waiting tasks. The promise of a task travels with it and is
  identified by its sequence number.
\<close>

subsection \<open>Scheduled items\<close>

datatype dependency_payload =
    No_deps
  | LoadDeps (load_file: u64) (load_table: u64) (load_path: string) (pending_tables: "string list")
  | DumpDeps (dump_file: u64) (dump_path: string) (dump_table: u64)
  | DropDeps (drop_table: u64)
  | CopyTableDeps (copy_src: u64) (copy_dst: u64) (copy_new: string)

record scheduled_item =
  seq :: u64
  priority :: query_priority
  tableId :: string
  itype :: query_type
  depends :: dependency_payload
  squery :: query
  droppedFlag :: bool

text \<open>
  \<open>std::get\<close> throws on the wrong alternative. \<open>deps_ok\<close> says that an item carries the
  alternative of its type, which \<open>markScheduled\<close> establishes.
\<close>

definition deps_ok :: "scheduled_item \<Rightarrow> bool" where
  "deps_ok i \<longleftrightarrow>
     (case itype i of
        QT_Load \<Rightarrow> (\<exists>f t p ts. depends i = LoadDeps f t p ts)
      | QT_Dump \<Rightarrow> (\<exists>f p t. depends i = DumpDeps f p t)
      | QT_Drop \<Rightarrow> (\<exists>t. depends i = DropDeps t)
      | QT_CopyTable \<Rightarrow> (\<exists>s d n. depends i = CopyTableDeps s d n)
      | _ \<Rightarrow> depends i = No_deps)"

subsection \<open>State\<close>

datatype dependency_type = File | Table_dep

text \<open>\<open>Cmp\<close> orders a waiting heap by the sequence number, the smallest on top.\<close>

definition seq_cmp :: "scheduled_item \<Rightarrow> scheduled_item \<Rightarrow> bool" where
  "seq_cmp a b \<longleftrightarrow> seq a > seq b"

interpretation wq: priority_queue "best_index seq_cmp" seq_cmp
  by (rule best_index_contract)

type_synonym waiting_heap = "scheduled_item list"

record dependency_manager =
  lastScheduledFile :: "(string, query_type \<times> u64) umap"
  lastCompletedFile :: "(string, u64) umap"
  lastScheduledTable :: "(string, query_type \<times> u64) umap"
  lastCompletedTable :: "(string, u64) umap"
  waitingFile :: "(string, waiting_heap) umap"
  waitingTable :: "(string, waiting_heap) umap"

definition dm_new :: dependency_manager where
  "dm_new = \<lparr>lastScheduledFile = [], lastCompletedFile = [], lastScheduledTable = [],
             lastCompletedTable = [], waitingFile = [], waitingTable = []\<rparr>"

text \<open>The value-initialized pair has the first enumerator, \<open>Load\<close>, and zero.\<close>

definition no_schedule :: "query_type \<times> u64" where
  "no_schedule = (QT_Load, 0)"

subsection \<open>Scheduling\<close>

definition mark_entry ::
  "string \<Rightarrow> u64 \<Rightarrow> query_type \<Rightarrow> (string, query_type \<times> u64) umap \<Rightarrow> (string, query_type \<times> u64) umap" where
  "mark_entry k s tag m =
     (let old = um_get no_schedule m k in um_put k (if s > snd old then (tag, s) else old) m)"

definition markScheduledFile ::
  "string \<Rightarrow> u64 \<Rightarrow> query_type \<Rightarrow> dependency_manager \<Rightarrow> (query_type \<times> u64) \<times> dependency_manager" where
  "markScheduledFile f s tag dm =
     (um_get no_schedule (lastScheduledFile dm) f,
      dm\<lparr>lastScheduledFile := mark_entry f s tag (lastScheduledFile dm)\<rparr>)"

definition markScheduledTable ::
  "string \<Rightarrow> u64 \<Rightarrow> query_type \<Rightarrow> dependency_manager \<Rightarrow> (query_type \<times> u64) \<times> dependency_manager" where
  "markScheduledTable t s tag dm =
     (um_get no_schedule (lastScheduledTable dm) t,
      dm\<lparr>lastScheduledTable := mark_entry t s tag (lastScheduledTable dm)\<rparr>)"

text \<open>
  A \<open>LOAD\<close> behind a pending \<open>DUMP\<close> of the same file cannot know its table yet: it takes over
  every table that is marked dropped. Reading \<open>lastScheduledTable[tableId]\<close> in the condition
  inserts an entry.
\<close>

definition take_over_drops ::
  "u64 \<Rightarrow> (string, query_type \<times> u64) umap \<Rightarrow> (string, query_type \<times> u64) umap" where
  "take_over_drops s m = map (\<lambda>(t, e). (t, if fst e = QT_Drop then (QT_Nop, s) else e)) m"

definition dropped_tables :: "(string, query_type \<times> u64) umap \<Rightarrow> string list" where
  "dropped_tables m = map fst (filter (\<lambda>(t, e). fst e = QT_Drop) m)"

definition mark_load ::
  "scheduled_item \<Rightarrow> query_type \<Rightarrow> dependency_manager \<Rightarrow> scheduled_item \<times> dependency_manager" where
  "mark_load i tag dm =
     (let path = extractFilePath (squery i);
          (prev, dm1) = markScheduledFile path (seq i) tag dm;
          completed = um_get 0 (lastCompletedFile dm1) path;
          reload = (snd prev > 0 \<and> fst prev = QT_Load);
          dropped = (reload \<and> fst (um_get no_schedule (lastScheduledTable dm1) (tableId i)) \<noteq> QT_Drop);
          dm2 = (if reload
                 then dm1\<lparr>lastScheduledTable := um_emplace (tableId i) no_schedule (lastScheduledTable dm1)\<rparr>
                 else dm1);
          i1 = i\<lparr>droppedFlag := dropped\<rparr>
      in if fst prev = QT_Dump \<and> completed < snd prev then
           (i1\<lparr>depends := LoadDeps (snd prev) 0 path (dropped_tables (lastScheduledTable dm2))\<rparr>,
            dm2\<lparr>lastScheduledTable := take_over_drops (seq i) (lastScheduledTable dm2)\<rparr>)
         else
           (let (prevTable, dm3) = markScheduledTable (tableId i) (seq i) tag dm2
            in (i1\<lparr>depends := LoadDeps (snd prev) (snd prevTable) path []\<rparr>, dm3)))"

definition markScheduled ::
  "scheduled_item \<Rightarrow> query_type \<Rightarrow> dependency_manager \<Rightarrow> scheduled_item \<times> dependency_manager" where
  "markScheduled i tag dm =
     (if itype i = QT_Load then mark_load i tag dm
      else if itype i = QT_Dump then
        (let path = extractFilePath (squery i);
             (prev, dm1) = markScheduledFile path (seq i) tag dm;
             (prevTable, dm2) = markScheduledTable (tableId i) (seq i) tag dm1
         in (i\<lparr>depends := DumpDeps (snd prev) path (snd prevTable)\<rparr>, dm2))
      else if itype i = QT_Drop then
        (let (prev, dm1) = markScheduledTable (tableId i) (seq i) tag dm
         in (i\<lparr>depends := DropDeps (snd prev)\<rparr>, dm1))
      else if itype i = QT_CopyTable then
        (let (src, dm1) = markScheduledTable (tableId i) (seq i) tag dm;
             new_table = extractNewTable (squery i);
             (dst, dm2) = markScheduledTable new_table (seq i) tag dm1
         in (i\<lparr>depends := CopyTableDeps (snd src) (snd dst) new_table\<rparr>, dm2))
      else (i, dm))"

subsection \<open>Waiting and completion\<close>

definition addWait :: "dependency_type \<Rightarrow> string \<Rightarrow> scheduled_item \<Rightarrow> dependency_manager \<Rightarrow> dependency_manager" where
  "addWait ty k i dm =
     (case ty of
        File \<Rightarrow> dm\<lparr>waitingFile := um_put k (pq_push i (um_get [] (waitingFile dm) k)) (waitingFile dm)\<rparr>
      | Table_dep \<Rightarrow> dm\<lparr>waitingTable := um_put k (pq_push i (um_get [] (waitingTable dm) k)) (waitingTable dm)\<rparr>)"

definition lastCompletedFor :: "dependency_type \<Rightarrow> string \<Rightarrow> dependency_manager \<Rightarrow> u64" where
  "lastCompletedFor ty k dm =
     um_get 0 (case ty of File \<Rightarrow> lastCompletedFile dm | Table_dep \<Rightarrow> lastCompletedTable dm) k"

definition notifyCompleteBreakHelper :: "dependency_type \<Rightarrow> u64 \<Rightarrow> scheduled_item \<Rightarrow> bool" where
  "notifyCompleteBreakHelper ty completedSeq i =
     (if itype i = QT_Load then
        ty = File \<and> load_file (depends i) > completedSeq \<or>
        ty = Table_dep \<and> load_table (depends i) > completedSeq
      else if itype i = QT_Dump \<and> ty = File \<and> dump_file (depends i) > completedSeq \<or>
              itype i = QT_Drop \<and> ty = Table_dep \<and> drop_table (depends i) > completedSeq then True
      else if itype i = QT_CopyTable \<and> ty = Table_dep then
        copy_src (depends i) > completedSeq \<and> copy_dst (depends i) > completedSeq
      else False)"

function release_loop :: "(scheduled_item \<Rightarrow> bool) \<Rightarrow> waiting_heap \<Rightarrow> scheduled_item list \<times> waiting_heap" where
  "release_loop stop h =
     (if h = [] then ([], [])
      else if stop (pq_top (best_index seq_cmp) h) then ([], h)
      else (let (r, h') = release_loop stop (pq_pop (best_index seq_cmp) h)
            in (pq_top (best_index seq_cmp) h # r, h')))"
  by pat_completeness auto
termination
  by (relation "measure (\<lambda>(stop, h). length h)") (auto simp: length_pq_pop)

declare release_loop.simps [simp del]

text \<open>The heap of a key is erased when it becomes empty.\<close>

definition release ::
  "dependency_type \<Rightarrow> string \<Rightarrow> u64 \<Rightarrow> (string, waiting_heap) umap \<Rightarrow>
   scheduled_item list \<times> (string, waiting_heap) umap" where
  "release ty k s m =
     (case map_of m k of
        None \<Rightarrow> ([], m)
      | Some h \<Rightarrow>
          (let (ready, h') = release_loop (notifyCompleteBreakHelper ty s) h
           in (ready, if h' = [] then um_erase k m else um_put k h' m)))"

definition notifyCompleted ::
  "dependency_type \<Rightarrow> string \<Rightarrow> u64 \<Rightarrow> dependency_manager \<Rightarrow> scheduled_item list \<times> dependency_manager" where
  "notifyCompleted ty k s dm =
     (if s < lastCompletedFor ty k dm then ([], dm)
      else
        (case ty of
           File \<Rightarrow>
             (let (ready, m) = release ty k s (waitingFile dm)
              in (ready, dm\<lparr>lastCompletedFile := um_put k s (lastCompletedFile dm), waitingFile := m\<rparr>))
         | Table_dep \<Rightarrow>
             (let (ready, m) = release ty k s (waitingTable dm)
              in (ready, dm\<lparr>lastCompletedTable := um_put k s (lastCompletedTable dm), waitingTable := m\<rparr>))))"


subsection \<open>Contents of a map of heaps\<close>

definition um_items :: "(string, 'a list) umap \<Rightarrow> 'a multiset" where
  "um_items m = mset (concat (map snd m))"

lemma um_items_put: "um_items (um_put k v m) + mset (um_get [] m k) = um_items m + mset v"
  unfolding um_items_def um_put_def um_get_def
  by (induction m) (auto simp: ac_simps)

lemma um_items_erase:
  "distinct (um_keys m) \<Longrightarrow> um_items (um_erase k m) + mset (um_get [] m k) = um_items m"
proof (induction m)
  case Nil
  then show ?case by (simp add: um_items_def um_erase_def um_get_def)
next
  case (Cons e m)
  obtain j v where e: "e = (j, v)" by (cases e)
  show ?case
  proof (cases "j = k")
    case True
    with Cons.prems e have "k \<notin> fst ` set m" by auto
    then have "AList.delete k m = m" by (simp add: delete_notin_dom)
    with True e show ?thesis by (simp add: um_items_def um_erase_def um_get_def AList.delete_eq)
  next
    case False
    with Cons e show ?thesis by (simp add: um_items_def um_erase_def um_get_def)
  qed
qed

definition waiting_items :: "dependency_manager \<Rightarrow> scheduled_item multiset" where
  "waiting_items dm = um_items (waitingFile dm) + um_items (waitingTable dm)"

definition dm_ok :: "dependency_manager \<Rightarrow> bool" where
  "dm_ok dm \<longleftrightarrow> distinct (um_keys (waitingFile dm)) \<and> distinct (um_keys (waitingTable dm))"

lemma addWait_items: "waiting_items (addWait ty k i dm) = add_mset i (waiting_items dm)"
proof -
  have "um_items (um_put k (um_get [] m k @ [i]) m) = add_mset i (um_items m)" for m
    using um_items_put [of k "um_get [] m k @ [i]" m] by simp
  then show ?thesis by (cases ty) (simp_all add: addWait_def waiting_items_def pq_push_def)
qed

lemma addWait_ok: "dm_ok dm \<Longrightarrow> dm_ok (addWait ty k i dm)"
  by (cases ty) (simp_all add: dm_ok_def addWait_def distinct_um_put)

lemma addWait_completed [simp]: "lastCompletedFor ty' k' (addWait ty k i dm) = lastCompletedFor ty' k' dm"
  by (cases ty; cases ty') (simp_all add: addWait_def lastCompletedFor_def)

subsection \<open>Releasing\<close>

lemma strict_weak_seq: "strict_weak seq_cmp A"
  by (auto simp: strict_weak_def seq_cmp_def)

lemma top_seq_le: "h \<noteq> [] \<Longrightarrow> x \<in> set h \<Longrightarrow> seq (pq_top (best_index seq_cmp) h) \<le> seq x"
  using wq.top_best [OF _ strict_weak_seq, of h x] by (simp add: seq_cmp_def not_less)

lemma release_loop_spec:
  assumes "release_loop stop h = (r, h')"
  shows "mset h = mset r + mset h' \<and> list_all (\<lambda>i. \<not> stop i) r \<and> sorted (map seq r) \<and>
     (\<forall>x \<in> set r. \<forall>y \<in> set h'. seq x \<le> seq y)"
  using assms
proof (induction stop h arbitrary: r rule: release_loop.induct)
  case (1 stop h)
  let ?t = "pq_top (best_index seq_cmp) h" and ?p = "pq_pop (best_index seq_cmp) h"
  consider "h = []" | "h \<noteq> []" "stop ?t" | "h \<noteq> []" "\<not> stop ?t" by blast
  then show ?case
  proof cases
    case 1
    with "1.prems" show ?thesis by (subst (asm) release_loop.simps) auto
  next
    case 2
    with "1.prems" show ?thesis by (subst (asm) release_loop.simps) auto
  next
    case 3
    with "1.prems" obtain r1 where r: "release_loop stop ?p = (r1, h')" "r = ?t # r1"
      by (subst (asm) release_loop.simps) (auto split: prod.splits)
    from "1.IH" [OF 3 r(1)] have IH: "mset ?p = mset r1 + mset h'" "list_all (\<lambda>i. \<not> stop i) r1"
      "sorted (map seq r1)" "\<forall>x \<in> set r1. \<forall>y \<in> set h'. seq x \<le> seq y" by auto
    have sub: "set r1 \<union> set h' = set ?p"
      using arg_cong [OF IH(1), of set_mset] by simp
    then have "\<forall>x \<in> set r1 \<union> set h'. seq ?t \<le> seq x"
      using top_seq_le [OF 3(1)] pop_subset [of "best_index seq_cmp" h] by blast
    with IH 3 r(2) top_pop_mset [OF 3(1), of "best_index seq_cmp"] show ?thesis
      by simp
  qed
qed

lemma release_spec:
  assumes "release ty k s m = (ready, m')" and "distinct (um_keys m)"
  shows "um_items m = um_items m' + mset ready \<and> distinct (um_keys m') \<and>
     list_all (\<lambda>i. \<not> notifyCompleteBreakHelper ty s i) ready \<and> sorted (map seq ready)"
proof (cases "map_of m k")
  case None
  with assms show ?thesis by (auto simp: release_def)
next
  case (Some h)
  obtain h' where loop: "release_loop (notifyCompleteBreakHelper ty s) h = (ready, h')"
      "m' = (if h' = [] then um_erase k m else um_put k h' m)"
    using assms(1) Some by (auto simp: release_def split: prod.splits)
  note spec = release_loop_spec [OF loop(1)]
  have g: "um_get [] m k = h" using Some by (simp add: um_get_def)
  have "um_items m' + mset h = um_items m + mset h'"
  proof (cases "h' = []")
    case True
    with loop(2) um_items_erase [OF assms(2), of k] g show ?thesis by simp
  next
    case False
    with loop(2) um_items_put [of k h' m] g show ?thesis by simp
  qed
  with spec have "um_items m = um_items m' + mset ready"
    by (simp add: add.assoc [symmetric] add.commute [of "mset h'"])
  with spec loop(2) assms(2) show ?thesis
    by (simp add: distinct_um_erase distinct_um_put)
qed

lemma notifyCompleted_late:
  "s < lastCompletedFor ty k dm \<Longrightarrow> notifyCompleted ty k s dm = ([], dm)"
  by (simp add: notifyCompleted_def)

lemma lastCompletedFor_put:
  "lastCompletedFor ty' k' (dm\<lparr>lastCompletedFile := um_put k s (lastCompletedFile dm), waitingFile := m\<rparr>) =
     (if ty' = File \<and> k' = k then s else lastCompletedFor ty' k' dm)"
  "lastCompletedFor ty' k' (dm\<lparr>lastCompletedTable := um_put k s (lastCompletedTable dm), waitingTable := m\<rparr>) =
     (if ty' = Table_dep \<and> k' = k then s else lastCompletedFor ty' k' dm)"
  by (cases ty'; simp add: lastCompletedFor_def um_get_put)+

lemma notifyCompleted_spec:
  assumes ok: "dm_ok dm" and notify: "notifyCompleted ty k s dm = (ready, dm')"
  shows "dm_ok dm' \<and> lastCompletedFor ty k dm' = max (lastCompletedFor ty k dm) s \<and>
     (\<forall>ty' k'. (ty', k') \<noteq> (ty, k) \<longrightarrow> lastCompletedFor ty' k' dm' = lastCompletedFor ty' k' dm) \<and>
     waiting_items dm = waiting_items dm' + mset ready \<and>
     sorted (map seq ready) \<and> list_all (\<lambda>i. \<not> notifyCompleteBreakHelper ty s i) ready"
proof (cases "s < lastCompletedFor ty k dm")
  case True
  with notify have "ready = []" "dm' = dm" by (simp_all add: notifyCompleted_late)
  with True ok show ?thesis by (simp add: max_absorb1)
next
  case False
  show ?thesis
  proof (cases ty)
    case File
    obtain m where m: "release ty k s (waitingFile dm) = (ready, m)"
        "dm' = dm\<lparr>lastCompletedFile := um_put k s (lastCompletedFile dm), waitingFile := m\<rparr>"
      using False notify File by (auto simp: notifyCompleted_def split: prod.splits)
    have "distinct (um_keys (waitingFile dm))" using ok by (simp add: dm_ok_def)
    with release_spec [OF m(1)] m(2) File False ok show ?thesis
      by (simp add: lastCompletedFor_put waiting_items_def dm_ok_def max_absorb2 not_less)
  next
    case Table_dep
    obtain m where m: "release ty k s (waitingTable dm) = (ready, m)"
        "dm' = dm\<lparr>lastCompletedTable := um_put k s (lastCompletedTable dm), waitingTable := m\<rparr>"
      using False notify Table_dep by (auto simp: notifyCompleted_def split: prod.splits)
    have "distinct (um_keys (waitingTable dm))" using ok by (simp add: dm_ok_def)
    with release_spec [OF m(1)] m(2) Table_dep False ok show ?thesis
      by (simp add: lastCompletedFor_put waiting_items_def dm_ok_def max_absorb2 not_less ac_simps)
  qed
qed

text \<open>
  C25: a completion never moves the record of the last completion back, touches no other file
  or table, and splits the waiting tasks into those that stay and those it releases: none is
  lost or duplicated, the released ones come in the order of submission, and none of them
  still waits for what has not completed.
\<close>

theorem notifyCompleted_correct:
  assumes "dm_ok dm" and "notifyCompleted ty k s dm = (ready, dm')"
  shows "lastCompletedFor ty k dm' = max (lastCompletedFor ty k dm) s \<and>
     (\<forall>ty' k'. (ty', k') \<noteq> (ty, k) \<longrightarrow> lastCompletedFor ty' k' dm' = lastCompletedFor ty' k' dm) \<and>
     waiting_items dm = waiting_items dm' + mset ready \<and>
     sorted (map seq ready) \<and> list_all (\<lambda>i. \<not> notifyCompleteBreakHelper ty s i) ready"
  using notifyCompleted_spec [OF assms] by blast

definition demo_item :: "u64 \<Rightarrow> string \<Rightarrow> query_type \<Rightarrow> dependency_payload \<Rightarrow> query \<Rightarrow> scheduled_item" where
  "demo_item s t ty d q =
     \<lparr>seq = s, priority = classifyPriority ty, tableId = t, itype = ty, depends = d, squery = q, droppedFlag = False\<rparr>"

definition demo_drop :: "u64 \<Rightarrow> u64 \<Rightarrow> scheduled_item" where
  "demo_drop s d = demo_item s ''t'' QT_Drop (DropDeps d) (DropTableQuery ''t'')"

definition demo_dm :: dependency_manager where
  "demo_dm = addWait Table_dep ''t'' (demo_drop 9 8) (addWait Table_dep ''t'' (demo_drop 5 4) dm_new)"

theorem notifyCompleted_correct_witness:
  "fst (notifyCompleted Table_dep ''t'' 4 demo_dm) = [demo_drop 5 4] \<and>
   waiting_items demo_dm = add_mset (demo_drop 5 4) (waiting_items (snd (notifyCompleted Table_dep ''t'' 4 demo_dm)))"
proof
  have ok: "dm_ok demo_dm"
    unfolding demo_dm_def by (intro addWait_ok) (simp add: dm_ok_def dm_new_def)
  show r: "fst (notifyCompleted Table_dep ''t'' 4 demo_dm) = [demo_drop 5 4]"
    by code_simp
  from notifyCompleted_correct [OF ok surjective_pairing, of Table_dep "''t''" 4] r
  show "waiting_items demo_dm = add_mset (demo_drop 5 4) (waiting_items (snd (notifyCompleted Table_dep ''t'' 4 demo_dm)))"
    by simp
qed

lemma notifyCompleted_ok: "dm_ok dm \<Longrightarrow> dm_ok (snd (notifyCompleted ty k s dm))"
  using notifyCompleted_spec [of dm ty k s] by (metis prod.collapse)

subsection \<open>Dependencies point back\<close>

text \<open>The sequence numbers an item waits for.\<close>

fun dep_seqs :: "dependency_payload \<Rightarrow> u64 list" where
  "dep_seqs No_deps = []"
| "dep_seqs (LoadDeps f t _ _) = [f, t]"
| "dep_seqs (DumpDeps f _ t) = [f, t]"
| "dep_seqs (DropDeps t) = [t]"
| "dep_seqs (CopyTableDeps s d _) = [s, d]"

definition marks_le :: "u64 \<Rightarrow> (string, query_type \<times> u64) umap \<Rightarrow> bool" where
  "marks_le s m \<longleftrightarrow> (\<forall>k. snd (um_get no_schedule m k) \<le> s)"

definition scheduled_le :: "u64 \<Rightarrow> dependency_manager \<Rightarrow> bool" where
  "scheduled_le s dm \<longleftrightarrow> marks_le s (lastScheduledFile dm) \<and> marks_le s (lastScheduledTable dm)"

lemma marks_leD: "marks_le s m \<Longrightarrow> snd (um_get no_schedule m k) \<le> s"
  by (simp add: marks_le_def)

lemma marks_le_mono: "marks_le s m \<Longrightarrow> s \<le> s' \<Longrightarrow> marks_le s' m"
  unfolding marks_le_def using order_trans by blast

lemma marks_le_put:
  "marks_le s m \<Longrightarrow> snd e \<le> s \<Longrightarrow> marks_le s (um_put k e m)"
  by (simp add: marks_le_def um_get_put)

lemma marks_le_Nil: "marks_le s []"
  by (simp add: marks_le_def um_get_def no_schedule_def)

lemma marks_le_entry: "marks_le s m \<Longrightarrow> marks_le s (mark_entry k s tag m)"
  by (simp add: mark_entry_def Let_def marks_le_put marks_leD)

lemma mark_entry_get:
  "um_get no_schedule (mark_entry k s tag m) j =
     (if j = k then (let old = um_get no_schedule m k in if s > snd old then (tag, s) else old)
      else um_get no_schedule m j)"
  by (simp add: mark_entry_def Let_def um_get_put)

lemma take_over_drops_get:
  "snd (um_get no_schedule (take_over_drops s m) j) \<le> max s (snd (um_get no_schedule m j))"
proof -
  have "map_of (take_over_drops s m) j = map_option (\<lambda>e. if fst e = QT_Drop then (QT_Nop, s) else e) (map_of m j)"
    unfolding take_over_drops_def by (induction m) auto
  then show ?thesis by (simp add: um_get_def max.coboundedI1 max.coboundedI2 split: option.split)
qed

lemma um_get_emplace_default: "um_get d (um_emplace k d m) j = um_get d m j"
  by (auto simp: um_get_def map_of_um_emplace split: option.split)

lemma marks_le_take_over: "marks_le s m \<Longrightarrow> marks_le s (take_over_drops s m)"
  unfolding marks_le_def using take_over_drops_get [of s m] by (metis max.absorb1)

lemma marks_le_emplace: "marks_le s m \<Longrightarrow> marks_le s (um_emplace k no_schedule m)"
  by (simp add: marks_le_def um_get_emplace_default)

lemma mark_entry_other: "j \<noteq> k \<Longrightarrow> um_get no_schedule (mark_entry k s tag m) j = um_get no_schedule m j"
  by (simp add: mark_entry_get)

text \<open>A \<open>COPYTABLE\<close> onto its own source.\<close>

definition copies_itself :: "scheduled_item \<Rightarrow> bool" where
  "copies_itself i \<longleftrightarrow> itype i = QT_CopyTable \<and> extractNewTable (squery i) = tableId i"

lemma mark_load_spec:
  assumes le: "scheduled_le s0 dm" and s: "s0 < seq i" and mark: "mark_load i tag dm = (i', dm')"
  shows "scheduled_le (seq i) dm' \<and> (\<forall>d \<in> set (dep_seqs (depends i')). d < seq i) \<and>
     (\<exists>f t p ts. depends i' = LoadDeps f t p ts) \<and> seq i' = seq i \<and> itype i' = itype i \<and> tableId i' = tableId i"
proof -
  let ?path = "extractFilePath (squery i)"
  let ?prev = "um_get no_schedule (lastScheduledFile dm) ?path"
  let ?tab = "if snd ?prev > 0 \<and> fst ?prev = QT_Load
              then um_emplace (tableId i) no_schedule (lastScheduledTable dm) else lastScheduledTable dm"
  have f0: "marks_le s0 (lastScheduledFile dm)" and t0: "marks_le s0 (lastScheduledTable dm)"
    using le by (simp_all add: scheduled_le_def)
  have tab0: "marks_le s0 ?tab" using t0 marks_le_emplace by simp
  have up: "marks_le (seq i) (lastScheduledFile dm)" "marks_le (seq i) ?tab"
    using marks_le_mono [OF f0] marks_le_mono [OF tab0] s by simp_all
  have entry: "marks_le (seq i) (mark_entry ?path (seq i) tag (lastScheduledFile dm))"
    by (rule marks_le_entry [OF up(1)])
  have prev: "snd ?prev < seq i" using marks_leD [OF f0] s by (rule le_less_trans)
  have prevT: "snd (um_get no_schedule ?tab (tableId i)) < seq i"
    using marks_leD [OF tab0] s by (rule le_less_trans)
  have zero: "0 < seq i" using s by (metis word_gt_0 word_not_simps(1))
  show ?thesis
    using mark entry prev prevT zero up marks_le_take_over [OF up(2)] marks_le_entry [OF up(2), of "tableId i" tag]
    by (auto simp: mark_load_def markScheduledFile_def markScheduledTable_def Let_def scheduled_le_def
        split: if_splits)
qed

text \<open>
  C24: when a new task is marked after tasks with smaller numbers only, and it is not a \<open>COPYTABLE\<close> of a table onto
  itself, \<open>markScheduled\<close> gives it the dependencies of its type, each on a strictly earlier task, and leaves marks up to
  this task. So when tasks are marked in the order of their numbers, their dependencies form no circle. A
  \<open>COPYTABLE\<close> onto its own source is the exception: it comes to depend on itself.
\<close>

theorem markScheduled_backwards:
  assumes le: "scheduled_le s0 dm" and s: "s0 < seq i" and plain: "depends i = No_deps"
    and mark: "markScheduled i tag dm = (i', dm')" and "\<not> copies_itself i"
  shows "scheduled_le (seq i) dm' \<and> deps_ok i' \<and> (\<forall>d \<in> set (dep_seqs (depends i')). d < seq i)"
proof -
  have f0: "marks_le s0 (lastScheduledFile dm)" and t0: "marks_le s0 (lastScheduledTable dm)"
    using le by (simp_all add: scheduled_le_def)
  have up: "marks_le (seq i) (lastScheduledFile dm)" "marks_le (seq i) (lastScheduledTable dm)"
    using marks_le_mono [OF f0] marks_le_mono [OF t0] s by simp_all
  have lt: "snd (um_get no_schedule (lastScheduledFile dm) k) < seq i"
    "snd (um_get no_schedule (lastScheduledTable dm) k) < seq i" for k
    using le_less_trans [OF marks_leD [OF f0] s] le_less_trans [OF marks_leD [OF t0] s] by blast+
  note entries = marks_le_entry [OF up(1)] marks_le_entry [OF up(2)]
  consider "itype i = QT_Load" | "itype i = QT_Dump" | "itype i = QT_Drop" | "itype i = QT_CopyTable"
    | "itype i \<notin> {QT_Load, QT_Dump, QT_Drop, QT_CopyTable}" by blast
  then show ?thesis
  proof cases
    case 1
    with mark_load_spec [OF le s] mark show ?thesis
      by (fastforce simp: markScheduled_def deps_ok_def)
  next
    case 2
    with mark lt entries show ?thesis
      by (auto simp: markScheduled_def markScheduledFile_def markScheduledTable_def scheduled_le_def deps_ok_def Let_def)
  next
    case 3
    with mark lt entries up show ?thesis
      by (auto simp: markScheduled_def markScheduledTable_def scheduled_le_def deps_ok_def Let_def)
  next
    case 4
    with assms(5) have "extractNewTable (squery i) \<noteq> tableId i" by (simp add: copies_itself_def)
    with 4 mark lt entries up marks_le_entry [OF entries(2)] show ?thesis
      by (auto simp: markScheduled_def markScheduledTable_def scheduled_le_def deps_ok_def Let_def mark_entry_other)
  next
    case 5
    with mark up plain show ?thesis
      by (cases "itype i") (auto simp: markScheduled_def scheduled_le_def deps_ok_def)
  qed
qed

theorem markScheduled_backwards_witness:
  "list_all (\<lambda>d. d < 2) (dep_seqs (depends (fst (markScheduled (demo_item 2 ''t'' QT_Drop No_deps (DropTableQuery ''t'')) QT_Drop
      (snd (markScheduledTable ''t'' 1 QT_Load dm_new))))))"
proof -
  let ?i = "demo_item 2 ''t'' QT_Drop No_deps (DropTableQuery ''t'')"
  have "scheduled_le 1 (snd (markScheduledTable ''t'' 1 QT_Load dm_new))"
    by (simp add: scheduled_le_def markScheduledTable_def marks_le_entry marks_le_Nil dm_new_def)
  from markScheduled_backwards [OF this, of ?i QT_Drop, OF _ _ surjective_pairing]
  show ?thesis by (simp add: demo_item_def copies_itself_def list_all_iff)
qed

text \<open>
  a \<open>COPYTABLE\<close> onto its own source is recorded as waiting for itself: its destination
  dependency is its own sequence number.
\<close>

theorem copy_self_dependency:
  assumes "copies_itself i" and "scheduled_le s0 dm" and "s0 < seq i"
  shows "copy_dst (depends (fst (markScheduled i QT_CopyTable dm))) = seq i"
proof -
  have "snd (um_get no_schedule (lastScheduledTable dm) (tableId i)) \<le> s0"
    using assms(2) by (simp add: scheduled_le_def marks_le_def)
  with assms(1,3) show ?thesis
    by (auto simp: copies_itself_def markScheduled_def markScheduledTable_def mark_entry_get Let_def)
qed

theorem copy_self_dependency_witness:
  "copy_dst (depends (fst (markScheduled (demo_item 1 ''t'' QT_CopyTable No_deps (CopyTableQuery ''t'' ''t''))
     QT_CopyTable dm_new))) = 1"
  using copy_self_dependency [of "demo_item 1 ''t'' QT_CopyTable No_deps (CopyTableQuery ''t'' ''t'')" 0 dm_new]
  by (simp add: demo_item_def copies_itself_def scheduled_le_def marks_le_def dm_new_def um_get_def no_schedule_def)

end
