(* ===== verification/Task_Queue.thy ===== *)
theory Task_Queue
  imports Dependency_Manager
begin

section \<open>The task queue\<close>

text \<open>
  The model of src/src/scheduler/TableQueue.h, TaskQueue.h, TaskQueue.cpp, TaskQueueDeps.cpp
  and TaskQueueFetch.cpp. Every operation runs under the mutex of the queue, so it is a
  function on the state; the completion callback, which ends with two counter updates
  outside the mutex, is two functions. A callback is the record of what it captured.
  The database is a parameter of the callback: it asks for the table name of a file.
\<close>

subsection \<open>State\<close>

record table_queue =
  registered :: bool
  registerSeq :: u64
  tqueue :: "scheduled_item list"

definition table_queue_new :: table_queue where
  "table_queue_new = \<lparr>registered = False, registerSeq = 0, tqueue = []\<rparr>"

record parsed_query =
  pq_seq :: u64
  pq_table :: string
  pq_type :: query_type
  pq_priority :: query_priority
  pq_query :: query

datatype completion_action = RegisterTable | UpdateDeps

record completion =
  c_actions :: "completion_action list"
  c_table :: string
  c_type :: query_type
  c_seq :: u64
  c_deps :: dependency_payload
  c_queue :: "string option"

record executable_task =
  x_seq :: u64
  x_type :: query_type
  x_query :: query
  execOverride :: bool
  onCompleted :: completion

record task_queue =
  fetchTick :: u64
  submitted :: u64
  running :: u64
  completed :: u64
  readyToFetch :: bool
  tableQs :: "(string, table_queue) umap"
  globalIndex :: global_index
  loadQueue :: "scheduled_item list"
  loadBlocked :: bool
  depManager :: dependency_manager
  barriers :: "scheduled_item list"
  waitingTables :: "string list"
  quitFlag :: bool

definition task_queue_new :: task_queue where
  "task_queue_new =
     \<lparr>fetchTick = 0, submitted = 0, running = 0, completed = 0, readyToFetch = False, tableQs = [],
      globalIndex = gi_new, loadQueue = [], loadBlocked = False, depManager = dm_new, barriers = [],
      waitingTables = [], quitFlag = False\<rparr>"

text \<open>\<open>tables[id]\<close>, created when missing, and the announcement of a queue's head.\<close>

definition tq_of :: "string \<Rightarrow> task_queue \<Rightarrow> table_queue" where
  "tq_of t tq = um_get table_queue_new (tableQs tq) t"

definition set_tq :: "string \<Rightarrow> table_queue \<Rightarrow> task_queue \<Rightarrow> task_queue" where
  "set_tq t q tq = tq\<lparr>tableQs := um_put t q (tableQs tq)\<rparr>"

definition announce :: "string \<Rightarrow> task_queue \<Rightarrow> task_queue" where
  "announce t tq =
     (case tqueue (tq_of t tq) of
        [] \<Rightarrow> tq
      | head # _ \<Rightarrow>
          tq\<lparr>globalIndex := upsert (Some t) (priority head) (fetchTick tq) (seq head) (globalIndex tq)\<rparr>)"

subsection \<open>Registration\<close>

definition setReady :: "task_queue \<Rightarrow> task_queue" where
  "setReady tq = tq\<lparr>readyToFetch := True\<rparr>"

definition item_of :: "parsed_query \<Rightarrow> scheduled_item" where
  "item_of p = \<lparr>seq = pq_seq p, priority = pq_priority p, tableId = pq_table p, itype = pq_type p,
                depends = No_deps, squery = pq_query p, droppedFlag = False\<rparr>"

definition enqueue :: "scheduled_item \<Rightarrow> task_queue \<Rightarrow> task_queue" where
  "enqueue i tq =
     (let q = tq_of (tableId i) tq in set_tq (tableId i) (q\<lparr>tqueue := tqueue q @ [i]\<rparr>) tq)"

text \<open>The second component is the value of a future that is ready at once.\<close>

definition registerTask :: "parsed_query \<Rightarrow> task_queue \<Rightarrow> task_queue \<times> query_result res option" where
  "registerTask p tq =
     (if quitFlag tq then
        (tq, Some (errorMsg3 ''RegisterTask'' ''system'' ''quitFlag active: rejecting new task''))
      else
        (let i = item_of p; tq1 = tq\<lparr>submitted := submitted tq + 1\<rparr>
         in if itype i \<in> {QT_Quit, QT_List, QT_Listen} then (tq1\<lparr>barriers := barriers tq1 @ [i]\<rparr>, None)
            else if itype i = QT_Load then
              (let (i', dm) = markScheduled i (itype i) (depManager tq1)
               in (tq1\<lparr>depManager := dm, loadQueue := loadQueue tq1 @ [i']\<rparr>, None))
            else if itype i \<in> {QT_Dump, QT_Drop, QT_CopyTable} then
              (let (i', dm) = markScheduled i (itype i) (depManager tq1)
               in (enqueue i' (tq1\<lparr>depManager := dm\<rparr>), None))
            else (enqueue i tq1, None)))"

subsection \<open>Building a task\<close>

definition classifyActions :: "scheduled_item \<Rightarrow> task_queue \<Rightarrow> completion_action list res" where
  "classifyActions i tq =
     (if itype i = QT_Load then
        (case map_of (tableQs tq) (tableId i) of
           Some q \<Rightarrow>
             if registered q then
               if registerSeq q > seq i then
                 Inl (Std_invalid_argument (''Wrongly execute a later Load '' @
                   string_of_nat (unat (registerSeq q)) @ '' before an earlier Load '' @ string_of_nat (unat (seq i))))
               else Inr [UpdateDeps]
             else Inr [RegisterTable, UpdateDeps]
         | None \<Rightarrow> Inr [RegisterTable, UpdateDeps])
      else if itype i = QT_CopyTable then Inr [RegisterTable, UpdateDeps]
      else if itype i \<in> {QT_Dump, QT_Drop} then Inr [UpdateDeps]
      else if tableId i \<noteq> [] then Inr [UpdateDeps]
      else Inr [])"

definition buildExecutableFromScheduled :: "scheduled_item \<Rightarrow> task_queue \<Rightarrow> executable_task res" where
  "buildExecutableFromScheduled i tq =
     res_bind (classifyActions i tq) (\<lambda>actions.
       Inr \<lparr>x_seq = seq i, x_type = itype i, x_query = squery i, execOverride = droppedFlag i,
            onCompleted =
              \<lparr>c_actions = actions, c_table = tableId i, c_type = itype i, c_seq = seq i, c_deps = depends i,
               c_queue = (if tableId i \<noteq> [] \<and> tableId i \<noteq> controlTableId \<and> um_contains (tableQs tq) (tableId i)
                          then Some (tableId i) else None)\<rparr>\<rparr>)"

subsection \<open>Completion\<close>

definition registerTableQueue :: "string \<Rightarrow> u64 \<Rightarrow> task_queue \<Rightarrow> task_queue" where
  "registerTableQueue t s tq =
     (let q = tq_of t tq
      in if registered q then tq
         else
           announce t (set_tq t (q\<lparr>registered := True, registerSeq := s,
             tqueue := map (\<lambda>p. if seq p < s then p\<lparr>droppedFlag := True\<rparr> else p) (tqueue q)\<rparr>) tq))"

definition applyRegisterTable :: "completion \<Rightarrow> task_queue \<Rightarrow> task_queue" where
  "applyRegisterTable c tq =
     (let tq1 = registerTableQueue (c_table c) (c_seq c) tq
      in if c_type c = QT_CopyTable then registerTableQueue (copy_new (c_deps c)) (c_seq c) tq1 else tq1)"

definition notify ::
  "dependency_type \<Rightarrow> string \<Rightarrow> u64 \<Rightarrow> task_queue \<Rightarrow> scheduled_item list \<times> task_queue" where
  "notify ty k s tq =
     (let (ready, dm) = notifyCompleted ty k s (depManager tq) in (ready, tq\<lparr>depManager := dm\<rparr>))"

fun notify_tables :: "string list \<Rightarrow> u64 \<Rightarrow> task_queue \<Rightarrow> scheduled_item list \<times> task_queue" where
  "notify_tables [] s tq = ([], tq)"
| "notify_tables (t # ts) s tq =
     (let (r1, tq1) = notify Table_dep t s tq; (r2, tq2) = notify_tables ts s tq1 in (r1 @ r2, tq2))"

text \<open>The ready file items, the ready table items and the new state.\<close>

definition updateDependencyRecords ::
  "completion \<Rightarrow> task_queue \<Rightarrow> scheduled_item list \<times> scheduled_item list \<times> task_queue" where
  "updateDependencyRecords c tq =
     (if c_type c = QT_Load then
        (let (rf, tq1) = notify File (load_path (c_deps c)) (c_seq c) tq;
             pend = pending_tables (c_deps c);
             (rt, tq2) = notify_tables (if pend \<noteq> [] then pend else [c_table c]) (c_seq c) tq1
         in (rf, rt, tq2))
      else if c_type c = QT_Dump then
        (let (rf, tq1) = notify File (dump_path (c_deps c)) (c_seq c) tq;
             (rt, tq2) = notify Table_dep (c_table c) (c_seq c) tq1
         in (rf, rt, tq2))
      else if c_type c = QT_Drop then
        (let (rt, tq1) = notify Table_dep (c_table c) (c_seq c) tq
         in ([], rt,
             case map_of (tableQs tq1) (c_table c) of
               None \<Rightarrow> tq1
             | Some q \<Rightarrow> set_tq (c_table c) (q\<lparr>registered := False\<rparr>) tq1))
      else if c_type c = QT_CopyTable then
        (let (rt, tq1) = notify_tables [c_table c, copy_new (c_deps c)] (c_seq c) tq in ([], rt, tq1))
      else if c_table c \<noteq> [] then
        (let (rt, tq1) = notify Table_dep (c_table c) (c_seq c) tq in ([], rt, tq1))
      else ([], [], tq))"

definition wait :: "dependency_type \<Rightarrow> string \<Rightarrow> scheduled_item \<Rightarrow> task_queue \<Rightarrow> task_queue" where
  "wait ty k i tq = tq\<lparr>depManager := addWait ty k i (depManager tq)\<rparr>"

definition push_front :: "scheduled_item \<Rightarrow> task_queue \<Rightarrow> task_queue" where
  "push_front i tq =
     (let q = tq_of (tableId i) tq
      in announce (tableId i) (set_tq (tableId i) (q\<lparr>tqueue := i # tqueue q\<rparr>) tq))"

definition updateReadyFiles ::
  "files \<Rightarrow> scheduled_item \<Rightarrow> task_queue \<times> database \<Rightarrow> task_queue \<times> database" where
  "updateReadyFiles fs i = (\<lambda>(tq, d).
     if itype i = QT_Load then
       if pending_tables (depends i) \<noteq> [] then
         (let (n, d') = getFileTableName fs (load_path (depends i)) d
          in (tq\<lparr>loadQueue := i\<lparr>tableId := n\<rparr> # loadQueue tq\<rparr>, d'))
       else if load_table (depends i) > lastCompletedFor Table_dep (tableId i) (depManager tq) then
         (wait Table_dep (tableId i) i tq, d)
       else (tq\<lparr>loadQueue := i # loadQueue tq\<rparr>, d)
     else (push_front i tq, d))"

definition updateReadyTables :: "scheduled_item \<Rightarrow> task_queue \<Rightarrow> task_queue" where
  "updateReadyTables i tq =
     (if itype i = QT_Load then tq\<lparr>loadQueue := i # loadQueue tq\<rparr>
      else if itype i = QT_CopyTable \<and>
              copy_src (depends i) > lastCompletedFor Table_dep (tableId i) (depManager tq) then
        wait Table_dep (tableId i) i tq
      else if itype i = QT_CopyTable \<and>
              copy_dst (depends i) > lastCompletedFor Table_dep (copy_new (depends i)) (depManager tq) then
        wait Table_dep (copy_new (depends i)) i tq
      else push_front i tq)"

definition applyUpdateDeps :: "files \<Rightarrow> completion \<Rightarrow> task_queue \<times> database \<Rightarrow> task_queue \<times> database" where
  "applyUpdateDeps fs c = (\<lambda>(tq, d).
     let (rf, rt, tq1) = updateDependencyRecords c tq;
         (tq2, d2) = fold (updateReadyFiles fs) rf (tq1, d)
     in (fold updateReadyTables rt tq2, d2))"

fun applyActions ::
  "files \<Rightarrow> completion_action list \<Rightarrow> completion \<Rightarrow> task_queue \<times> database \<Rightarrow> task_queue \<times> database" where
  "applyActions fs [] c st = st"
| "applyActions fs (RegisterTable # as) c st = applyActions fs as c (applyRegisterTable c (fst st), snd st)"
| "applyActions fs (UpdateDeps # as) c st = applyActions fs as c (applyUpdateDeps fs c st)"

text \<open>The callback under the mutex, and its counter updates after it.\<close>

definition onCompleted_locked :: "files \<Rightarrow> completion \<Rightarrow> task_queue \<times> database \<Rightarrow> task_queue \<times> database" where
  "onCompleted_locked fs c st =
     (let (tq, d) = applyActions fs (c_actions c) c st
      in (case c_queue c of None \<Rightarrow> tq | Some t \<Rightarrow> announce t tq, d))"

definition onCompleted_count :: "task_queue \<Rightarrow> task_queue" where
  "onCompleted_count tq = tq\<lparr>running := running tq - 1, completed := completed tq + 1\<rparr>"

subsection \<open>Fetching\<close>

text \<open>
  The candidate of the load queue, which is taken out of it unless a barrier stands before
  it, and the table whose head is the other candidate.
\<close>

definition beyond_barrier :: "scheduled_item \<Rightarrow> task_queue \<Rightarrow> bool" where
  "beyond_barrier i tq \<longleftrightarrow> barriers tq \<noteq> [] \<and> seq i > seq (hd (barriers tq))"

definition take_load :: "task_queue \<Rightarrow> scheduled_item option \<times> task_queue" where
  "take_load tq =
     (if loadQueue tq \<noteq> [] \<and> \<not> loadBlocked tq then
        if beyond_barrier (hd (loadQueue tq)) tq then (None, tq\<lparr>loadBlocked := True\<rparr>)
        else (Some (hd (loadQueue tq)), tq\<lparr>loadQueue := tl (loadQueue tq)\<rparr>)
      else (None, tq))"

lemma pick_loop_length:
  "pick_loop sel lv h = (r, h') \<Longrightarrow> length h' \<le> length h \<and> (r \<noteq> None \<longrightarrow> length h' < length h)"
proof -
  assume "pick_loop sel lv h = (r, h')"
  from pick_loop_spec [OF this] obtain stale where
    "mset h = mset h' + mset stale + (case r of None \<Rightarrow> {#} | Some k \<Rightarrow> {#k#})" by blast
  from arg_cong [OF this, of size] show ?thesis by (cases r) simp_all
qed

lemma pickBest_length:
  "pickBest sel g = (r, g') \<Longrightarrow> length (heap g') \<le> length (heap g) \<and> (r \<noteq> None \<longrightarrow> length (heap g') < length (heap g))"
  using pick_loop_length by (fastforce simp: pickBest_def split: prod.splits)

function take_table :: "(gkey list \<Rightarrow> nat) \<Rightarrow> task_queue \<Rightarrow> string option \<times> task_queue" where
  "take_table sel tq =
     (case pickBest sel (globalIndex tq) of
        (None, g) \<Rightarrow> (None, tq\<lparr>globalIndex := g\<rparr>)
      | (Some t, g) \<Rightarrow>
          (let tq1 = tq\<lparr>globalIndex := g\<rparr>
           in case tqueue (tq_of t tq1) of
                [] \<Rightarrow> take_table sel tq1
              | head # _ \<Rightarrow>
                  if beyond_barrier head tq1 then take_table sel (tq1\<lparr>waitingTables := waitingTables tq1 @ [t]\<rparr>)
                  else (Some t, tq1)))"
  by pat_completeness auto
termination
  by (relation "measure (\<lambda>(sel, tq). length (heap (globalIndex tq)))") (auto dest!: sym [of _ "pickBest _ _"] pickBest_length)

declare take_table.simps [simp del]

text \<open>Induction over the search: the index is empty, a key is skipped, its table is blocked, or it is taken.\<close>

lemma take_table_rule [consumes 1, case_names none skip block take]:
  assumes "take_table sel tq = (r, tq')"
    and none: "\<And>tq g. pickBest sel (globalIndex tq) = (None, g) \<Longrightarrow> Q tq None (tq\<lparr>globalIndex := g\<rparr>)"
    and skip: "\<And>tq g t r tq'. pickBest sel (globalIndex tq) = (Some t, g) \<Longrightarrow> tqueue (tq_of t tq) = [] \<Longrightarrow>
      Q (tq\<lparr>globalIndex := g\<rparr>) r tq' \<Longrightarrow> Q tq r tq'"
    and block: "\<And>tq g t r tq'. pickBest sel (globalIndex tq) = (Some t, g) \<Longrightarrow> tqueue (tq_of t tq) \<noteq> [] \<Longrightarrow>
      beyond_barrier (hd (tqueue (tq_of t tq))) tq \<Longrightarrow>
      Q (tq\<lparr>globalIndex := g, waitingTables := waitingTables tq @ [t]\<rparr>) r tq' \<Longrightarrow> Q tq r tq'"
    and take: "\<And>tq g t. pickBest sel (globalIndex tq) = (Some t, g) \<Longrightarrow> tqueue (tq_of t tq) \<noteq> [] \<Longrightarrow>
      \<not> beyond_barrier (hd (tqueue (tq_of t tq))) tq \<Longrightarrow> Q tq (Some t) (tq\<lparr>globalIndex := g\<rparr>)"
  shows "Q tq r tq'"
  using assms
proof (induction sel tq rule: take_table.induct)
  case (1 sel tq)
  note hyps = "1.prems"(2-)
  obtain p g where p: "pickBest sel (globalIndex tq) = (p, g)" by fastforce
  have same: "tq_of t (tq\<lparr>globalIndex := g\<rparr>) = tq_of t tq" "beyond_barrier i (tq\<lparr>globalIndex := g\<rparr>) = beyond_barrier i tq" for t i
    by (simp_all add: tq_of_def beyond_barrier_def)
  show ?case
  proof (cases p)
    case None
    with "1.prems"(1) p have "r = None" "tq' = tq\<lparr>globalIndex := g\<rparr>" by (subst (asm) take_table.simps, simp)+
    with hyps(1) p None show ?thesis by simp
  next
    case (Some t)
    show ?thesis
    proof (cases "tqueue (tq_of t (tq\<lparr>globalIndex := g\<rparr>))")
      case Nil
      with "1.prems"(1) p Some have "take_table sel (tq\<lparr>globalIndex := g\<rparr>) = (r, tq')"
        by (subst (asm) take_table.simps) simp
      from "1.IH"(1) [OF p [symmetric] Some refl Nil this hyps] hyps(2) p Some Nil show ?thesis by (simp add: same)
    next
      case (Cons h hs)
      show ?thesis
      proof (cases "beyond_barrier h (tq\<lparr>globalIndex := g\<rparr>)")
        case True
        with "1.prems"(1) p Some Cons have
          "take_table sel (tq\<lparr>globalIndex := g, waitingTables := waitingTables tq @ [t]\<rparr>) = (r, tq')"
          by (subst (asm) take_table.simps) simp
        from "1.IH"(2) [OF p [symmetric] Some refl Cons True _ hyps] this hyps(3) p Some Cons True
        show ?thesis by (simp add: same)
      next
        case False
        with "1.prems"(1) p Some Cons have "r = Some t" "tq' = tq\<lparr>globalIndex := g\<rparr>"
          by (subst (asm) take_table.simps, simp)+
        with hyps(4) p Some Cons False show ?thesis by (simp add: same)
      qed
    qed
  qed
qed

definition getFetched ::
  "(gkey list \<Rightarrow> nat) \<Rightarrow> task_queue \<Rightarrow> scheduled_item option \<times> string option \<times> task_queue" where
  "getFetched sel tq =
     (let (loadCand, tq1) = take_load tq; (tableCand, tq2) = take_table sel tq1
      in (loadCand, tableCand, tq2))"

definition count_fetch :: "task_queue \<Rightarrow> task_queue" where
  "count_fetch tq = tq\<lparr>running := running tq + 1, fetchTick := fetchTick tq + 1\<rparr>"

definition fetchBarrier :: "task_queue \<Rightarrow> (task_queue \<times> executable_task option) res" where
  "fetchBarrier tq =
     (case barriers tq of
        [] \<Rightarrow> Inr (tq, None)
      | b # bs \<Rightarrow>
          if running tq > 0 then Inr (tq, None)
          else
            (let tq1 = tq\<lparr>barriers := bs, quitFlag := (quitFlag tq \<or> itype b = QT_Quit)\<rparr>
             in res_bind (buildExecutableFromScheduled b tq1) (\<lambda>x.
                  Inr ((fold announce (waitingTables tq1) (count_fetch tq1))
                         \<lparr>waitingTables := [], loadBlocked := False\<rparr>, Some x))))"

text \<open>The two dependency checks: a candidate that has to wait is moved to the heap of the
  file or table it waits for, and the loop goes on.\<close>

definition judgeLoadDeps :: "scheduled_item \<Rightarrow> task_queue \<Rightarrow> task_queue \<times> bool" where
  "judgeLoadDeps i tq =
     (if load_file (depends i) > lastCompletedFor File (load_path (depends i)) (depManager tq) then
        (wait File (load_path (depends i)) i tq, True)
      else if load_table (depends i) > lastCompletedFor Table_dep (tableId i) (depManager tq) then
        (wait Table_dep (tableId i) i tq, True)
      else (tq, False))"

definition pop_table :: "string \<Rightarrow> task_queue \<Rightarrow> task_queue" where
  "pop_table t tq = (let q = tq_of t tq in set_tq t (q\<lparr>tqueue := tl (tqueue q)\<rparr>) tq)"

definition park :: "dependency_type \<Rightarrow> string \<Rightarrow> string \<Rightarrow> task_queue \<Rightarrow> task_queue \<times> bool" where
  "park ty k t tq = (wait ty k (hd (tqueue (tq_of t tq))) (pop_table t tq), True)"

definition judgeNormalDeps :: "string \<Rightarrow> task_queue \<Rightarrow> task_queue \<times> bool" where
  "judgeNormalDeps t tq =
     (let i = hd (tqueue (tq_of t tq));
          done = (\<lambda>ty k. lastCompletedFor ty k (depManager tq))
      in if itype i = QT_Dump \<and> dump_file (depends i) > done File (dump_path (depends i)) then
           park File (dump_path (depends i)) t tq
         else if itype i = QT_Dump \<and> dump_table (depends i) > done Table_dep (tableId i) then
           park Table_dep (tableId i) t tq
         else if itype i = QT_Drop \<and> drop_table (depends i) > done Table_dep (tableId i) then
           park Table_dep (tableId i) t tq
         else if itype i = QT_CopyTable \<and> copy_src (depends i) > done Table_dep (tableId i) then
           park Table_dep (tableId i) t tq
         else if itype i = QT_CopyTable \<and> copy_dst (depends i) > done Table_dep (copy_new (depends i)) then
           park Table_dep (copy_new (depends i)) t tq
         else (tq, False))"

definition prefer_load :: "scheduled_item option \<Rightarrow> scheduled_item option \<Rightarrow> bool" where
  "prefer_load l i =
     (case (l, i) of
        (_, None) \<Rightarrow> True
      | (None, Some _) \<Rightarrow> False
      | (Some a, Some b) \<Rightarrow> priority a < priority b \<or> priority a = priority b \<and> seq a < seq b)"

lemma take_load_measure:
  "take_load tq = (r, tq') \<Longrightarrow> globalIndex tq' = globalIndex tq \<and> length (loadQueue tq') \<le> length (loadQueue tq) \<and>
   (r \<noteq> None \<longrightarrow> length (loadQueue tq') < length (loadQueue tq))"
  by (auto simp: take_load_def split: if_splits)

lemma take_table_measure:
  "take_table sel tq = (r, tq') \<Longrightarrow> loadQueue tq' = loadQueue tq \<and> length (heap (globalIndex tq')) \<le> length (heap (globalIndex tq)) \<and>
   (r \<noteq> None \<longrightarrow> length (heap (globalIndex tq')) < length (heap (globalIndex tq)))"
  by (induction rule: take_table_rule) (auto dest: pickBest_length)

lemma wait_simps [simp]:
  "loadQueue (wait ty k i tq) = loadQueue tq" "globalIndex (wait ty k i tq) = globalIndex tq"
  "tableQs (wait ty k i tq) = tableQs tq" "barriers (wait ty k i tq) = barriers tq"
  "running (wait ty k i tq) = running tq" "waitingTables (wait ty k i tq) = waitingTables tq"
  by (simp_all add: wait_def)

lemma set_tq_simps [simp]:
  "loadQueue (set_tq t q tq) = loadQueue tq" "globalIndex (set_tq t q tq) = globalIndex tq"
  "depManager (set_tq t q tq) = depManager tq" "barriers (set_tq t q tq) = barriers tq"
  "running (set_tq t q tq) = running tq" "waitingTables (set_tq t q tq) = waitingTables tq"
  by (simp_all add: set_tq_def)

lemma pop_table_simps [simp]:
  "loadQueue (pop_table t tq) = loadQueue tq" "globalIndex (pop_table t tq) = globalIndex tq"
  "depManager (pop_table t tq) = depManager tq" "barriers (pop_table t tq) = barriers tq"
  "running (pop_table t tq) = running tq" "waitingTables (pop_table t tq) = waitingTables tq"
  by (simp_all add: pop_table_def Let_def)

lemma judgeLoadDeps_measure:
  "judgeLoadDeps i tq = (tq', b) \<Longrightarrow> loadQueue tq' = loadQueue tq \<and> globalIndex tq' = globalIndex tq"
  by (auto simp: judgeLoadDeps_def split: if_splits)

lemma judgeNormalDeps_measure:
  "judgeNormalDeps t tq = (tq', b) \<Longrightarrow> loadQueue tq' = loadQueue tq \<and> globalIndex tq' = globalIndex tq"
  by (auto simp: judgeNormalDeps_def park_def Let_def split: if_splits)

definition fetch_measure :: "task_queue \<Rightarrow> nat" where
  "fetch_measure tq = length (loadQueue tq) + length (heap (globalIndex tq))"

lemma getFetched_measure:
  assumes "getFetched sel tq = (l, t, tq')" and "l \<noteq> None \<or> t \<noteq> None"
  shows "fetch_measure tq' < fetch_measure tq"
proof -
  obtain tq1 where 1: "take_load tq = (l, tq1)" and 2: "take_table sel tq1 = (t, tq')"
    using assms(1) by (auto simp: getFetched_def split: prod.splits)
  from take_load_measure [OF 1] take_table_measure [OF 2] assms(2) show ?thesis
    by (auto simp: fetch_measure_def)
qed

text \<open>
  The loop of \<open>fetchNext\<close>. When both candidates exist, the one that is not chosen is dropped:
  a table has already left the index, and a load is owned by the local variable that ends
  with the iteration.
\<close>

definition head_of :: "string \<Rightarrow> task_queue \<Rightarrow> scheduled_item" where
  "head_of t tq = hd (tqueue (tq_of t tq))"

function fetch_loop :: "(gkey list \<Rightarrow> nat) \<Rightarrow> task_queue \<Rightarrow> (task_queue \<times> executable_task option) res" where
  "fetch_loop sel tq =
     (let (l, t, tq1) = getFetched sel tq
      in if l = None \<and> t = None then fetchBarrier tq1
         else if prefer_load l (map_option (\<lambda>t. head_of t tq1) t) then
           (let (tq2, again) = judgeLoadDeps (the l) tq1
            in if again then fetch_loop sel tq2
               else res_bind (buildExecutableFromScheduled (the l) tq2) (\<lambda>x. Inr (count_fetch tq2, Some x)))
         else
           (let (tq2, again) = judgeNormalDeps (the t) tq1
            in if again then fetch_loop sel tq2
               else res_bind (buildExecutableFromScheduled (head_of (the t) tq2) tq2) (\<lambda>x.
                      Inr (count_fetch (pop_table (the t) tq2), Some x))))"
  by pat_completeness auto
termination
proof (relation "measure (\<lambda>(sel, tq). fetch_measure tq)")
  fix sel tq p l q t tq1 j tq2 again
  assume st: "p = getFetched sel tq" "(l, q) = p" "(t, tq1) = q" and "\<not> (l = None \<and> t = None)"
    and j: "j = judgeLoadDeps (the l) tq1" "(tq2, again) = j"
  then have "fetch_measure tq1 < fetch_measure tq"
    using getFetched_measure [of sel tq l t tq1] by auto
  moreover have "fetch_measure tq2 = fetch_measure tq1"
    using judgeLoadDeps_measure [of "the l" tq1 tq2 again] j by (simp add: fetch_measure_def)
  ultimately show "((sel, tq2), sel, tq) \<in> measure (\<lambda>(sel, tq). fetch_measure tq)" by simp
next
  fix sel tq p l q t tq1 j tq2 again
  assume st: "p = getFetched sel tq" "(l, q) = p" "(t, tq1) = q" and "\<not> (l = None \<and> t = None)"
    and j: "j = judgeNormalDeps (the t) tq1" "(tq2, again) = j"
  then have "fetch_measure tq1 < fetch_measure tq"
    using getFetched_measure [of sel tq l t tq1] by auto
  moreover have "fetch_measure tq2 = fetch_measure tq1"
    using judgeNormalDeps_measure [of "the t" tq1 tq2 again] j by (simp add: fetch_measure_def)
  ultimately show "((sel, tq2), sel, tq) \<in> measure (\<lambda>(sel, tq). fetch_measure tq)" by simp
qed simp

declare fetch_loop.simps [simp del]

definition fetchNext :: "(gkey list \<Rightarrow> nat) \<Rightarrow> task_queue \<Rightarrow> (task_queue \<times> executable_task option) res" where
  "fetchNext sel tq = (if \<not> readyToFetch tq then Inr (tq, None) else fetch_loop sel tq)"

end
