(* ===== verification/Scheduling.thy ===== *)
theory Scheduling
  imports Task_Queue
begin

section \<open>Scheduling: what the task queue guarantees\<close>

text \<open>
  Properties of the operations of \<open>Task_Queue\<close>: the tasks they keep, lose and hand out, the
  invariant of the queue, and schedules of one worker that show what goes wrong.
\<close>

subsection \<open>The tasks in the queue\<close>

text \<open>
  A task is known by its number, its type and its query, which it keeps from its submission to its
  execution. \<open>pending\<close> are the tasks a queue holds, wherever they are.
\<close>

type_synonym task_core = "u64 \<times> query_type \<times> query"

definition core :: "scheduled_item \<Rightarrow> task_core" where
  "core i = (seq i, itype i, squery i)"

definition x_core :: "executable_task \<Rightarrow> task_core" where
  "x_core x = (x_seq x, x_type x, x_query x)"

definition pq_core :: "parsed_query \<Rightarrow> task_core" where
  "pq_core p = (pq_seq p, pq_type p, pq_query p)"

lemma fst_core [simp]: "fst (core i) = seq i" "fst (x_core x) = x_seq x" "fst (pq_core p) = pq_seq p"
  by (simp_all add: core_def x_core_def pq_core_def)

lemma core_updates [simp]:
  "core (i\<lparr>droppedFlag := b\<rparr>) = core i" "core (i\<lparr>tableId := t\<rparr>) = core i"
  by (simp_all add: core_def)

definition queue_cores :: "(string, table_queue) umap \<Rightarrow> task_core multiset" where
  "queue_cores m = mset (concat (map (\<lambda>e. map core (tqueue (snd e))) m))"

definition pending :: "task_queue \<Rightarrow> task_core multiset" where
  "pending tq = mset (map core (loadQueue tq)) + queue_cores (tableQs tq) +
     image_mset core (waiting_items (depManager tq)) + mset (map core (barriers tq))"

lemma queue_cores_put:
  "queue_cores (um_put t q m) + mset (map core (tqueue (um_get table_queue_new m t))) =
   queue_cores m + mset (map core (tqueue q))"
  unfolding queue_cores_def um_put_def um_get_def
  by (induction m) (auto simp: table_queue_new_def ac_simps)

lemma announce_simps [simp]:
  "fetchTick (announce t tq) = fetchTick tq" "submitted (announce t tq) = submitted tq"
  "running (announce t tq) = running tq" "completed (announce t tq) = completed tq"
  "readyToFetch (announce t tq) = readyToFetch tq" "tableQs (announce t tq) = tableQs tq"
  "loadQueue (announce t tq) = loadQueue tq" "loadBlocked (announce t tq) = loadBlocked tq"
  "depManager (announce t tq) = depManager tq" "barriers (announce t tq) = barriers tq"
  "waitingTables (announce t tq) = waitingTables tq" "quitFlag (announce t tq) = quitFlag tq"
  by (simp_all add: announce_def split: list.split)

lemma fold_announce_simps [simp]:
  "running (fold announce ts tq) = running tq" "tableQs (fold announce ts tq) = tableQs tq"
  "loadQueue (fold announce ts tq) = loadQueue tq" "depManager (fold announce ts tq) = depManager tq"
  "barriers (fold announce ts tq) = barriers tq" "readyToFetch (fold announce ts tq) = readyToFetch tq"
  "quitFlag (fold announce ts tq) = quitFlag tq"
  by (induction ts arbitrary: tq) simp_all

lemma pending_announce [simp]: "pending (announce t tq) = pending tq"
  by (simp add: pending_def)

lemma tq_of_set_tq: "tq_of u (set_tq t q tq) = (if u = t then q else tq_of u tq)"
  by (simp add: tq_of_def set_tq_def um_get_put)

lemma pending_set_tq:
  "pending (set_tq t q tq) + mset (map core (tqueue (tq_of t tq))) = pending tq + mset (map core (tqueue q))"
  using queue_cores_put [of t q "tableQs tq"]
  by (simp add: pending_def set_tq_def tq_of_def ac_simps)

lemma pending_wait [simp]: "pending (wait ty k i tq) = add_mset (core i) (pending tq)"
  by (simp add: pending_def wait_def addWait_items)

lemma pending_push_front [simp]: "pending (push_front i tq) = add_mset (core i) (pending tq)"
  using pending_set_tq [of "tableId i" "(tq_of (tableId i) tq)\<lparr>tqueue := i # tqueue (tq_of (tableId i) tq)\<rparr>" tq]
  by (simp add: push_front_def Let_def)

lemma pending_pop_table:
  "tqueue (tq_of t tq) \<noteq> [] \<Longrightarrow> pending tq = add_mset (core (head_of t tq)) (pending (pop_table t tq))"
  using pending_set_tq [of t "(tq_of t tq)\<lparr>tqueue := tl (tqueue (tq_of t tq))\<rparr>" tq]
  by (cases "tqueue (tq_of t tq)") (simp_all add: pop_table_def Let_def head_of_def)

lemma pending_enqueue [simp]: "pending (enqueue i tq) = add_mset (core i) (pending tq)"
  using pending_set_tq [of "tableId i" "(tq_of (tableId i) tq)\<lparr>tqueue := tqueue (tq_of (tableId i) tq) @ [i]\<rparr>" tq]
  by (simp add: enqueue_def Let_def)

lemma count_fetch_simps [simp]:
  "pending (count_fetch tq) = pending tq" "barriers (count_fetch tq) = barriers tq"
  "running (count_fetch tq) = running tq + 1" "depManager (count_fetch tq) = depManager tq"
  "loadQueue (count_fetch tq) = loadQueue tq" "tableQs (count_fetch tq) = tableQs tq"
  by (simp_all add: count_fetch_def pending_def)

subsection \<open>Candidates\<close>

lemma take_load_spec:
  assumes "take_load tq = (l, tq')"
  shows "tableQs tq' = tableQs tq \<and> depManager tq' = depManager tq \<and> barriers tq' = barriers tq \<and>
     running tq' = running tq \<and> globalIndex tq' = globalIndex tq \<and> quitFlag tq' = quitFlag tq \<and>
     (case l of
        None \<Rightarrow> loadQueue tq' = loadQueue tq
      | Some i \<Rightarrow> loadQueue tq = i # loadQueue tq' \<and> \<not> beyond_barrier i tq)"
  using assms by (cases "loadQueue tq") (auto simp: take_load_def split: if_splits)

lemma take_table_spec:
  assumes "take_table sel tq = (t, tq')"
  shows "tableQs tq' = tableQs tq \<and> depManager tq' = depManager tq \<and> barriers tq' = barriers tq \<and>
     running tq' = running tq \<and> loadQueue tq' = loadQueue tq \<and> quitFlag tq' = quitFlag tq \<and>
     (case t of
        None \<Rightarrow> True
      | Some t \<Rightarrow> tqueue (tq_of t tq') \<noteq> [] \<and> \<not> beyond_barrier (head_of t tq') tq')"
  using assms by (induction rule: take_table_rule) (auto simp: tq_of_def head_of_def beyond_barrier_def split: option.splits)

text \<open>What a call of \<open>getFetched\<close> leaves, and the seqs it takes.\<close>

definition load_core :: "scheduled_item option \<Rightarrow> task_core multiset" where
  "load_core l = (case l of None \<Rightarrow> {#} | Some i \<Rightarrow> {#core i#})"

lemma getFetched_spec:
  assumes "getFetched sel tq = (l, t, tq')"
  shows "tableQs tq' = tableQs tq \<and> depManager tq' = depManager tq \<and> barriers tq' = barriers tq \<and>
     running tq' = running tq \<and> quitFlag tq' = quitFlag tq \<and> pending tq = pending tq' + load_core l \<and>
     (\<forall>i. l = Some i \<longrightarrow> loadQueue tq = i # loadQueue tq' \<and> \<not> beyond_barrier i tq') \<and>
     (l = None \<longrightarrow> loadQueue tq' = loadQueue tq) \<and>
     (\<forall>u. t = Some u \<longrightarrow> tqueue (tq_of u tq') \<noteq> [] \<and> \<not> beyond_barrier (head_of u tq') tq')"
proof -
  obtain tq1 where 1: "take_load tq = (l, tq1)" and 2: "take_table sel tq1 = (t, tq')"
    using assms by (auto simp: getFetched_def split: prod.splits)
  from take_load_spec [OF 1] take_table_spec [OF 2] show ?thesis
    by (cases l; cases t) (auto simp: pending_def load_core_def beyond_barrier_def)
qed

lemma judgeLoadDeps_spec:
  assumes "judgeLoadDeps i tq = (tq', again)"
  shows "tableQs tq' = tableQs tq \<and> barriers tq' = barriers tq \<and> running tq' = running tq \<and>
     loadQueue tq' = loadQueue tq \<and>
     (if again then pending tq' = add_mset (core i) (pending tq) \<and> (\<exists>ty k. tq' = wait ty k i tq)
      else tq' = tq \<and> load_file (depends i) \<le> lastCompletedFor File (load_path (depends i)) (depManager tq) \<and>
           load_table (depends i) \<le> lastCompletedFor Table_dep (tableId i) (depManager tq))"
  using assms by (auto simp: judgeLoadDeps_def not_less split: if_splits)

text \<open>The dependencies a task of a table queue must have satisfied.\<close>

definition deps_done :: "query_type \<Rightarrow> string \<Rightarrow> dependency_payload \<Rightarrow> dependency_manager \<Rightarrow> bool" where
  "deps_done ty t d dm \<longleftrightarrow>
     (ty = QT_Load \<longrightarrow> load_file d \<le> lastCompletedFor File (load_path d) dm \<and> load_table d \<le> lastCompletedFor Table_dep t dm) \<and>
     (ty = QT_Dump \<longrightarrow> dump_file d \<le> lastCompletedFor File (dump_path d) dm \<and> dump_table d \<le> lastCompletedFor Table_dep t dm) \<and>
     (ty = QT_Drop \<longrightarrow> drop_table d \<le> lastCompletedFor Table_dep t dm) \<and>
     (ty = QT_CopyTable \<longrightarrow> copy_src d \<le> lastCompletedFor Table_dep t dm \<and> copy_dst d \<le> lastCompletedFor Table_dep (copy_new d) dm)"

lemma judgeNormalDeps_spec:
  assumes "judgeNormalDeps t tq = (tq', again)" and ne: "tqueue (tq_of t tq) \<noteq> []"
  shows "barriers tq' = barriers tq \<and> running tq' = running tq \<and> loadQueue tq' = loadQueue tq \<and> pending tq' = pending tq \<and>
     (if again then \<exists>ty k. tq' = wait ty k (head_of t tq) (pop_table t tq)
      else tq' = tq \<and> (itype (head_of t tq) \<noteq> QT_Load \<longrightarrow>
             deps_done (itype (head_of t tq)) (tableId (head_of t tq)) (depends (head_of t tq)) (depManager tq)))"
  using assms(1) pending_pop_table [OF ne]
  by (auto simp: judgeNormalDeps_def park_def head_of_def deps_done_def Let_def not_less split: if_splits)

subsection \<open>The invariant\<close>

definition barrier_types :: "query_type list" where
  "barrier_types = [QT_Quit, QT_List, QT_Listen]"

definition dep_types :: "query_type list" where
  "dep_types = [QT_Load, QT_Dump, QT_Drop, QT_CopyTable]"

text \<open>Each container holds the kinds of tasks it is for, with the dependencies of their type.\<close>

definition queued_ok :: "scheduled_item \<Rightarrow> bool" where
  "queued_ok i \<longleftrightarrow> itype i \<noteq> QT_Load \<and> itype i \<notin> set barrier_types \<and> deps_ok i"

definition load_ok :: "scheduled_item \<Rightarrow> bool" where
  "load_ok i \<longleftrightarrow> itype i = QT_Load \<and> deps_ok i"

definition waiting_ok :: "scheduled_item \<Rightarrow> bool" where
  "waiting_ok i \<longleftrightarrow> itype i \<in> set dep_types \<and> deps_ok i"

definition barrier_ok :: "scheduled_item \<Rightarrow> bool" where
  "barrier_ok i \<longleftrightarrow> itype i \<in> set barrier_types \<and> deps_ok i"

definition queues_ok :: "(string, table_queue) umap \<Rightarrow> bool" where
  "queues_ok m \<longleftrightarrow> distinct (um_keys m) \<and> (\<forall>t. list_all queued_ok (tqueue (um_get table_queue_new m t)))"

definition tq_inv :: "task_queue \<Rightarrow> bool" where
  "tq_inv tq \<longleftrightarrow> dm_ok (depManager tq) \<and> (\<forall>i \<in># waiting_items (depManager tq). waiting_ok i) \<and>
     list_all load_ok (loadQueue tq) \<and> queues_ok (tableQs tq) \<and>
     list_all barrier_ok (barriers tq)"

lemma waiting_ok_cases: "waiting_ok i \<Longrightarrow> load_ok i \<or> queued_ok i"
  by (auto simp: waiting_ok_def load_ok_def queued_ok_def dep_types_def barrier_types_def)

lemma load_ok_waiting: "load_ok i \<Longrightarrow> waiting_ok i"
  by (simp add: waiting_ok_def load_ok_def dep_types_def)

lemma queued_ok_waiting: "queued_ok i \<Longrightarrow> itype i \<in> set dep_types \<Longrightarrow> waiting_ok i"
  by (simp add: waiting_ok_def queued_ok_def)

lemma tq_inv_queue: "tq_inv tq \<Longrightarrow> list_all queued_ok (tqueue (tq_of t tq))"
  by (simp add: tq_inv_def queues_ok_def tq_of_def)

lemma tq_inv_announce [simp]: "tq_inv (announce t tq) = tq_inv tq"
  by (simp add: tq_inv_def)

lemma tq_inv_fold_announce [simp]: "tq_inv (fold announce ts tq) = tq_inv tq"
  by (induction ts arbitrary: tq) simp_all

lemma tq_inv_count_fetch [simp]: "tq_inv (count_fetch tq) = tq_inv tq"
  by (simp add: tq_inv_def)

lemma tq_inv_wait: "tq_inv tq \<Longrightarrow> waiting_ok i \<Longrightarrow> tq_inv (wait ty k i tq)"
  by (auto simp: tq_inv_def wait_def addWait_items addWait_ok)

lemma queues_ok_put: "queues_ok m \<Longrightarrow> list_all queued_ok (tqueue q) \<Longrightarrow> queues_ok (um_put t q m)"
  by (simp add: queues_ok_def um_get_put distinct_um_put)

lemma tq_inv_set_tq: "tq_inv tq \<Longrightarrow> list_all queued_ok (tqueue q) \<Longrightarrow> tq_inv (set_tq t q tq)"
  by (simp add: tq_inv_def set_tq_def queues_ok_put)

lemma tq_inv_pop_table: "tq_inv tq \<Longrightarrow> tq_inv (pop_table t tq)"
  using tq_inv_queue [of tq t]
  by (cases "tqueue (tq_of t tq)") (auto simp: pop_table_def Let_def intro!: tq_inv_set_tq)

lemma tq_inv_push_front: "tq_inv tq \<Longrightarrow> queued_ok i \<Longrightarrow> tq_inv (push_front i tq)"
  using tq_inv_queue [of tq "tableId i"] by (simp add: push_front_def Let_def tq_inv_set_tq)

lemma tq_inv_enqueue: "tq_inv tq \<Longrightarrow> queued_ok i \<Longrightarrow> tq_inv (enqueue i tq)"
  using tq_inv_queue [of tq "tableId i"] by (simp add: enqueue_def Let_def tq_inv_set_tq)

lemma tq_inv_getFetched:
  assumes "getFetched sel tq = (l, t, tq')" and inv: "tq_inv tq"
  shows "tq_inv tq'" and "l = Some i \<Longrightarrow> load_ok i" and "t = Some u \<Longrightarrow> queued_ok (head_of u tq')"
proof -
  note spec = getFetched_spec [OF assms(1)]
  have loads: "list_all load_ok (loadQueue tq)" using inv by (simp add: tq_inv_def)
  have "list_all load_ok (loadQueue tq')" using spec loads by (cases l) auto
  with spec inv show inv': "tq_inv tq'" by (simp add: tq_inv_def)
  show "load_ok i" if "l = Some i" using spec loads that by auto
  show "queued_ok (head_of u tq')" if "t = Some u"
    using spec that tq_inv_queue [OF inv', of u]
    by (cases "tqueue (tq_of u tq')") (auto simp: head_of_def)
qed

lemma tq_inv_judgeLoad:
  assumes "judgeLoadDeps i tq = (tq', again)" and "tq_inv tq" and "load_ok i"
  shows "tq_inv tq'"
proof (cases again)
  case True
  with judgeLoadDeps_spec [OF assms(1)] obtain ty k where "tq' = wait ty k i tq" by auto
  then show ?thesis using tq_inv_wait [OF assms(2) load_ok_waiting [OF assms(3)]] by simp
next
  case False
  with judgeLoadDeps_spec [OF assms(1)] assms(2) show ?thesis by simp
qed

lemma judgeNormalDeps_cases:
  "judgeNormalDeps t tq = (tq', again) \<Longrightarrow>
   (if again then (\<exists>ty k. tq' = wait ty k (head_of t tq) (pop_table t tq)) \<and> itype (head_of t tq) \<in> set dep_types
    else tq' = tq)"
  by (auto simp: judgeNormalDeps_def park_def head_of_def dep_types_def Let_def split: if_splits)

lemma tq_inv_judgeNormal:
  assumes "judgeNormalDeps t tq = (tq', again)" and "tq_inv tq" and "queued_ok (head_of t tq)"
  shows "tq_inv tq'"
proof (cases again)
  case True
  with judgeNormalDeps_cases [OF assms(1)] obtain ty k where
    "tq' = wait ty k (head_of t tq) (pop_table t tq)" "itype (head_of t tq) \<in> set dep_types" by auto
  then show ?thesis
    using tq_inv_wait [OF tq_inv_pop_table [OF assms(2)] queued_ok_waiting [OF assms(3)]] by blast
next
  case False
  with judgeNormalDeps_cases [OF assms(1)] assms(2) show ?thesis by simp
qed

subsection \<open>The fetch loop\<close>

text \<open>How a fetched task comes about: the barrier in front, alone, or a task before it.\<close>

definition fetched_core :: "executable_task option \<Rightarrow> task_core multiset" where
  "fetched_core x = (case x of None \<Rightarrow> {#} | Some x \<Rightarrow> {#x_core x#})"

text \<open>A callback has captured the dependencies of its type, so its \<open>std::get\<close> never throws.\<close>

definition completion_ok :: "completion \<Rightarrow> bool" where
  "completion_ok c \<longleftrightarrow> (\<exists>i. deps_ok i \<and> itype i = c_type c \<and> depends i = c_deps c)"

definition from_barrier :: "task_queue \<Rightarrow> executable_task \<Rightarrow> task_queue \<Rightarrow> bool" where
  "from_barrier tq x tq' \<longleftrightarrow>
     (\<exists>b bs. barriers tq = b # bs \<and> barriers tq' = bs \<and> running tq = 0 \<and> x_seq x = seq b \<and> x_type x = itype b)"

definition before_barrier :: "task_queue \<Rightarrow> executable_task \<Rightarrow> task_queue \<Rightarrow> bool" where
  "before_barrier tq x tq' \<longleftrightarrow>
     barriers tq' = barriers tq \<and> x_type x \<notin> set barrier_types \<and>
     (barriers tq \<noteq> [] \<longrightarrow> x_seq x \<le> seq (hd (barriers tq))) \<and>
     deps_done (x_type x) (c_table (onCompleted x)) (c_deps (onCompleted x)) (depManager tq')"

lemma build_simps:
  assumes "buildExecutableFromScheduled i tq = Inr x"
  shows "x_seq x = seq i \<and> x_type x = itype i \<and> x_core x = core i \<and> c_type (onCompleted x) = itype i \<and> c_seq (onCompleted x) = seq i \<and>
     c_table (onCompleted x) = tableId i \<and> c_deps (onCompleted x) = depends i \<and> execOverride x = droppedFlag i"
  using assms by (auto simp: buildExecutableFromScheduled_def res_simps x_core_def core_def)

lemma build_completion_ok: "buildExecutableFromScheduled i tq = Inr x \<Longrightarrow> deps_ok i \<Longrightarrow> completion_ok (onCompleted x)"
  using build_simps [of i tq x] by (auto simp: completion_ok_def)

definition fetch_ok :: "task_queue \<Rightarrow> task_queue \<times> executable_task option \<Rightarrow> bool" where
  "fetch_ok tq r \<longleftrightarrow>
     (case r of (tq', x) \<Rightarrow>
        tq_inv tq' \<and>
        (\<exists>lost. pending tq = pending tq' + lost + fetched_core x \<and> lost \<subseteq># mset (map core (loadQueue tq))) \<and>
        (case x of
           None \<Rightarrow> barriers tq' = barriers tq \<and> running tq' = running tq \<and> (barriers tq = [] \<or> running tq > 0)
         | Some x \<Rightarrow> running tq' = running tq + 1 \<and> completion_ok (onCompleted x) \<and> (from_barrier tq x tq' \<or> before_barrier tq x tq')))"

lemma fetchBarrier_ok:
  assumes "fetchBarrier tq = Inr r" and inv: "tq_inv tq"
  shows "fetch_ok tq r"
proof (cases "barriers tq = [] \<or> running tq > 0")
  case True
  with assms have "r = (tq, None)" by (auto simp: fetchBarrier_def split: list.splits if_splits)
  with inv True show ?thesis by (simp add: fetch_ok_def fetched_core_def)
next
  case False
  then obtain b bs where b: "barriers tq = b # bs" by (cases "barriers tq") auto
  let ?tq1 = "tq\<lparr>barriers := bs, quitFlag := (quitFlag tq \<or> itype b = QT_Quit)\<rparr>"
  from assms(1) b False obtain x where x: "buildExecutableFromScheduled b ?tq1 = Inr x"
    and r: "r = ((fold announce (waitingTables ?tq1) (count_fetch ?tq1))\<lparr>waitingTables := [], loadBlocked := False\<rparr>, Some x)"
    by (auto simp: fetchBarrier_def Let_def res_simps)
  let ?tq' = "fst r"
  have "tq_inv ?tq1" using inv b by (simp add: tq_inv_def)
  then have inv': "tq_inv ?tq'"
    using tq_inv_fold_announce [of "waitingTables ?tq1" "count_fetch ?tq1"] by (simp add: r tq_inv_def)
  have "pending tq = pending ?tq' + {#core b#}"
    using b by (simp add: r pending_def)
  moreover have "running tq = 0" using False by (metis word_gt_0)
  moreover have "completion_ok (onCompleted x)"
    using build_completion_ok [OF x] inv b by (simp add: tq_inv_def barrier_ok_def)
  ultimately show ?thesis
    using inv' b build_simps [OF x] by (auto simp: r fetch_ok_def fetched_core_def from_barrier_def)
qed

lemma fetch_ok_later:
  assumes "fetch_ok tq2 r" and "barriers tq2 = barriers tq" "running tq2 = running tq"
    and "pending tq = pending tq2 + l" and "mset (map core (loadQueue tq)) = mset (map core (loadQueue tq2)) + l"
  shows "fetch_ok tq r"
proof -
  obtain tq' x where r: "r = (tq', x)" by fastforce
  with assms(1) obtain lost where "pending tq2 = pending tq' + lost + fetched_core x"
    "lost \<subseteq># mset (map core (loadQueue tq2))" by (auto simp: fetch_ok_def)
  with assms(4,5) have "pending tq = pending tq' + (lost + l) + fetched_core x"
    "lost + l \<subseteq># mset (map core (loadQueue tq))" by (simp_all add: ac_simps)
  then have "\<exists>lost. pending tq = pending tq' + lost + fetched_core x \<and> lost \<subseteq># mset (map core (loadQueue tq))" by blast
  with assms(1-3) r show ?thesis
    by (simp add: fetch_ok_def from_barrier_def before_barrier_def split: option.splits)
qed

lemma fetch_ok_waited:
  assumes "fetch_ok tq2 r" and "barriers tq2 = barriers tq" "running tq2 = running tq"
    and "pending tq = pending tq2" and "mset (map core (loadQueue tq2)) \<subseteq># mset (map core (loadQueue tq))"
  shows "fetch_ok tq r"
proof -
  obtain tq' x where r: "r = (tq', x)" by fastforce
  with assms(1,4,5) have "\<exists>lost. pending tq = pending tq' + lost + fetched_core x \<and> lost \<subseteq># mset (map core (loadQueue tq))"
    by (auto simp: fetch_ok_def intro: subset_mset.trans)
  with assms(1-3) r show ?thesis
    by (simp add: fetch_ok_def from_barrier_def before_barrier_def split: option.splits)
qed

lemma fetch_load_ok:
  assumes "buildExecutableFromScheduled i tq = Inr x" and "tq_inv tq" and "load_ok i" and "\<not> beyond_barrier i tq"
    and "deps_done QT_Load (tableId i) (depends i) (depManager tq)"
    and "barriers tq = barriers tq0" "running tq = running tq0" "pending tq0 = add_mset (core i) (pending tq)"
  shows "fetch_ok tq0 (count_fetch tq, Some x)"
proof -
  have "before_barrier tq0 x (count_fetch tq)"
    using build_simps [OF assms(1)] assms(3-6)
    by (auto simp: before_barrier_def barrier_types_def load_ok_def beyond_barrier_def not_less)
  moreover have "\<exists>lost. pending tq0 = pending (count_fetch tq) + lost + fetched_core (Some x) \<and>
      lost \<subseteq># mset (map core (loadQueue tq0))"
    using assms(8) build_simps [OF assms(1)] by (intro exI [of _ "{#}"]) (simp add: fetched_core_def)
  moreover have "completion_ok (onCompleted x)"
    using build_completion_ok [OF assms(1)] assms(3) by (simp add: load_ok_def)
  ultimately show ?thesis using assms(2,7) by (simp add: fetch_ok_def)
qed

lemma fetch_table_ok:
  assumes "buildExecutableFromScheduled (head_of t tq) tq = Inr x" and "tq_inv tq"
    and "queued_ok (head_of t tq)" and "\<not> beyond_barrier (head_of t tq) tq" and "tqueue (tq_of t tq) \<noteq> []"
    and "deps_done (itype (head_of t tq)) (tableId (head_of t tq)) (depends (head_of t tq)) (depManager tq)"
    and "barriers tq = barriers tq0" "running tq = running tq0" "pending tq0 = pending tq + l"
    and "l \<subseteq># mset (map core (loadQueue tq0))"
  shows "fetch_ok tq0 (count_fetch (pop_table t tq), Some x)"
proof -
  have "before_barrier tq0 x (count_fetch (pop_table t tq))"
    using build_simps [OF assms(1)] assms(3,4,6,7)
    by (auto simp: before_barrier_def queued_ok_def beyond_barrier_def not_less)
  moreover have "\<exists>lost. pending tq0 = pending (count_fetch (pop_table t tq)) + lost + fetched_core (Some x) \<and>
      lost \<subseteq># mset (map core (loadQueue tq0))"
    using assms(9,10) build_simps [OF assms(1)] pending_pop_table [OF assms(5)]
    by (intro exI [of _ l]) (simp add: fetched_core_def)
  moreover have "completion_ok (onCompleted x)"
    using build_completion_ok [OF assms(1)] assms(3) by (simp add: queued_ok_def)
  ultimately show ?thesis using tq_inv_pop_table [OF assms(2)] assms(8) by (simp add: fetch_ok_def)
qed

lemma load_core_subset:
  assumes "getFetched sel tq = (l, t, tq')"
  shows "mset (map core (loadQueue tq)) = mset (map core (loadQueue tq')) + load_core l"
  using getFetched_spec [OF assms] by (cases l) (auto simp: load_core_def)

lemma fetch_loop_ok:
  "fetch_loop sel tq = Inr r \<Longrightarrow> tq_inv tq \<Longrightarrow> fetch_ok tq r"
proof (induction sel tq rule: fetch_loop.induct)
  case (1 sel tq)
  obtain l t tq1 where g: "getFetched sel tq = (l, t, tq1)" by (metis surj_pair)
  note gs = getFetched_spec [OF g] and inv1 = tq_inv_getFetched [OF g "1.prems"(2)]
  note ls = load_core_subset [OF g]
  have lsub: "load_core l \<subseteq># mset (map core (loadQueue tq))"
    unfolding ls by (rule mset_subset_eq_add_right)
  show ?case
  proof (cases "l = None \<and> t = None")
    case True
    with "1.prems"(1) g have "fetchBarrier tq1 = Inr r" by (subst (asm) fetch_loop.simps) simp
    from fetch_ok_later [OF fetchBarrier_ok [OF this inv1(1)], of tq "load_core l"] gs ls show ?thesis by simp
  next
    case some: False
    show ?thesis
    proof (cases "prefer_load l (map_option (\<lambda>t. head_of t tq1) t)")
      case True
      with some obtain i where l: "l = Some i" by (cases l) (auto simp: prefer_load_def split: option.splits)
      obtain tq2 again where j: "judgeLoadDeps (the l) tq1 = (tq2, again)" by fastforce
      then have j': "judgeLoadDeps i tq1 = (tq2, again)" by (simp add: l)
      note js = judgeLoadDeps_spec [OF j']
      show ?thesis
      proof (cases again)
        case again: True
        with "1.prems"(1) g some True j have "fetch_loop sel tq2 = Inr r"
          by (subst (asm) fetch_loop.simps) simp
        from "1.IH"(1) [OF refl g [symmetric] refl some True refl j [symmetric] again this]
          tq_inv_judgeLoad [OF j' inv1(1) inv1(2) [OF l]]
        have "fetch_ok tq2 r" by (simp add: g)
        then show ?thesis
          by (rule fetch_ok_waited) (use js gs again ls l in \<open>auto simp: load_core_def\<close>)
      next
        case no: False
        with "1.prems"(1) g some True j js obtain x where
          x: "buildExecutableFromScheduled i tq1 = Inr x" and r: "r = (count_fetch tq1, Some x)"
          by (subst (asm) fetch_loop.simps) (auto simp: res_simps l)
        have "deps_done QT_Load (tableId i) (depends i) (depManager tq1)"
          using js no by (simp add: deps_done_def)
        from fetch_load_ok [OF x inv1(1) inv1(2) [OF l] _ this, of tq] gs show ?thesis
          by (simp add: r l load_core_def)
      qed
    next
      case False
      with some obtain u where t: "t = Some u" by (cases t) (auto simp: prefer_load_def split: option.splits)
      obtain tq2 again where j: "judgeNormalDeps (the t) tq1 = (tq2, again)" by fastforce
      then have j': "judgeNormalDeps u tq1 = (tq2, again)" by (simp add: t)
      have ne: "tqueue (tq_of u tq1) \<noteq> []" using gs t by simp
      note js = judgeNormalDeps_spec [OF j' ne]
      show ?thesis
      proof (cases again)
        case again: True
        with "1.prems"(1) g some False j have "fetch_loop sel tq2 = Inr r"
          by (subst (asm) fetch_loop.simps) simp
        from "1.IH"(2) [OF refl g [symmetric] refl some False refl j [symmetric] again this]
          tq_inv_judgeNormal [OF j' inv1(1) inv1(3) [OF t]]
        have "fetch_ok tq2 r" by (simp add: g)
        then show ?thesis
          by (rule fetch_ok_later) (use js gs ls in \<open>simp_all\<close>)
      next
        case no: False
        with js have tq2: "tq2 = tq1" by simp
        with "1.prems"(1) g some False j no obtain x where
          x: "buildExecutableFromScheduled (head_of u tq1) tq1 = Inr x" and r: "r = (count_fetch (pop_table u tq1), Some x)"
          by (subst (asm) fetch_loop.simps) (auto simp: res_simps t)
        have "itype (head_of u tq1) \<noteq> QT_Load" using inv1(3) [OF t] by (simp add: queued_ok_def)
        with js no have "deps_done (itype (head_of u tq1)) (tableId (head_of u tq1)) (depends (head_of u tq1)) (depManager tq1)"
          by simp
        from fetch_table_ok [OF x inv1(1) inv1(3) [OF t] _ ne this _ _ _ lsub] gs t show ?thesis
          by (simp add: r)
      qed
    qed
  qed
qed

subsection \<open>Registration\<close>

lemma markScheduled_deps:
  assumes "markScheduled i tag dm = (i', dm')" and "depends i = No_deps"
  shows "deps_ok i'" and "core i' = core i" and "itype i' = itype i"
    and "waiting_items dm' = waiting_items dm" and "dm_ok dm' = dm_ok dm"
  using assms
  by (cases "itype i"; fastforce simp: markScheduled_def mark_load_def markScheduledFile_def markScheduledTable_def
      Let_def deps_ok_def waiting_items_def dm_ok_def core_def split: if_splits)+

text \<open>A parsed query comes with a fresh \<open>No_deps\<close>; the queue takes it unless a QUIT is out.\<close>

lemma item_of_simps [simp]:
  "seq (item_of p) = pq_seq p" "core (item_of p) = pq_core p" "itype (item_of p) = pq_type p" "depends (item_of p) = No_deps"
  "tableId (item_of p) = pq_table p"
  by (simp_all add: item_of_def core_def pq_core_def)

lemma deps_ok_none: "depends i = No_deps \<Longrightarrow> itype i \<notin> set dep_types \<Longrightarrow> deps_ok i"
  by (cases "itype i") (simp_all add: deps_ok_def dep_types_def)

lemma pending_submitted [simp]: "pending (tq\<lparr>submitted := n\<rparr>) = pending tq"
  by (simp add: pending_def)

lemma enqueue_simps [simp]:
  "running (enqueue i tq) = running tq" "barriers (enqueue i tq) = barriers tq"
  "submitted (enqueue i tq) = submitted tq" "completed (enqueue i tq) = completed tq"
  "quitFlag (enqueue i tq) = quitFlag tq"
  by (simp_all add: enqueue_def Let_def set_tq_def)

lemma registerTask_spec:
  assumes reg: "registerTask p tq = (tq', r)" and inv: "tq_inv tq"
  shows "tq_inv tq' \<and> running tq' = running tq \<and> completed tq' = completed tq \<and>
     (if quitFlag tq then tq' = tq else
        pending tq' = add_mset (pq_core p) (pending tq) \<and> submitted tq' = submitted tq + 1 \<and> r = None)"
proof (cases "quitFlag tq")
  case True
  with reg inv show ?thesis by (simp add: registerTask_def)
next
  case nq: False
  let ?i = "item_of p" and ?tq1 = "tq\<lparr>submitted := submitted tq + 1\<rparr>"
  obtain i' dm where m: "markScheduled ?i (itype ?i) (depManager tq) = (i', dm)" by fastforce
  note md = markScheduled_deps [OF m, simplified]
  consider (b) "pq_type p \<in> set barrier_types" | (l) "pq_type p = QT_Load"
    | (d) "pq_type p \<in> {QT_Dump, QT_Drop, QT_CopyTable}" | (n) "pq_type p \<notin> set barrier_types \<union> set dep_types"
    by (auto simp: dep_types_def)
  then show ?thesis
  proof cases
    case b
    then have "deps_ok ?i" by (intro deps_ok_none) (auto simp: dep_types_def barrier_types_def)
    with b nq reg inv show ?thesis
      by (auto simp: registerTask_def barrier_types_def barrier_ok_def tq_inv_def pending_def Let_def)
  next
    case l
    with nq reg m have "tq' = ?tq1\<lparr>depManager := dm, loadQueue := loadQueue tq @ [i']\<rparr>" "r = None"
      by (auto simp: registerTask_def Let_def)
    with l md inv show ?thesis using nq by (simp add: tq_inv_def load_ok_def pending_def)
  next
    case d
    with nq reg m have tq': "tq' = enqueue i' (?tq1\<lparr>depManager := dm\<rparr>)" and r: "r = None"
      by (auto simp: registerTask_def Let_def)
    have "tq_inv (?tq1\<lparr>depManager := dm\<rparr>)" using inv md by (simp add: tq_inv_def)
    moreover have "queued_ok i'" using d md by (auto simp: queued_ok_def barrier_types_def)
    ultimately have "tq_inv tq'" unfolding tq' by (rule tq_inv_enqueue)
    moreover have "pending (?tq1\<lparr>depManager := dm\<rparr>) = pending tq" using md by (simp add: pending_def)
    ultimately show ?thesis using nq r md(2) by (simp add: tq')
  next
    case n
    with nq reg have tq': "tq' = enqueue ?i ?tq1" and r: "r = None"
      by (auto simp: registerTask_def Let_def barrier_types_def dep_types_def)
    have "tq_inv ?tq1" using inv by (simp add: tq_inv_def)
    moreover have "queued_ok ?i" using n deps_ok_none [of ?i] by (simp add: queued_ok_def dep_types_def)
    ultimately have "tq_inv tq'" unfolding tq' by (rule tq_inv_enqueue)
    then show ?thesis using nq r by (simp add: tq')
  qed
qed

subsection \<open>Completion\<close>

text \<open>
  What every part of a completion keeps: the invariant, the barriers, the counters, and the
  tasks in the queue but for those it is given or gives back.
\<close>

definition same_counts :: "task_queue \<Rightarrow> task_queue \<Rightarrow> bool" where
  "same_counts tq tq' \<longleftrightarrow> running tq' = running tq \<and> completed tq' = completed tq \<and>
     submitted tq' = submitted tq \<and> barriers tq' = barriers tq"

lemma same_counts_refl [simp]: "same_counts tq tq"
  by (simp add: same_counts_def)

lemma same_counts_trans: "same_counts a b \<Longrightarrow> same_counts b c \<Longrightarrow> same_counts a c"
  by (simp add: same_counts_def)

lemma same_counts_simps [simp]:
  "same_counts tq (announce t tq')  = same_counts tq tq'" "same_counts tq (set_tq t q tq') = same_counts tq tq'"
  "same_counts tq (wait ty k i tq') = same_counts tq tq'" "same_counts tq (push_front i tq') = same_counts tq tq'"
  by (simp_all add: same_counts_def set_tq_def wait_def push_front_def Let_def)

lemma deps_ok_cong: "itype i = itype j \<Longrightarrow> depends i = depends j \<Longrightarrow> deps_ok i = deps_ok j"
  by (cases "itype j") (simp_all add: deps_ok_def)

lemma deps_ok_updates [simp]:
  "deps_ok (p\<lparr>droppedFlag := b\<rparr>) = deps_ok p" "deps_ok (p\<lparr>tableId := n\<rparr>) = deps_ok p"
  by (rule deps_ok_cong; simp)+

lemma queued_ok_dropped: "queued_ok (p\<lparr>droppedFlag := b\<rparr>) = queued_ok p"
  by (simp add: queued_ok_def)

lemma registerTableQueue_spec:
  assumes "tq_inv tq"
  shows "tq_inv (registerTableQueue t s tq) \<and> pending (registerTableQueue t s tq) = pending tq \<and>
     same_counts tq (registerTableQueue t s tq)"
proof -
  let ?drop = "\<lambda>p. if seq p < s then p\<lparr>droppedFlag := True\<rparr> else p"
  let ?q = "(tq_of t tq)\<lparr>registered := True, registerSeq := s, tqueue := map ?drop (tqueue (tq_of t tq))\<rparr>"
  have "tq_inv (set_tq t ?q tq)"
    using tq_inv_queue [OF assms, of t]
    by (intro tq_inv_set_tq [OF assms]) (auto simp: list_all_iff queued_ok_dropped)
  moreover have m: "map core (tqueue ?q) = map core (tqueue (tq_of t tq))" by (simp add: o_def if_distrib cong: if_cong)
  have "pending (set_tq t ?q tq) = pending tq"
    by (rule add_right_imp_eq [OF pending_set_tq [of t ?q tq, unfolded m]])
  ultimately show ?thesis using assms by (simp add: registerTableQueue_def Let_def)
qed

lemma applyRegisterTable_spec:
  "tq_inv tq \<Longrightarrow> tq_inv (applyRegisterTable c tq) \<and> pending (applyRegisterTable c tq) = pending tq \<and>
   same_counts tq (applyRegisterTable c tq)"
  using registerTableQueue_spec [of tq "c_table c" "c_seq c"]
    registerTableQueue_spec [of "registerTableQueue (c_table c) (c_seq c) tq" "copy_new (c_deps c)" "c_seq c"]
  by (auto simp: applyRegisterTable_def Let_def same_counts_def)

definition ready_ok :: "task_queue \<Rightarrow> scheduled_item list \<Rightarrow> task_queue \<Rightarrow> bool" where
  "ready_ok tq rs tq' \<longleftrightarrow> tq_inv tq' \<and> list_all waiting_ok rs \<and> pending tq = pending tq' + mset (map core rs) \<and>
     same_counts tq tq'"

lemma ready_ok_Nil: "tq_inv tq \<Longrightarrow> ready_ok tq [] tq"
  by (simp add: ready_ok_def)

lemma ready_ok_append: "ready_ok a r b \<Longrightarrow> ready_ok b s c \<Longrightarrow> ready_ok a (r @ s) c"
  by (auto simp: ready_ok_def same_counts_def)

lemma notify_ready:
  assumes "notify ty k s tq = (rs, tq')" and inv: "tq_inv tq"
  shows "ready_ok tq rs tq'"
proof -
  obtain dm where n: "notifyCompleted ty k s (depManager tq) = (rs, dm)" and tq': "tq' = tq\<lparr>depManager := dm\<rparr>"
    using assms(1) by (auto simp: notify_def split: prod.splits)
  have "dm_ok (depManager tq)" using inv by (simp add: tq_inv_def)
  from notifyCompleted_spec [OF this n] have ok: "dm_ok dm" and
    w: "waiting_items (depManager tq) = waiting_items dm + mset rs" by simp_all
  with inv have all: "\<forall>i \<in># waiting_items dm + mset rs. waiting_ok i" by (simp add: tq_inv_def)
  then have "tq_inv tq'" using inv ok by (simp add: tq' tq_inv_def)
  moreover have "list_all waiting_ok rs" using all by (simp add: list_all_iff)
  ultimately show ?thesis using w by (simp add: ready_ok_def tq' pending_def same_counts_def ac_simps)
qed

lemma notify_tables_ready:
  "notify_tables ts s tq = (rs, tq') \<Longrightarrow> tq_inv tq \<Longrightarrow> ready_ok tq rs tq'"
proof (induction ts arbitrary: tq rs tq')
  case Nil
  then show ?case by (simp add: ready_ok_Nil)
next
  case (Cons t ts)
  obtain r1 tq1 r2 where 1: "notify Table_dep t s tq = (r1, tq1)" and 2: "notify_tables ts s tq1 = (r2, tq')"
    and rs: "rs = r1 @ r2" using Cons.prems(1) by (auto split: prod.splits)
  have r1: "ready_ok tq r1 tq1" by (rule notify_ready [OF 1 Cons.prems(2)])
  then have "tq_inv tq1" by (simp add: ready_ok_def)
  from ready_ok_append [OF r1 Cons.IH [OF 2 this]] show ?case by (simp add: rs)
qed

lemma ready_ok_unregister:
  "ready_ok tq rs tq' \<Longrightarrow> map_of (tableQs tq') t = Some q \<Longrightarrow> ready_ok tq rs (set_tq t (q\<lparr>registered := b\<rparr>) tq')"
  using pending_set_tq [of t "q\<lparr>registered := b\<rparr>" tq'] tq_inv_queue [of tq' t]
  by (auto simp: ready_ok_def tq_of_def um_get_def intro!: tq_inv_set_tq)

lemma updateDependencyRecords_ready:
  assumes upd: "updateDependencyRecords c tq = (rf, rt, tq')" and inv: "tq_inv tq"
  shows "ready_ok tq (rf @ rt) tq'"
proof -
  have two: "ready_ok tq (rf @ rt) tq'"
    if "notify File k s tq = (rf, tq1)" "notify_tables ts s tq1 = (rt, tq')" for k s tq1 ts
  proof -
    have r: "ready_ok tq rf tq1" by (rule notify_ready [OF that(1) inv])
    then have "tq_inv tq1" by (simp add: ready_ok_def)
    from ready_ok_append [OF r notify_tables_ready [OF that(2) this]] show ?thesis .
  qed
  consider (l) "c_type c = QT_Load" | (d) "c_type c = QT_Dump" | (p) "c_type c = QT_Drop"
    | (y) "c_type c = QT_CopyTable" | (o) "c_type c \<notin> set dep_types" by (auto simp: dep_types_def)
  then show ?thesis
  proof cases
    case l
    then show ?thesis
      using upd by (auto simp: updateDependencyRecords_def Let_def split: prod.splits intro: two)
  next
    case d
    then obtain tq1 where "notify File (dump_path (c_deps c)) (c_seq c) tq = (rf, tq1)"
      "notify Table_dep (c_table c) (c_seq c) tq1 = (rt, tq')"
      using upd by (auto simp: updateDependencyRecords_def Let_def split: prod.splits)
    then show ?thesis by (intro two [of _ _ tq1 "[c_table c]"]) auto
  next
    case p
    obtain rs tq1 where n: "notify Table_dep (c_table c) (c_seq c) tq = (rs, tq1)" by fastforce
    note r = notify_ready [OF n inv]
    show ?thesis
      using upd p n r by (auto simp: updateDependencyRecords_def split: option.splits intro: ready_ok_unregister)
  next
    case y
    then obtain "rf = []" "notify_tables [c_table c, copy_new (c_deps c)] (c_seq c) tq = (rt, tq')"
      using upd by (auto simp: updateDependencyRecords_def Let_def simp del: notify_tables.simps split: prod.splits)
    from notify_tables_ready [OF this(2) inv] this(1) show ?thesis by simp
  next
    case o
    show ?thesis
    proof (cases "c_table c = []")
      case True
      with o upd inv show ?thesis
        by (auto simp: updateDependencyRecords_def dep_types_def ready_ok_Nil)
    next
      case False
      with o upd have "rf = []" "notify Table_dep (c_table c) (c_seq c) tq = (rt, tq')"
        by (auto simp: updateDependencyRecords_def dep_types_def split: prod.splits)
      with notify_ready [OF _ inv] show ?thesis by simp
    qed
  qed
qed

text \<open>A released task goes back into the load queue, its table queue or another heap.\<close>

definition takes_back :: "scheduled_item \<Rightarrow> task_queue \<Rightarrow> task_queue \<Rightarrow> bool" where
  "takes_back i tq tq' \<longleftrightarrow> tq_inv tq' \<and> pending tq' = add_mset (core i) (pending tq) \<and> same_counts tq tq'"

lemma takes_back_load:
  "tq_inv tq \<Longrightarrow> load_ok i \<Longrightarrow> takes_back i tq (tq\<lparr>loadQueue := i\<lparr>tableId := n\<rparr> # loadQueue tq\<rparr>)"
  "tq_inv tq \<Longrightarrow> load_ok i \<Longrightarrow> takes_back i tq (tq\<lparr>loadQueue := i # loadQueue tq\<rparr>)"
  by (simp_all add: takes_back_def tq_inv_def load_ok_def pending_def same_counts_def)

lemma takes_back_wait: "tq_inv tq \<Longrightarrow> waiting_ok i \<Longrightarrow> takes_back i tq (wait ty k i tq)"
  by (simp add: takes_back_def tq_inv_wait)

lemma takes_back_push: "tq_inv tq \<Longrightarrow> queued_ok i \<Longrightarrow> takes_back i tq (push_front i tq)"
  by (simp add: takes_back_def tq_inv_push_front)

lemma waiting_ok_split:
  "waiting_ok i \<Longrightarrow> itype i = QT_Load \<Longrightarrow> load_ok i" "waiting_ok i \<Longrightarrow> itype i \<noteq> QT_Load \<Longrightarrow> queued_ok i"
  using waiting_ok_cases [of i] by (auto simp: load_ok_def queued_ok_def)

lemma updateReadyFiles_back:
  "tq_inv tq \<Longrightarrow> waiting_ok i \<Longrightarrow> takes_back i tq (fst (updateReadyFiles fs i (tq, d)))"
  by (simp add: updateReadyFiles_def Let_def split_def takes_back_load takes_back_wait takes_back_push waiting_ok_split)

lemma updateReadyTables_back:
  "tq_inv tq \<Longrightarrow> waiting_ok i \<Longrightarrow> takes_back i tq (updateReadyTables i tq)"
  by (simp add: updateReadyTables_def takes_back_load takes_back_wait takes_back_push waiting_ok_split)

definition all_back :: "scheduled_item list \<Rightarrow> task_queue \<Rightarrow> task_queue \<Rightarrow> bool" where
  "all_back rs tq tq' \<longleftrightarrow> tq_inv tq' \<and> pending tq' = pending tq + mset (map core rs) \<and> same_counts tq tq'"

lemma all_back_step: "takes_back i a b \<Longrightarrow> all_back rs b c \<Longrightarrow> all_back (i # rs) a c"
  by (simp add: all_back_def takes_back_def same_counts_def)

lemma fold_files_back:
  "tq_inv tq \<Longrightarrow> list_all waiting_ok rs \<Longrightarrow> all_back rs tq (fst (fold (updateReadyFiles fs) rs (tq, d)))"
proof (induction rs arbitrary: tq d)
  case Nil
  then show ?case by (simp add: all_back_def)
next
  case (Cons i rs)
  obtain tq1 d1 where u: "updateReadyFiles fs i (tq, d) = (tq1, d1)" by fastforce
  with updateReadyFiles_back [of tq i fs d] Cons.prems have t: "takes_back i tq tq1" by simp
  then have "tq_inv tq1" by (simp add: takes_back_def)
  from all_back_step [OF t Cons.IH [OF this]] Cons.prems(2) u show ?case by simp
qed

lemma fold_tables_back:
  "tq_inv tq \<Longrightarrow> list_all waiting_ok rs \<Longrightarrow> all_back rs tq (fold updateReadyTables rs tq)"
proof (induction rs arbitrary: tq)
  case Nil
  then show ?case by (simp add: all_back_def)
next
  case (Cons i rs)
  with updateReadyTables_back [of tq i] have t: "takes_back i tq (updateReadyTables i tq)" by simp
  then have "tq_inv (updateReadyTables i tq)" by (simp add: takes_back_def)
  from all_back_step [OF t Cons.IH [OF this]] Cons.prems(2) show ?case by simp
qed

lemma applyUpdateDeps_spec:
  assumes inv: "tq_inv tq"
  shows "tq_inv (fst (applyUpdateDeps fs c (tq, d))) \<and> pending (fst (applyUpdateDeps fs c (tq, d))) = pending tq \<and>
     same_counts tq (fst (applyUpdateDeps fs c (tq, d)))"
proof -
  obtain rf rt tq1 where u: "updateDependencyRecords c tq = (rf, rt, tq1)" by (metis surj_pair)
  obtain tq2 d2 where f: "fold (updateReadyFiles fs) rf (tq1, d) = (tq2, d2)" by fastforce
  have r: "ready_ok tq (rf @ rt) tq1" by (rule updateDependencyRecords_ready [OF u inv])
  then have ok: "list_all waiting_ok rf" "list_all waiting_ok rt" "tq_inv tq1" by (simp_all add: ready_ok_def)
  have b1: "all_back rf tq1 tq2" using fold_files_back [OF ok(3,1), of fs d] f by simp
  then have "tq_inv tq2" by (simp add: all_back_def)
  from fold_tables_back [OF this ok(2)] b1 r u f show ?thesis
    by (auto simp: applyUpdateDeps_def all_back_def ready_ok_def same_counts_def ac_simps)
qed

lemma applyActions_spec:
  "tq_inv tq \<Longrightarrow> tq_inv (fst (applyActions fs as c (tq, d))) \<and> pending (fst (applyActions fs as c (tq, d))) = pending tq \<and>
     same_counts tq (fst (applyActions fs as c (tq, d)))"
proof (induction as arbitrary: tq d)
  case Nil
  then show ?case by simp
next
  case (Cons a as)
  show ?case
  proof (cases a)
    case RegisterTable
    with applyRegisterTable_spec [OF Cons.prems, of c] Cons.IH [of "applyRegisterTable c tq" d] show ?thesis
      by (auto intro: same_counts_trans)
  next
    case UpdateDeps
    obtain tq1 d1 where u: "applyUpdateDeps fs c (tq, d) = (tq1, d1)" by fastforce
    with UpdateDeps applyUpdateDeps_spec [OF Cons.prems, of fs c d] Cons.IH [of tq1 d1] show ?thesis
      by (auto intro: same_counts_trans)
  qed
qed

lemma onCompleted_locked_spec:
  assumes "onCompleted_locked fs c (tq, d) = (tq', d')" and "tq_inv tq"
  shows "tq_inv tq' \<and> pending tq' = pending tq \<and> same_counts tq tq'"
  using assms(1) applyActions_spec [OF assms(2), of fs "c_actions c" c d]
  by (auto simp: onCompleted_locked_def split: prod.splits option.splits)

subsection \<open>What the queue guarantees\<close>

lemma fetchNext_ok: "fetchNext sel tq = Inr r \<Longrightarrow> tq_inv tq \<Longrightarrow> readyToFetch tq \<Longrightarrow> fetch_ok tq r"
  using fetch_loop_ok by (simp add: fetchNext_def)

lemma fetchNext_keeps:
  assumes "tq_inv tq" and "fetchNext sel tq = Inr (tq', x)"
  shows "\<exists>lost. pending tq = pending tq' + lost + fetched_core x \<and> lost \<subseteq># mset (map core (loadQueue tq))"
proof (cases "readyToFetch tq")
  case True
  from fetchNext_ok [OF assms(2,1) True] show ?thesis by (simp add: fetch_ok_def)
next
  case False
  with assms(2) have "tq' = tq" "x = None" by (simp_all add: fetchNext_def)
  then show ?thesis by (simp add: fetched_core_def)
qed

text \<open>
  A fetch neither duplicates a task nor invents one: what the queue held is what it holds
  afterwards, the task that is handed out, and tasks that are lost; and only loads from the
  load queue can be lost.
\<close>

theorem fetchNext_conserves:
  assumes "tq_inv tq" and "fetchNext sel tq = Inr (tq', x)"
  shows "\<exists>lost. pending tq = pending tq' + lost + fetched_core x \<and> lost \<subseteq># mset (map core (loadQueue tq))"
  by (rule fetchNext_keeps [OF assms])

text \<open>
  With a barrier in the queue and nothing running, a fetch always hands out a task: a QUIT or
  LIST is never what the program hangs on.
\<close>

theorem fetchNext_live:
  assumes "tq_inv tq" and "readyToFetch tq" and "barriers tq \<noteq> []" and "running tq = 0"
    and "fetchNext sel tq = Inr (tq', r)"
  shows "\<exists>x. r = Some x"
  using fetchNext_ok [OF assms(5,1,2)] assms(3,4) by (cases r) (simp_all add: fetch_ok_def)

text \<open>
  C19: A completion loses and duplicates no task either: those that waited for it are back in the
  load queue, at the front of their table, or in the heap of their next dependency.
\<close>

theorem onCompleted_conserves:
  assumes "tq_inv tq" and "onCompleted_locked fs c (tq, d) = (tq', d')"
  shows "tq_inv tq' \<and> pending tq' = pending tq \<and> barriers tq' = barriers tq \<and> running tq' = running tq"
  using onCompleted_locked_spec [OF assms(2,1)] by (simp add: same_counts_def)

text \<open>
  A submission adds its task once, except after a QUIT was fetched, when it is rejected.
\<close>

theorem registerTask_correct:
  assumes "tq_inv tq" and "registerTask p tq = (tq', r)"
  shows "tq_inv tq' \<and> running tq' = running tq \<and>
     (if quitFlag tq then tq' = tq \<and> (\<exists>e. r = Some e)
      else pending tq' = add_mset (pq_core p) (pending tq) \<and> submitted tq' = submitted tq + 1 \<and> r = None)"
  using registerTask_spec [OF assms(2,1)] assms(2) by (auto simp: registerTask_def)

subsection \<open>Two schedules the design does not intend\<close>

text \<open>
  What \<open>Runtime::submitQuery\<close> registers for a query, and a run of one worker: submit
  everything, then fetch a task and complete it, \<open>n\<close> times. The heaps of the standard library
  are the reference selection, and the completions see an empty database.
\<close>

definition prepare :: "query \<Rightarrow> u64 \<Rightarrow> parsed_query" where
  "prepare q orderIndex =
     \<lparr>pq_seq = orderIndex, pq_table = resolveTableId q, pq_type = queryType q,
      pq_priority = classifyPriority (queryType q), pq_query = q\<rparr>"

fun submit_all :: "query list \<Rightarrow> u64 \<Rightarrow> task_queue \<Rightarrow> task_queue" where
  "submit_all [] n tq = setReady tq"
| "submit_all (q # qs) n tq = submit_all qs (n + 1) (fst (registerTask (prepare q n) tq))"

definition ref_sel :: "gkey list \<Rightarrow> nat" where
  "ref_sel = best_index key_cmp"

definition finish :: "executable_task \<Rightarrow> task_queue \<Rightarrow> task_queue" where
  "finish x tq = onCompleted_count (fst (onCompleted_locked [] (onCompleted x) (tq, db_new)))"

fun one_worker :: "nat \<Rightarrow> task_queue \<Rightarrow> u64 list \<times> task_queue" where
  "one_worker 0 tq = ([], tq)"
| "one_worker (Suc n) tq =
     (case fetchNext ref_sel tq of
        Inr (tq1, Some x) \<Rightarrow> (let (l, tq2) = one_worker n (finish x tq1) in (x_seq x # l, tq2))
      | Inr (tq1, None) \<Rightarrow> ([], tq1)
      | Inl _ \<Rightarrow> ([], tq))"

definition holds_nothing :: "task_queue \<Rightarrow> bool" where
  "holds_nothing tq \<longleftrightarrow> loadQueue tq = [] \<and> barriers tq = [] \<and> waitingFile (depManager tq) = [] \<and>
     waitingTable (depManager tq) = [] \<and> list_all (\<lambda>e. tqueue (snd e) = []) (tableQs tq)"

lemma holds_nothing_pending: "holds_nothing tq \<Longrightarrow> pending tq = {#}"
proof -
  assume h: "holds_nothing tq"
  then have "\<forall>e \<in> set (tableQs tq). map core (tqueue (snd e)) = []" by (simp add: holds_nothing_def list_all_iff)
  then have "concat (map (\<lambda>e. map core (tqueue (snd e))) (tableQs tq)) = []" by simp
  with h show ?thesis by (simp add: holds_nothing_def pending_def queue_cores_def waiting_items_def um_items_def)
qed

definition three_queries :: "query list" where
  "three_queries = [LoadTableQuery ''a'' ''f'', DumpTableQuery ''a'' ''g'', LoadTableQuery ''b'' ''h'']"

text \<open>
  A load is lost: with LOAD a, DUMP a and LOAD b, the second fetch finds the DUMP, announced
  when the first load completed, and the load of b. The DUMP was submitted first and wins, and the
  load, already taken from its queue, goes out of scope. Nothing is left to fetch, and two of
  the three tasks were executed.
\<close>

theorem load_lost:
  "let (l, tq) = one_worker 3 (submit_all three_queries 1 task_queue_new)
   in l = [1, 2] \<and> submitted tq = 3 \<and> completed tq = 2 \<and> pending tq = {#} \<and>
      fetchNext ref_sel tq = Inr (tq, None)"
proof -
  have "case one_worker 3 (submit_all three_queries 1 task_queue_new) of (l, tq) \<Rightarrow>
      l = [1, 2] \<and> submitted tq = 3 \<and> completed tq = 2 \<and> holds_nothing tq \<and> fetchNext ref_sel tq = Inr (tq, None)"
    by code_simp
  then show ?thesis using holds_nothing_pending by auto
qed

definition list_insert :: "query list" where
  "list_insert = [LoadTableQuery ''a'' ''f'', ListTableQuery, ComplexQuery Op_Insert ''a'' [''KEY'', ''1''] []]"

text \<open>
  A barrier holds back what comes after it only until it is fetched: while the worker that
  took the LIST has not finished it, the next fetch hands out the INSERT submitted after it.
\<close>

theorem barrier_overlaps:
  "let tq1 = snd (one_worker 1 (submit_all list_insert 1 task_queue_new))
   in case fetchNext ref_sel tq1 of
        Inr (tq2, Some x) \<Rightarrow> x_type x = QT_List \<and>
          (case fetchNext ref_sel tq2 of
             Inr (tq3, Some y) \<Rightarrow> x_type y = QT_Insert \<and> x_seq x < x_seq y \<and> running tq3 = 2
           | _ \<Rightarrow> False)
      | _ \<Rightarrow> False"
  by code_simp

text \<open>Nothing the workers can be handed: no LOAD, no barrier, no announced table.\<close>

definition quiet :: "task_queue \<Rightarrow> bool" where
  "quiet tq \<longleftrightarrow> loadQueue tq = [] \<and> barriers tq = [] \<and> heap (globalIndex tq) = [] \<and> \<not> quitFlag tq"

lemma quiet_fetch: "quiet tq \<Longrightarrow> fetchNext sel tq = Inr (tq, None)"
proof -
  assume q: "quiet tq"
  then have "take_load tq = (None, tq)" by (simp add: quiet_def take_load_def)
  moreover have "pickBest sel (globalIndex tq) = (None, globalIndex tq)"
    using q by (simp add: quiet_def pickBest_def pick_loop.simps)
  then have "take_table sel tq = (None, tq)" by (subst take_table.simps) simp
  ultimately have "getFetched sel tq = (None, None, tq)" by (simp add: getFetched_def)
  moreover have "fetchBarrier tq = Inr (tq, None)" using q by (simp add: quiet_def fetchBarrier_def)
  ultimately show ?thesis by (simp add: fetchNext_def fetch_loop.simps)
qed

lemma enqueue_quiet: "quiet (enqueue i tq) = quiet tq"
  by (simp add: quiet_def enqueue_def set_tq_def Let_def)

lemma register_quiet:
  "quiet tq \<Longrightarrow> pq_type p \<notin> {QT_Quit, QT_List, QT_Listen, QT_Load} \<Longrightarrow> quiet (fst (registerTask p tq))"
  by (auto simp: registerTask_def enqueue_quiet Let_def split_def) (auto simp: quiet_def)

lemma register_pending:
  "tq_inv tq \<Longrightarrow> quiet tq \<Longrightarrow>
   tq_inv (fst (registerTask p tq)) \<and> pending (fst (registerTask p tq)) = add_mset (pq_core p) (pending tq)"
  using registerTask_spec [of p tq "fst (registerTask p tq)" "snd (registerTask p tq)"]
  by (simp add: quiet_def)

lemma task_queue_new_ok [simp]: "tq_inv task_queue_new" "quiet task_queue_new" "pending task_queue_new = {#}"
  by (simp_all add: tq_inv_def task_queue_new_def dm_ok_def dm_new_def waiting_items_def um_items_def queues_ok_def
      um_get_def table_queue_new_def quiet_def gi_new_def pending_def queue_cores_def)

definition quit_first :: "query list" where
  "quit_first = [LoadTableQuery ''a'' ''f'', QuitQuery, DumpTableQuery ''a'' ''g'']"

text \<open>Nor does a QUIT end the run: the tasks submitted after it are fetched and executed.\<close>

theorem quit_goes_on:
  "let (l, tq) = one_worker 4 (submit_all quit_first 1 task_queue_new)
   in l = [1, 2, 3] \<and> quitFlag tq \<and> completed tq = 3"
  by code_simp

definition copy_onto_itself :: "query list" where
  "copy_onto_itself = [LoadTableQuery ''a'' ''f'', CopyTableQuery ''a'' ''a'']"

text \<open>
  And a COPYTABLE onto its own source waits for its own completion.
\<close>

theorem copy_onto_itself_hangs:
  "let (l, tq) = one_worker 4 (submit_all copy_onto_itself 1 task_queue_new)
   in l = [1] \<and> running tq = 0 \<and> map seq (um_get [] (waitingTable (depManager tq)) ''a'') = [2] \<and>
      fetchNext ref_sel tq = Inr (tq, None)"
  by code_simp

subsection \<open>Witnesses\<close>

definition loaded :: "task_queue" where
  "loaded = setReady (fst (registerTask (prepare (LoadTableQuery ''a'' ''f'') 1) task_queue_new))"

lemma loaded_inv: "tq_inv loaded"
proof -
  have "tq_inv (fst (registerTask (prepare (LoadTableQuery ''a'' ''f'') 1) task_queue_new))"
    using register_pending [of task_queue_new] by simp
  then show ?thesis by (simp add: loaded_def setReady_def tq_inv_def)
qed

theorem fetchNext_conserves_witness:
  "\<exists>tq' x lost. fetchNext ref_sel loaded = Inr (tq', Some x) \<and> x_seq x = 1 \<and>
     pending loaded = pending tq' + lost + {#x_core x#}"
proof -
  have "case fetchNext ref_sel loaded of Inr (tq', Some x) \<Rightarrow> x_seq x = 1 | _ \<Rightarrow> False"
    by code_simp
  then obtain tq' x where f: "fetchNext ref_sel loaded = Inr (tq', Some x)" and x: "x_seq x = 1"
    by (auto split: sum.splits option.splits prod.splits)
  from fetchNext_conserves [OF loaded_inv f] f x show ?thesis by (auto simp: fetched_core_def)
qed

definition quitting :: "task_queue" where
  "quitting = setReady (fst (registerTask (prepare QuitQuery 1) task_queue_new))"

lemma quitting_inv: "tq_inv quitting"
proof -
  have "tq_inv (fst (registerTask (prepare QuitQuery 1) task_queue_new))"
    using register_pending [of task_queue_new] by simp
  then show ?thesis by (simp add: quitting_def setReady_def tq_inv_def)
qed

theorem fetchNext_live_witness:
  "\<exists>tq' x. fetchNext ref_sel quitting = Inr (tq', Some x)"
proof -
  have "(case fetchNext ref_sel quitting of Inr r \<Rightarrow> True | _ \<Rightarrow> False) \<and>
      readyToFetch quitting \<and> barriers quitting \<noteq> [] \<and> running quitting = 0"
    by code_simp
  then obtain tq' r where f: "fetchNext ref_sel quitting = Inr (tq', r)" and q: "readyToFetch quitting"
      "barriers quitting \<noteq> []" "running quitting = 0"
    by (auto split: sum.splits)
  from fetchNext_live [OF quitting_inv q f] f show ?thesis by blast
qed

definition load_done :: completion where
  "load_done = \<lparr>c_actions = [RegisterTable, UpdateDeps], c_table = ''b'', c_type = QT_Load, c_seq = 2,
                c_deps = LoadDeps 0 0 ''g'' [], c_queue = None\<rparr>"

theorem onCompleted_conserves_witness:
  "pending (fst (onCompleted_locked [] load_done (loaded, db_new))) = pending loaded \<and>
   map registered (map snd (tableQs (fst (onCompleted_locked [] load_done (loaded, db_new))))) = [True]"
proof
  show "pending (fst (onCompleted_locked [] load_done (loaded, db_new))) = pending loaded"
    using onCompleted_conserves [OF loaded_inv surjective_pairing] by simp
qed code_simp

theorem registerTask_correct_witness:
  "pending (fst (registerTask (prepare QuitQuery 2) loaded)) =
     add_mset (2, QT_Quit, QuitQuery) (pending loaded)"
proof -
  have q: "quitFlag loaded = False" by code_simp
  from registerTask_correct [OF loaded_inv surjective_pairing, of "prepare QuitQuery 2"] q show ?thesis
    by (simp add: prepare_def pq_core_def)
qed

end
