(* ===== verification/Lock_Manager.thy ===== *)
theory Lock_Manager
  imports Prelude
begin

section \<open>Locks on tables\<close>

text \<open>
  The model of src/src/runtime/LockManager.h and LockManager.cpp: a \<open>std::shared_mutex\<close> per table
  name, created on first use under the mutex of the map. A call that blocks is \<open>None\<close>: the
  thread stays where it is until the call succeeds. Releasing a lock that is not held is
  undefined.

  The contract of a manager of shared and exclusive locks is the locale \<open>rw_locks\<close>; what its
  clients rely on is proved there once: the guards that are alive decide the state of every
  lock, exclude each other, and can be released.
\<close>

subsection \<open>The contract\<close>

text \<open>A guard is the name of the table and whether it is exclusive.\<close>

definition guards_ok ::
  "('s \<Rightarrow> 'i \<Rightarrow> nat) \<Rightarrow> ('s \<Rightarrow> 'i \<Rightarrow> bool) \<Rightarrow> ('i \<times> bool) multiset \<Rightarrow> 's \<Rightarrow> bool" where
  "guards_ok readers writer G s \<longleftrightarrow>
     (\<forall>i. count G (i, False) = readers s i \<and> count G (i, True) = (if writer s i then 1 else 0) \<and>
          (writer s i \<longrightarrow> readers s i = 0))"

locale rw_locks =
  fixes acqS :: "'i \<Rightarrow> 's \<Rightarrow> 's option" and acqX :: "'i \<Rightarrow> 's \<Rightarrow> 's option"
    and relS :: "'i \<Rightarrow> 's \<Rightarrow> 's option" and relX :: "'i \<Rightarrow> 's \<Rightarrow> 's option"
    and readers :: "'s \<Rightarrow> 'i \<Rightarrow> nat" and writer :: "'s \<Rightarrow> 'i \<Rightarrow> bool"
  assumes acqS: "acqS i s = Some s' \<Longrightarrow>
      \<not> writer s i \<and> readers s' = (readers s)(i := Suc (readers s i)) \<and> writer s' = writer s"
    and acqX: "acqX i s = Some s' \<Longrightarrow>
      \<not> writer s i \<and> readers s i = 0 \<and> readers s' = readers s \<and> writer s' = (writer s)(i := True)"
    and relS: "readers s i > 0 \<Longrightarrow>
      \<exists>s'. relS i s = Some s' \<and> readers s' = (readers s)(i := readers s i - 1) \<and> writer s' = writer s"
    and relX: "writer s i \<Longrightarrow>
      \<exists>s'. relX i s = Some s' \<and> readers s' = readers s \<and> writer s' = (writer s)(i := False)"
    and acqS_free: "\<not> writer s i \<Longrightarrow> acqS i s \<noteq> None"
    and acqX_free: "\<not> writer s i \<Longrightarrow> readers s i = 0 \<Longrightarrow> acqX i s \<noteq> None"
begin

lemma acquire_shared:
  assumes "guards_ok readers writer G s" and "acqS i s = Some s'"
  shows "guards_ok readers writer (add_mset (i, False) G) s'"
  using assms(1) acqS [OF assms(2)] by (auto simp: guards_ok_def)

lemma acquire_exclusive:
  assumes "guards_ok readers writer G s" and "acqX i s = Some s'"
  shows "guards_ok readers writer (add_mset (i, True) G) s'"
  using assms(1) acqX [OF assms(2)] by (auto simp: guards_ok_def)

lemma release_shared:
  assumes "guards_ok readers writer (add_mset (i, False) G) s"
  obtains s' where "relS i s = Some s'" and "guards_ok readers writer G s'"
proof -
  have c: "readers s i = Suc (count G (i, False))" using assms by (auto simp: guards_ok_def dest: spec [of _ i])
  then obtain s' where s': "relS i s = Some s'" "readers s' = (readers s)(i := readers s i - 1)" "writer s' = writer s"
    using relS [of s i] by auto
  with assms c have "guards_ok readers writer G s'" by (auto simp: guards_ok_def split: if_splits)
  with that s' show thesis by blast
qed

lemma release_exclusive:
  assumes "guards_ok readers writer (add_mset (i, True) G) s"
  obtains s' where "relX i s = Some s'" and "guards_ok readers writer G s'"
proof -
  have "count (add_mset (i, True) G) (i, True) = (if writer s i then 1 else 0)"
    using assms unfolding guards_ok_def by blast
  then have w: "writer s i" "count G (i, True) = 0" by (simp_all split: if_splits)
  then obtain s' where s': "relX i s = Some s'" "readers s' = readers s" "writer s' = (writer s)(i := False)"
    using relX [of s i] by blast
  have "count G (j, False) = readers s' j \<and> count G (j, True) = (if writer s' j then 1 else 0) \<and>
      (writer s' j \<longrightarrow> readers s' j = 0)" for j
    using assms [unfolded guards_ok_def, rule_format, of j] w s'(2,3) by (cases "j = i") simp_all
  then have "guards_ok readers writer G s'" unfolding guards_ok_def by blast
  with that s' show thesis by blast
qed

text \<open>A call that blocks has a guard in its way.\<close>

lemma shared_blocked:
  assumes "guards_ok readers writer G s" and "acqS i s = None"
  shows "(i, True) \<in># G"
proof -
  have "writer s i" using acqS_free assms(2) by blast
  with assms(1) have "count G (i, True) = 1" by (simp add: guards_ok_def)
  then show ?thesis by (simp flip: count_greater_zero_iff)
qed

lemma exclusive_blocked:
  assumes "guards_ok readers writer G s" and "acqX i s = None"
  shows "\<exists>b. (i, b) \<in># G"
proof -
  have "writer s i \<or> readers s i \<noteq> 0" using acqX_free assms(2) by blast
  moreover have "count G (i, False) = readers s i" "count G (i, True) = (if writer s i then 1 else 0)"
    using assms(1) by (simp_all add: guards_ok_def)
  ultimately have "0 < count G (i, True) \<or> 0 < count G (i, False)" by auto
  then show ?thesis unfolding count_greater_zero_iff by blast
qed

text \<open>An exclusive guard is the only guard of its table.\<close>

lemma exclusive_alone:
  assumes "guards_ok readers writer G s" and "(i, True) \<in># G"
  shows "filter_mset (\<lambda>g. fst g = i) G = {#(i, True)#}"
proof (rule multiset_eqI)
  fix g :: "'i \<times> bool"
  have "count G (i, True) > 0" using assms(2) by simp
  then have w: "writer s i" "count G (i, True) = 1" "count G (i, False) = 0"
    using assms(1) by (auto simp: guards_ok_def split: if_splits dest: spec [of _ i])
  show "count (filter_mset (\<lambda>g. fst g = i) G) g = count {#(i, True)#} g"
    using w by (cases g; cases "snd g") auto
qed

end

subsection \<open>The lock manager\<close>

text \<open>
  \<open>std::shared_mutex\<close>: free, held by a number of readers, or held by a writer. No operation leaves a
  mutex that no reader holds in the state \<open>Shared 0\<close>; it would count as free.
\<close>

datatype shared_mutex = Free | Shared nat | Exclusive

fun lock_shared :: "shared_mutex \<Rightarrow> shared_mutex option" where
  "lock_shared Free = Some (Shared 1)"
| "lock_shared (Shared n) = Some (Shared (Suc n))"
| "lock_shared Exclusive = None"

fun unlock_shared :: "shared_mutex \<Rightarrow> shared_mutex option" where
  "unlock_shared (Shared n) = (if n = 0 then None else if n = 1 then Some Free else Some (Shared (n - 1)))"
| "unlock_shared _ = None"

fun mutex_lock :: "shared_mutex \<Rightarrow> shared_mutex option" where
  "mutex_lock Free = Some Exclusive"
| "mutex_lock (Shared n) = (if n = 0 then Some Exclusive else None)"
| "mutex_lock Exclusive = None"

fun mutex_unlock :: "shared_mutex \<Rightarrow> shared_mutex option" where
  "mutex_unlock Exclusive = Some Free"
| "mutex_unlock _ = None"

type_synonym lock_manager = "(string, shared_mutex) umap"

definition lock_manager_new :: lock_manager where
  "lock_manager_new = []"

definition lock_entry :: "string \<Rightarrow> lock_manager \<Rightarrow> shared_mutex \<times> lock_manager" where
  "lock_entry i m =
     (case map_of m i of Some e \<Rightarrow> (e, m) | None \<Rightarrow> (Free, um_emplace i Free m))"

definition on_entry ::
  "(shared_mutex \<Rightarrow> shared_mutex option) \<Rightarrow> string \<Rightarrow> lock_manager \<Rightarrow> lock_manager option" where
  "on_entry f i m = (let (e, m') = lock_entry i m in map_option (\<lambda>e'. um_put i e' m') (f e))"

definition lockS :: "string \<Rightarrow> lock_manager \<Rightarrow> lock_manager option" where
  "lockS = on_entry lock_shared"

definition unlockS :: "string \<Rightarrow> lock_manager \<Rightarrow> lock_manager option" where
  "unlockS = on_entry unlock_shared"

definition lockX :: "string \<Rightarrow> lock_manager \<Rightarrow> lock_manager option" where
  "lockX = on_entry mutex_lock"

definition unlockX :: "string \<Rightarrow> lock_manager \<Rightarrow> lock_manager option" where
  "unlockX = on_entry mutex_unlock"

subsection \<open>The lock manager meets the contract\<close>

fun mutex_readers :: "shared_mutex \<Rightarrow> nat" where
  "mutex_readers (Shared n) = n"
| "mutex_readers _ = 0"

definition lm_readers :: "lock_manager \<Rightarrow> string \<Rightarrow> nat" where
  "lm_readers m i = mutex_readers (um_get Free m i)"

definition lm_writer :: "lock_manager \<Rightarrow> string \<Rightarrow> bool" where
  "lm_writer m i \<longleftrightarrow> um_get Free m i = Exclusive"

lemma on_entry_spec:
  "on_entry f i m = Some m' \<longleftrightarrow> (\<exists>e. f (um_get Free m i) = Some e \<and> m' = um_put i e (snd (lock_entry i m)))"
  by (auto simp: on_entry_def lock_entry_def um_get_def split: option.splits)

lemma um_get_entry [simp]: "um_get Free (snd (lock_entry i m)) j = um_get Free m j"
  by (auto simp: lock_entry_def um_get_def umap_simps split: option.split)

lemma on_entry_get:
  "on_entry f i m = Some m' \<Longrightarrow> f (um_get Free m i) = Some e \<Longrightarrow> um_get Free m' j = (if j = i then e else um_get Free m j)"
  by (auto simp: on_entry_spec um_get_put)

interpretation lm: rw_locks lockS lockX unlockS unlockX lm_readers lm_writer
proof
  fix i s s'
  assume a: "lockS i s = Some s'"
  then obtain e where e: "lock_shared (um_get Free s i) = Some e" by (auto simp: lockS_def on_entry_spec)
  note g = on_entry_get [OF a [unfolded lockS_def] e]
  show "\<not> lm_writer s i \<and> lm_readers s' = (lm_readers s)(i := Suc (lm_readers s i)) \<and> lm_writer s' = lm_writer s"
    using e by (cases "um_get Free s i") (auto simp: lm_writer_def lm_readers_def fun_eq_iff g)
next
  fix i s s'
  assume a: "lockX i s = Some s'"
  then obtain e where e: "mutex_lock (um_get Free s i) = Some e" by (auto simp: lockX_def on_entry_spec)
  note g = on_entry_get [OF a [unfolded lockX_def] e]
  show "\<not> lm_writer s i \<and> lm_readers s i = 0 \<and> lm_readers s' = lm_readers s \<and> lm_writer s' = (lm_writer s)(i := True)"
    using e by (cases "um_get Free s i") (auto simp: lm_writer_def lm_readers_def fun_eq_iff g split: if_splits)
next
  fix i s
  assume "lm_readers s i > 0"
  then obtain n where n: "um_get Free s i = Shared n" "n > 0" by (cases "um_get Free s i") (auto simp: lm_readers_def)
  then obtain e where e: "unlock_shared (um_get Free s i) = Some e" by (cases "n = 1") auto
  then obtain s' where a: "unlockS i s = Some s'" by (auto simp: unlockS_def on_entry_spec)
  note g = on_entry_get [OF a [unfolded unlockS_def] e]
  show "\<exists>s'. unlockS i s = Some s' \<and> lm_readers s' = (lm_readers s)(i := lm_readers s i - 1) \<and> lm_writer s' = lm_writer s"
    using n e by (intro exI [of _ s']) (auto simp: a lm_writer_def lm_readers_def fun_eq_iff g split: if_splits)
next
  fix i s
  assume "lm_writer s i"
  then have n: "um_get Free s i = Exclusive" by (simp add: lm_writer_def)
  then have e: "mutex_unlock (um_get Free s i) = Some Free" by simp
  then obtain s' where a: "unlockX i s = Some s'" by (auto simp: unlockX_def on_entry_spec)
  note g = on_entry_get [OF a [unfolded unlockX_def] e]
  show "\<exists>s'. unlockX i s = Some s' \<and> lm_readers s' = lm_readers s \<and> lm_writer s' = (lm_writer s)(i := False)"
    using n by (intro exI [of _ s']) (auto simp: a lm_writer_def lm_readers_def fun_eq_iff g)
next
  show "\<not> lm_writer s i \<Longrightarrow> lockS i s \<noteq> None" for s i
    by (cases "um_get Free s i") (auto simp: lockS_def on_entry_spec lm_writer_def)
  show "\<not> lm_writer s i \<Longrightarrow> lm_readers s i = 0 \<Longrightarrow> lockX i s \<noteq> None" for s i
    by (cases "um_get Free s i") (auto simp: lockX_def on_entry_spec lm_writer_def lm_readers_def)
qed

lemma no_guards: "guards_ok lm_readers lm_writer {#} lock_manager_new"
  by (simp add: guards_ok_def lock_manager_new_def lm_readers_def lm_writer_def um_get_def)

end
