(* ===== verification/Thread_Pool.thy ===== *)
theory Thread_Pool
  imports Scheduling Query_Manage Lock_Manager
begin

section \<open>Worker threads\<close>

text \<open>
  The model of src/src/runtime/Runtime.cpp and Threadpool.cpp: the main thread, which submits
  the queries and waits for the results, and the workers, which fetch batches of tasks,
  lock the table of a task, execute its query and run its callback. A thread is a program
  counter; \<open>act\<close> performs the next atomic step of one thread, and an execution is any
  interleaving of them.

  The steps end where the code takes or leaves a mutex. The execution of a query is one step: the
  lock of its table is held, and the operations of the registry hold the mutex of the
  database. A task always carries its query here, so \<open>executeTask\<close> never sees a null query.
\<close>

subsection \<open>State\<close>

text \<open>
  Where a worker is in \<open>work\<close>: in the batch loop, before the batch goes to the local queue,
  with a task before and after its lock is taken, after the promise is set, after the part
  of the callback under the mutex, and after the counters, before the guard is released.
\<close>

datatype phase =
    Idle
  | Fetching "executable_task list"
  | Merging "executable_task list"
  | Have executable_task
  | Locked executable_task
  | Ran executable_task
  | Notified executable_task
  | Counted executable_task
  | Stopped

datatype main_pc =
    Submitting "query list"
  | Waiting
  | Collected "query_result option list res"
  | Joining "query_result option list res"
  | Finished "query_result option list res"

record pool =
  main :: main_pc
  totalSubmitted :: u64
  taskQueue :: task_queue
  lockMgr :: lock_manager
  local_queue :: "executable_task list"
  threads :: "phase list"
  world_of :: world
  promises :: "(u64 \<times> query_result res) list"
  stop_requested :: bool
  terminated :: bool
  undefined_run :: bool

definition FETCH_BATCH_SIZE :: nat where
  "FETCH_BATCH_SIZE = 16"

text \<open>
  The threads of the pool as its constructor starts them, what its destructor asks of them, and when its joins
  return. Of the two variants in Threadpool.cpp this is the one with a stop flag.
\<close>

definition start_workers :: "nat \<Rightarrow> phase list" where
  [simp]: "start_workers numThreads = replicate numThreads Idle"

definition request_stop :: "pool \<Rightarrow> pool" where
  [simp]: "request_stop p = p\<lparr>stop_requested := True\<rparr>"

definition joined :: "pool \<Rightarrow> bool" where
  "joined p \<longleftrightarrow> list_all (\<lambda>ph. ph = Stopped) (threads p)"

definition runtime_new :: "query list \<Rightarrow> nat \<Rightarrow> world \<Rightarrow> pool" where
  "runtime_new qs numThreads w =
     \<lparr>main = Submitting qs, totalSubmitted = 0, taskQueue = task_queue_new, lockMgr = lock_manager_new,
      local_queue = [], threads = start_workers numThreads, world_of = w, promises = [],
      stop_requested = False, terminated = False, undefined_run = False\<rparr>"

subsection \<open>Workers\<close>

text \<open>The guard a task is executed under: its table, and whether the lock is exclusive.\<close>

definition guard_of :: "executable_task \<Rightarrow> (string \<times> bool) option" where
  "guard_of x =
     (case getQueryKind (x_type x) of
        Kind_Write \<Rightarrow> Some (resolveTableId (x_query x), True)
      | Kind_Read \<Rightarrow> Some (resolveTableId (x_query x), False)
      | Kind_Null \<Rightarrow> None)"

fun take_guard :: "(string \<times> bool) option \<Rightarrow> lock_manager \<Rightarrow> lock_manager option" where
  "take_guard None m = Some m"
| "take_guard (Some (t, True)) m = lockX t m"
| "take_guard (Some (t, False)) m = lockS t m"

fun drop_guard :: "(string \<times> bool) option \<Rightarrow> lock_manager \<Rightarrow> lock_manager option" where
  "drop_guard None m = Some m"
| "drop_guard (Some (t, True)) m = unlockX t m"
| "drop_guard (Some (t, False)) m = unlockS t m"

text \<open>\<open>run_logic\<close> up to the promise: a value or the exception it caught.\<close>

definition run_logic :: "executable_task \<Rightarrow> world \<Rightarrow> world \<times> query_result res" where
  "run_logic x w = (if execOverride x then (w, Inr NullQueryResult) else execute (x_query x) w)"

text \<open>The head of the local queue, taken in the critical section that a batch is merged in.\<close>

definition take_local :: "executable_task list \<Rightarrow> pool \<Rightarrow> phase \<times> pool" where
  "take_local batch p =
     (case local_queue p @ batch of
        [] \<Rightarrow> (Idle, p)
      | x # q \<Rightarrow> (Have x, p\<lparr>local_queue := q\<rparr>))"

text \<open>
  One step of a worker, \<open>None\<close> when it blocks. An exception that leaves \<open>fetchNext\<close> leaves the
  thread, which ends the program.
\<close>

fun work :: "(gkey list \<Rightarrow> nat) \<Rightarrow> phase \<Rightarrow> pool \<Rightarrow> (phase \<times> pool) option" where
  "work sel Idle p =
     (if stop_requested p then Some (Stopped, p)
      else if local_queue p = [] then Some (Fetching [], p)
      else Some (take_local [] p))"
| "work sel (Fetching xs) p =
     (if FETCH_BATCH_SIZE \<le> length xs then Some (Merging xs, p)
      else case fetchNext sel (taskQueue p) of
             Inl e \<Rightarrow> Some (Fetching xs, p\<lparr>terminated := True\<rparr>)
           | Inr (tq, None) \<Rightarrow> Some (Merging xs, p\<lparr>taskQueue := tq\<rparr>)
           | Inr (tq, Some x) \<Rightarrow> Some (Fetching (xs @ [x]), p\<lparr>taskQueue := tq\<rparr>))"
| "work sel (Merging xs) p = Some (take_local xs p)"
| "work sel (Have x) p = map_option (\<lambda>m. (Locked x, p\<lparr>lockMgr := m\<rparr>)) (take_guard (guard_of x) (lockMgr p))"
| "work sel (Locked x) p =
     (let (w, r) = run_logic x (world_of p)
      in Some (Ran x, p\<lparr>world_of := w, promises := promises p @ [(x_seq x, r)]\<rparr>))"
| "work sel (Ran x) p =
     (let (tq, d) = onCompleted_locked (files (world_of p)) (onCompleted x) (taskQueue p, db (world_of p))
      in Some (Notified x, p\<lparr>taskQueue := tq, world_of := (world_of p)\<lparr>db := d\<rparr>\<rparr>))"
| "work sel (Notified x) p = Some (Counted x, p\<lparr>taskQueue := onCompleted_count (taskQueue p)\<rparr>)"
| "work sel (Counted x) p =
     (case drop_guard (guard_of x) (lockMgr p) of
        None \<Rightarrow> Some (Idle, p\<lparr>undefined_run := True\<rparr>)
      | Some m \<Rightarrow> Some (Idle, p\<lparr>lockMgr := m\<rparr>))"
| "work sel Stopped p = None"

subsection \<open>The main thread\<close>

text \<open>
  A future is ready with what its promise was set to, or broken, when the task that owned the
  promise is gone; otherwise it makes the main thread wait.
\<close>

datatype future_state = Ready "query_result res" | Broken | Not_ready

fun phase_unset :: "phase \<Rightarrow> executable_task list" where
  "phase_unset (Fetching xs) = xs"
| "phase_unset (Merging xs) = xs"
| "phase_unset (Have x) = [x]"
| "phase_unset (Locked x) = [x]"
| "phase_unset _ = []"

definition unset_tasks :: "pool \<Rightarrow> executable_task list" where
  "unset_tasks p = local_queue p @ concat (map phase_unset (threads p))"

definition queued_seqs :: "task_queue \<Rightarrow> u64 list" where
  "queued_seqs tq =
     map seq (loadQueue tq @ concat (map (tqueue \<circ> snd) (tableQs tq)) @
       concat (map snd (waitingFile (depManager tq))) @ concat (map snd (waitingTable (depManager tq))) @ barriers tq)"

definition future_of :: "pool \<Rightarrow> u64 \<Rightarrow> future_state" where
  "future_of p n =
     (case map_of (promises p) n of
        Some r \<Rightarrow> Ready r
      | None \<Rightarrow> if n \<in> set (map x_seq (unset_tasks p) @ queued_seqs (taskQueue p)) then Not_ready else Broken)"

definition submitQuery :: "query \<Rightarrow> pool \<Rightarrow> pool" where
  "submitQuery q p =
     (let n = totalSubmitted p + 1; (tq, r) = registerTask (prepare q n) (taskQueue p)
      in p\<lparr>totalSubmitted := n, taskQueue := tq,
           promises := promises p @ (case r of None \<Rightarrow> [] | Some e \<Rightarrow> [(n, e)])\<rparr>)"

definition startExecution :: "pool \<Rightarrow> pool" where
  "startExecution p = p\<lparr>taskQueue := setReady (taskQueue p)\<rparr>"

definition indices :: "pool \<Rightarrow> u64 list" where
  "indices p = map of_nat [1..<Suc (unat (totalSubmitted p))]"

text \<open>
  The result list of \<open>getResultsInOrder\<close>, a null pointer for a QUIT. What the exception of a
  broken promise says is the library's: the parameter \<open>broken\<close>.
\<close>

fun result_of :: "string \<Rightarrow> future_state \<Rightarrow> query_result option res" where
  "result_of broken (Ready (Inr r)) = Inr (Some r)"
| "result_of broken (Ready (Inl QuitException)) = Inr None"
| "result_of broken (Ready (Inl Undefined_behaviour)) = Inl Undefined_behaviour"
| "result_of broken (Ready (Inl e)) = res_bind (errorMsg3 ''RUNTIME'' [] (''Exception: '' @ what e)) (\<lambda>r. Inr (Some r))"
| "result_of broken Broken = res_bind (errorMsg3 ''RUNTIME'' [] (''Exception: '' @ broken)) (\<lambda>r. Inr (Some r))"
| "result_of broken Not_ready = Inl Undefined_behaviour"

definition getResultsInOrder :: "string \<Rightarrow> pool \<Rightarrow> query_result option list res" where
  "getResultsInOrder broken p = res_map (\<lambda>n. result_of broken (future_of p n)) (indices p)"

text \<open>
  The main thread in \<open>executeQueries\<close>: the submissions, \<open>startExecution\<close>, \<open>waitAll\<close> with
  \<open>getResultsInOrder\<close>, and the destructors, which ask the workers to stop and join them.
\<close>

definition main_step :: "string \<Rightarrow> pool \<Rightarrow> pool option" where
  "main_step broken p =
     (case main p of
        Submitting (q # qs) \<Rightarrow> Some (submitQuery q (p\<lparr>main := Submitting qs\<rparr>))
      | Submitting [] \<Rightarrow> Some (startExecution (p\<lparr>main := Waiting\<rparr>))
      | Waiting \<Rightarrow>
          if list_all (\<lambda>n. future_of p n \<noteq> Not_ready) (indices p)
          then Some (p\<lparr>main := Collected (getResultsInOrder broken p)\<rparr>) else None
      | Collected r \<Rightarrow> Some (request_stop (p\<lparr>main := Joining r\<rparr>))
      | Joining r \<Rightarrow> if joined p then Some (p\<lparr>main := Finished r\<rparr>) else None
      | Finished r \<Rightarrow> None)"

subsection \<open>Executions\<close>

datatype actor = Main | Worker nat

definition act :: "(gkey list \<Rightarrow> nat) \<Rightarrow> string \<Rightarrow> actor \<Rightarrow> pool \<Rightarrow> pool option" where
  "act sel broken a p =
     (if terminated p \<or> undefined_run p then None
      else case a of
        Main \<Rightarrow> main_step broken p
      | Worker i \<Rightarrow>
          if i < length (threads p)
          then map_option (\<lambda>(ph, p'). p'\<lparr>threads := (threads p')[i := ph]\<rparr>) (work sel (threads p ! i) p)
          else None)"

inductive reach :: "(gkey list \<Rightarrow> nat) \<Rightarrow> string \<Rightarrow> pool \<Rightarrow> pool \<Rightarrow> bool"
  for sel :: "gkey list \<Rightarrow> nat" and broken :: string and p0 :: pool
  where
    start: "reach sel broken p0 p0"
  | step: "reach sel broken p0 p'" if "reach sel broken p0 p" and "act sel broken a p = Some p'"

fun run :: "(gkey list \<Rightarrow> nat) \<Rightarrow> string \<Rightarrow> actor list \<Rightarrow> pool \<Rightarrow> pool option" where
  "run sel broken [] p = Some p"
| "run sel broken (a # as) p = (case act sel broken a p of None \<Rightarrow> None | Some p' \<Rightarrow> run sel broken as p')"

lemma run_reach: "reach sel broken p0 p \<Longrightarrow> run sel broken as p = Some p' \<Longrightarrow> reach sel broken p0 p'"
  by (induction as arbitrary: p) (auto split: option.splits intro: reach.step)

subsection \<open>What the threads hold\<close>

definition gather :: "(phase \<Rightarrow> 'a list) \<Rightarrow> phase list \<Rightarrow> 'a multiset" where
  "gather f ts = mset (concat (map f ts))"

lemma gather_update:
  "i < length ts \<Longrightarrow> gather f (ts[i := ph]) + mset (f (ts ! i)) = gather f ts + mset (f ph)"
  using mset_concat_update_nth [of i "map f ts" "f ph"] by (simp add: gather_def map_update)

lemma gather_mem: "i < length ts \<Longrightarrow> mset (f (ts ! i)) \<subseteq># gather f ts"
  unfolding gather_def by (induction ts arbitrary: i) (auto simp: nth_Cons' intro: subset_mset.add_increasing)

text \<open>The tasks that count as running, and the guards.\<close>

fun phase_live :: "phase \<Rightarrow> executable_task list" where
  "phase_live (Ran x) = [x]"
| "phase_live (Notified x) = [x]"
| "phase_live ph = phase_unset ph"

definition guard_list :: "executable_task \<Rightarrow> (string \<times> bool) list" where
  "guard_list x = (case guard_of x of None \<Rightarrow> [] | Some g \<Rightarrow> [g])"

fun phase_guard :: "phase \<Rightarrow> (string \<times> bool) list" where
  "phase_guard (Locked x) = guard_list x"
| "phase_guard (Ran x) = guard_list x"
| "phase_guard (Notified x) = guard_list x"
| "phase_guard (Counted x) = guard_list x"
| "phase_guard _ = []"

definition live_tasks :: "pool \<Rightarrow> nat" where
  "live_tasks p = length (local_queue p) + size (gather phase_live (threads p))"

definition guards :: "pool \<Rightarrow> (string \<times> bool) multiset" where
  "guards p = gather phase_guard (threads p)"

lemma take_guard_ok:
  assumes "guards_ok lm_readers lm_writer G m" and "take_guard (guard_of x) m = Some m'"
  shows "guards_ok lm_readers lm_writer (G + mset (guard_list x)) m'"
proof (cases "guard_of x")
  case None
  with assms show ?thesis by (simp add: guard_list_def)
next
  case (Some g)
  obtain t b where g: "g = (t, b)" by (cases g)
  show ?thesis
    using assms Some g lm.acquire_shared [OF assms(1)] lm.acquire_exclusive [OF assms(1)]
    by (cases b) (auto simp: guard_list_def)
qed

lemma drop_guard_ok:
  assumes "guards_ok lm_readers lm_writer (G + mset (guard_list x)) m"
  shows "\<exists>m'. drop_guard (guard_of x) m = Some m' \<and> guards_ok lm_readers lm_writer G m'"
proof (cases "guard_of x")
  case None
  with assms show ?thesis by (simp add: guard_list_def)
next
  case (Some g)
  obtain t b where g: "g = (t, b)" by (cases g)
  show ?thesis
  proof (cases b)
    case True
    with assms Some g have "guards_ok lm_readers lm_writer (add_mset (t, True) G) m" by (simp add: guard_list_def)
    from lm.release_exclusive [OF this] show ?thesis using True Some g by (metis drop_guard.simps(2))
  next
    case False
    with assms Some g have "guards_ok lm_readers lm_writer (add_mset (t, False) G) m" by (simp add: guard_list_def)
    from lm.release_shared [OF this] show ?thesis using False Some g by (metis drop_guard.simps(3))
  qed
qed

subsection \<open>The invariant of the pool\<close>

definition pool_inv :: "pool \<Rightarrow> bool" where
  "pool_inv p \<longleftrightarrow> tq_inv (taskQueue p) \<and> running (taskQueue p) = of_nat (live_tasks p) \<and>
     guards_ok lm_readers lm_writer (guards p) (lockMgr p) \<and> \<not> undefined_run p"

text \<open>What a step of a worker does to the parts of the invariant, whatever the other threads hold.\<close>

definition work_ok :: "phase \<Rightarrow> pool \<Rightarrow> phase \<Rightarrow> pool \<Rightarrow> bool" where
  "work_ok ph p ph' p' \<longleftrightarrow> threads p' = threads p \<and> main p' = main p \<and> totalSubmitted p' = totalSubmitted p \<and>
     tq_inv (taskQueue p') \<and>
     running (taskQueue p') + of_nat (length (local_queue p) + length (phase_live ph)) =
       running (taskQueue p) + of_nat (length (local_queue p') + length (phase_live ph')) \<and>
     (\<forall>G. guards_ok lm_readers lm_writer (G + mset (phase_guard ph)) (lockMgr p) \<longrightarrow>
        undefined_run p' = undefined_run p \<and> guards_ok lm_readers lm_writer (G + mset (phase_guard ph')) (lockMgr p'))"

lemma work_ok_take_local:
  assumes "take_local xs p = (ph', p')" and "tq_inv (taskQueue p)"
  shows "work_ok (Merging xs) p ph' p'"
proof (cases "local_queue p @ xs")
  case Nil
  with assms show ?thesis by (auto simp: take_local_def work_ok_def)
next
  case (Cons x q)
  from arg_cong [OF this, of length] have "(of_nat (length (local_queue p) + length xs) :: u64) = of_nat (Suc (length q))"
    by simp
  with Cons assms show ?thesis by (auto simp: take_local_def work_ok_def)
qed

lemma work_okI:
  assumes "work sel ph p = Some (ph', p')" and inv: "tq_inv (taskQueue p)"
  shows "work_ok ph p ph' p'"
proof (cases ph)
  case Idle
  show ?thesis
  proof (cases "stop_requested p \<or> local_queue p = []")
    case True
    with Idle assms show ?thesis by (auto simp: work_ok_def split: if_splits)
  next
    case False
    with Idle assms have "take_local [] p = (ph', p')" by simp
    from work_ok_take_local [OF this inv] Idle show ?thesis by (simp add: work_ok_def)
  qed
next
  case (Fetching xs)
  show ?thesis
  proof (cases "FETCH_BATCH_SIZE \<le> length xs")
    case True
    with Fetching assms show ?thesis by (auto simp: work_ok_def)
  next
    case False
    show ?thesis
    proof (cases "fetchNext sel (taskQueue p)")
      case (Inl e)
      with Fetching False assms show ?thesis by (auto simp: work_ok_def)
    next
      case (Inr r)
      obtain tq x where r: "r = (tq, x)" by fastforce
      show ?thesis
      proof (cases "readyToFetch (taskQueue p)")
        case True
        from fetchNext_ok [OF Inr inv True] have f: "fetch_ok (taskQueue p) r" .
        show ?thesis
          using Fetching False assms f Inr r
          by (cases x) (auto simp: work_ok_def fetch_ok_def)
      next
        case False
        with Inr r have "tq = taskQueue p" "x = None" by (auto simp: fetchNext_def)
        with Fetching \<open>\<not> FETCH_BATCH_SIZE \<le> length xs\<close> assms Inr r show ?thesis by (auto simp: work_ok_def)
      qed
    qed
  qed
next
  case (Merging xs)
  with assms work_ok_take_local show ?thesis by simp
next
  case (Have x)
  with assms obtain m where m: "take_guard (guard_of x) (lockMgr p) = Some m" "ph' = Locked x" "p' = p\<lparr>lockMgr := m\<rparr>"
    by auto
  with Have inv take_guard_ok [OF _ m(1)] show ?thesis by (simp add: work_ok_def)
next
  case (Locked x)
  with assms show ?thesis by (auto simp: work_ok_def split: prod.splits)
next
  case (Ran x)
  obtain tq d where o: "onCompleted_locked (files (world_of p)) (onCompleted x) (taskQueue p, db (world_of p)) = (tq, d)"
    by fastforce
  from onCompleted_locked_spec [OF o inv] Ran assms o show ?thesis
    by (auto simp: work_ok_def same_counts_def)
next
  case (Notified x)
  with assms show ?thesis
    by (auto simp: work_ok_def onCompleted_count_def tq_inv_def)
next
  case (Counted x)
  show ?thesis
  proof (cases "drop_guard (guard_of x) (lockMgr p)")
    case None
    with drop_guard_ok [of _ x "lockMgr p"] Counted assms show ?thesis
      by (auto simp: work_ok_def)
  next
    case (Some m)
    with drop_guard_ok [of _ x "lockMgr p"] Counted assms show ?thesis
      by (auto simp: work_ok_def)
  qed
next
  case Stopped
  with assms show ?thesis by simp
qed

lemma pool_inv_new: "pool_inv (runtime_new qs n w)"
proof -
  have idle: "gather f (replicate n Idle) = {#}" if "f Idle = []" for f :: "phase \<Rightarrow> 'a list"
    using that by (induction n) (simp_all add: gather_def)
  show ?thesis
    using task_queue_new_ok(1) no_guards
    by (simp add: pool_inv_def runtime_new_def guards_def live_tasks_def idle task_queue_new_def)
qed

lemma pool_inv_worker:
  assumes inv: "pool_inv p" and i: "i < length (threads p)" and w: "work sel (threads p ! i) p = Some (ph, p')"
  shows "pool_inv (p'\<lparr>threads := (threads p')[i := ph]\<rparr>)"
proof -
  have tq: "tq_inv (taskQueue p)" using inv by (simp add: pool_inv_def)
  note ok = work_okI [OF w tq, unfolded work_ok_def]
  have g: "gather f ((threads p)[i := ph]) + mset (f (threads p ! i)) = gather f (threads p) + mset (f ph)"
    for f :: "phase \<Rightarrow> 'a list"
    by (rule gather_update [OF i])
  from arg_cong [OF g [of phase_live], of size]
  have len: "size (gather phase_live ((threads p)[i := ph])) + length (phase_live (threads p ! i)) =
      size (gather phase_live (threads p)) + length (phase_live ph)" by simp
  have "running (taskQueue p') = of_nat (length (local_queue p') + size (gather phase_live ((threads p)[i := ph])))"
  proof -
    let ?a = "size (gather phase_live (threads p))" and ?b = "size (gather phase_live ((threads p)[i := ph]))"
    let ?l = "length (local_queue p)" and ?l' = "length (local_queue p')"
    let ?x = "length (phase_live (threads p ! i))" and ?y = "length (phase_live ph)"
    have "running (taskQueue p') + of_nat (?l + ?x) = of_nat (?l + ?a) + (of_nat (?l' + ?y) :: u64)"
      using ok inv by (simp add: pool_inv_def live_tasks_def)
    also have "\<dots> = of_nat (?l + ?l' + (?a + ?y))" by simp
    also have "\<dots> = of_nat (?l + ?l' + (?b + ?x))" using len by simp
    also have "\<dots> = of_nat (?l' + ?b) + of_nat (?l + ?x)" by simp
    finally show ?thesis by (rule add_right_imp_eq)
  qed
  moreover have "guards_ok lm_readers lm_writer (gather phase_guard ((threads p)[i := ph])) (lockMgr p') \<and> \<not> undefined_run p'"
  proof -
    have "mset (phase_guard (threads p ! i)) \<subseteq># gather phase_guard (threads p)" by (rule gather_mem [OF i])
    then obtain G where G: "gather phase_guard (threads p) = G + mset (phase_guard (threads p ! i))"
      by (metis subset_mset.add_diff_inverse add.commute)
    with g [of phase_guard] have "gather phase_guard ((threads p)[i := ph]) = G + mset (phase_guard ph)"
      by (simp add: ac_simps)
    moreover have "guards_ok lm_readers lm_writer (G + mset (phase_guard (threads p ! i))) (lockMgr p)"
      using inv G by (simp add: pool_inv_def guards_def)
    then have "undefined_run p' = undefined_run p \<and> guards_ok lm_readers lm_writer (G + mset (phase_guard ph)) (lockMgr p')"
      using ok by blast
    ultimately show ?thesis using inv by (simp add: pool_inv_def)
  qed
  ultimately show ?thesis
    using ok by (simp add: pool_inv_def live_tasks_def guards_def)
qed

lemma pool_inv_main:
  assumes inv: "pool_inv p" and m: "main_step broken p = Some p'"
  shows "pool_inv p'"
proof (cases "main p")
  case (Submitting qs)
  show ?thesis
  proof (cases qs)
    case Nil
    with Submitting m inv show ?thesis
      by (auto simp: main_step_def startExecution_def setReady_def pool_inv_def live_tasks_def guards_def tq_inv_def)
  next
    case (Cons q qs')
    obtain tq r where reg: "registerTask (prepare q (totalSubmitted p + 1)) (taskQueue p) = (tq, r)" by fastforce
    have "tq_inv (taskQueue p)" using inv by (simp add: pool_inv_def)
    from registerTask_spec [OF reg this] Submitting Cons m inv reg show ?thesis
      by (auto simp: main_step_def submitQuery_def pool_inv_def live_tasks_def guards_def Let_def)
  qed
next
  case Waiting
  with m inv show ?thesis
    by (auto simp: main_step_def pool_inv_def live_tasks_def guards_def split: if_splits)
next
  case (Collected r)
  with m inv show ?thesis by (auto simp: main_step_def pool_inv_def live_tasks_def guards_def)
next
  case (Joining r)
  with m inv show ?thesis by (auto simp: main_step_def pool_inv_def live_tasks_def guards_def split: if_splits)
next
  case (Finished r)
  with m show ?thesis by (simp add: main_step_def)
qed

lemma act_cases:
  assumes "act sel broken a p = Some p'"
  obtains (main) "a = Main" "main_step broken p = Some p'"
  | (worker) i ph p1 where "a = Worker i" "i < length (threads p)" "work sel (threads p ! i) p = Some (ph, p1)"
      "p' = p1\<lparr>threads := (threads p1)[i := ph]\<rparr>"
  using assms by (auto simp: act_def split: if_splits actor.splits)

lemma pool_inv_act: "pool_inv p \<Longrightarrow> act sel broken a p = Some p' \<Longrightarrow> pool_inv p'"
  by (erule act_cases) (simp_all add: pool_inv_main pool_inv_worker)

lemma pool_inv_reach: "reach sel broken p0 p \<Longrightarrow> pool_inv p0 \<Longrightarrow> pool_inv p"
  by (induction rule: reach.induct) (auto intro: pool_inv_act)

subsection \<open>The pool as a bag of tasks\<close>

text \<open>
  What a scheduler promises, without queues, dependencies and locks: tasks are posted, taken
  and answered, each under its number; a LOAD may be lost while it waits. A task is its number, its
  type and its query, and nothing changes them.
\<close>

record bag =
  b_next :: u64
  b_wait :: "task_core multiset"
  b_run :: "task_core multiset"
  b_done :: "u64 list"

definition only_loads :: "task_core multiset \<Rightarrow> bool" where
  "only_loads L \<longleftrightarrow> (\<forall>c \<in># L. fst (snd c) = QT_Load)"

lemma only_loads_empty [simp]: "only_loads {#}"
  by (simp add: only_loads_def)

lemma only_loads_queue: "tq_inv tq \<Longrightarrow> L \<subseteq># mset (map core (loadQueue tq)) \<Longrightarrow> only_loads L"
  by (auto simp: only_loads_def tq_inv_def list_all_iff load_ok_def core_def dest!: mset_subset_eqD)

inductive bag_step :: "bag \<Rightarrow> bag \<Rightarrow> bool" where
  post: "bag_step b (b\<lparr>b_next := b_next b + 1, b_wait := add_mset (b_next b + 1, queryType q, q) (b_wait b)\<rparr>)"
| reject: "bag_step b (b\<lparr>b_next := b_next b + 1, b_done := b_done b @ [b_next b + 1]\<rparr>)"
| take_task: "bag_step b (b\<lparr>b_wait := W, b_run := add_mset s (b_run b)\<rparr>)" if "b_wait b = W + L + {#s#}" and "only_loads L"
| lose: "bag_step b (b\<lparr>b_wait := W\<rparr>)" if "b_wait b = W + L" and "only_loads L"
| answer: "bag_step b (b\<lparr>b_run := R, b_done := b_done b @ [fst s]\<rparr>)" if "b_run b = add_mset s R"

definition abs_bag :: "pool \<Rightarrow> bag" where
  "abs_bag p =
     \<lparr>b_next = totalSubmitted p, b_wait = pending (taskQueue p),
      b_run = image_mset x_core (mset (local_queue p) + gather phase_unset (threads p)),
      b_done = map fst (promises p)\<rparr>"

text \<open>The same with the tasks of one thread apart.\<close>

definition bag_with :: "task_core multiset \<Rightarrow> phase \<Rightarrow> pool \<Rightarrow> bag" where
  "bag_with R ph p =
     \<lparr>b_next = totalSubmitted p, b_wait = pending (taskQueue p),
      b_run = R + image_mset x_core (mset (local_queue p) + mset (phase_unset ph)),
      b_done = map fst (promises p)\<rparr>"

lemma bag_stepI:
  "b' = b\<lparr>b_wait := W, b_run := add_mset s (b_run b)\<rparr> \<Longrightarrow> b_wait b = W + L + {#s#} \<Longrightarrow> only_loads L \<Longrightarrow> bag_step b b'"
  "b' = b\<lparr>b_wait := W\<rparr> \<Longrightarrow> b_wait b = W + L \<Longrightarrow> only_loads L \<Longrightarrow> bag_step b b'"
  "b' = b\<lparr>b_run := R, b_done := b_done b @ [fst s]\<rparr> \<Longrightarrow> b_run b = add_mset s R \<Longrightarrow> bag_step b b'"
  by (auto intro: bag_step.intros)

lemma bag_step_same: "b' = b \<Longrightarrow> bag_step b b'"
  by (rule bag_stepI(2) [where W = "b_wait b" and L = "{#}"]) simp_all

lemma bag_take_local:
  assumes "take_local xs p = (ph', p')"
  shows "bag_with R ph' p' = bag_with R (Merging xs) p"
proof (cases "local_queue p @ xs")
  case Nil
  with assms show ?thesis by (auto simp: take_local_def bag_with_def)
next
  case (Cons x q)
  from arg_cong [OF this, of mset] have "mset (local_queue p) + mset xs = add_mset x (mset q)" by simp
  with Cons assms show ?thesis by (auto simp: take_local_def bag_with_def)
qed

lemma work_bag:
  assumes w: "work sel ph p = Some (ph', p')" and inv: "tq_inv (taskQueue p)"
  shows "bag_step (bag_with R ph p) (bag_with R ph' p')"
proof (cases ph)
  case Idle
  show ?thesis
  proof (cases "stop_requested p \<or> local_queue p = []")
    case True
    with Idle w show ?thesis by (intro bag_step_same) (auto simp: bag_with_def split: if_splits)
  next
    case False
    with Idle w have "take_local [] p = (ph', p')" by simp
    from bag_take_local [OF this] Idle show ?thesis by (intro bag_step_same) (simp add: bag_with_def)
  qed
next
  case (Fetching xs)
  show ?thesis
  proof (cases "FETCH_BATCH_SIZE \<le> length xs \<or> (\<exists>e. fetchNext sel (taskQueue p) = Inl e)")
    case True
    with Fetching w show ?thesis by (intro bag_step_same) (auto simp: bag_with_def split: if_splits)
  next
    case False
    then obtain tq x where r: "fetchNext sel (taskQueue p) = Inr (tq, x)"
      by (cases "fetchNext sel (taskQueue p)") auto
    from fetchNext_keeps [OF inv r] obtain lost where lost: "pending (taskQueue p) = pending tq + lost + fetched_core x"
      and "lost \<subseteq># mset (map core (loadQueue (taskQueue p)))" by blast
    from only_loads_queue [OF inv this(2)] have ol: "only_loads lost" .
    show ?thesis
    proof (cases x)
      case None
      with Fetching False r w have "ph' = Merging xs" "p' = p\<lparr>taskQueue := tq\<rparr>" by auto
      with lost ol None Fetching show ?thesis
        by (intro bag_stepI(2) [where L = lost]) (simp_all add: bag_with_def fetched_core_def)
    next
      case (Some y)
      with Fetching False r w have "ph' = Fetching (xs @ [y])" "p' = p\<lparr>taskQueue := tq\<rparr>" by auto
      with lost ol Some Fetching show ?thesis
        by (intro bag_stepI(1) [where s = "x_core y" and L = lost]) (simp_all add: bag_with_def fetched_core_def)
    qed
  qed
next
  case (Merging xs)
  with w bag_take_local show ?thesis by (intro bag_step_same) simp
next
  case (Have x)
  with w show ?thesis by (intro bag_step_same) (auto simp: bag_with_def)
next
  case (Locked x)
  obtain w' r where "run_logic x (world_of p) = (w', r)" by fastforce
  with Locked w show ?thesis
    by (intro bag_stepI(3) [where R = "R + image_mset x_core (mset (local_queue p))" and s = "x_core x"])
      (auto simp: bag_with_def)
next
  case (Ran x)
  obtain tq d where o: "onCompleted_locked (files (world_of p)) (onCompleted x) (taskQueue p, db (world_of p)) = (tq, d)"
    by fastforce
  from onCompleted_locked_spec [OF o inv] Ran w o show ?thesis
    by (intro bag_step_same) (auto simp: bag_with_def)
next
  case (Notified x)
  with w show ?thesis by (intro bag_step_same) (auto simp: bag_with_def onCompleted_count_def pending_def)
next
  case (Counted x)
  with w show ?thesis by (intro bag_step_same) (auto simp: bag_with_def split: option.splits)
next
  case Stopped
  with w show ?thesis by simp
qed

lemma abs_bag_with:
  assumes "gather phase_unset (threads p) = G + mset (phase_unset ph)"
  shows "abs_bag p = bag_with (image_mset x_core G) ph p"
  using assms by (simp add: abs_bag_def bag_with_def ac_simps)

lemma abs_bag_worker:
  assumes inv: "tq_inv (taskQueue p)" and i: "i < length (threads p)" and w: "work sel (threads p ! i) p = Some (ph, p')"
  shows "bag_step (abs_bag p) (abs_bag (p'\<lparr>threads := (threads p')[i := ph]\<rparr>))"
proof -
  have "mset (phase_unset (threads p ! i)) \<subseteq># gather phase_unset (threads p)" by (rule gather_mem [OF i])
  then obtain G where G: "gather phase_unset (threads p) = G + mset (phase_unset (threads p ! i))"
    by (metis subset_mset.add_diff_inverse add.commute)
  have t: "threads p' = threads p" using work_okI [OF w inv] by (simp add: work_ok_def)
  have "gather phase_unset ((threads p')[i := ph]) = G + mset (phase_unset ph)"
    using gather_update [OF i, of phase_unset ph] G t by (simp add: ac_simps)
  then have "abs_bag (p'\<lparr>threads := (threads p')[i := ph]\<rparr>) = bag_with (image_mset x_core G) ph p'"
    by (simp add: abs_bag_def bag_with_def ac_simps)
  with work_bag [OF w inv, of "image_mset x_core G"] abs_bag_with [OF G] show ?thesis by simp
qed

lemma submit_bag:
  assumes inv: "tq_inv (taskQueue p)"
  shows "bag_step (abs_bag p) (abs_bag (submitQuery q (p\<lparr>main := m\<rparr>)))"
proof -
  obtain tq r where reg: "registerTask (prepare q (totalSubmitted p + 1)) (taskQueue p) = (tq, r)" by fastforce
  note spec = registerTask_spec [OF reg inv]
  show ?thesis
  proof (cases "quitFlag (taskQueue p)")
    case True
    with reg obtain e where "tq = taskQueue p" "r = Some e" by (auto simp: registerTask_def)
    then have "abs_bag (submitQuery q (p\<lparr>main := m\<rparr>)) =
        (abs_bag p)\<lparr>b_next := b_next (abs_bag p) + 1, b_done := b_done (abs_bag p) @ [b_next (abs_bag p) + 1]\<rparr>"
      using reg by (simp add: submitQuery_def abs_bag_def Let_def)
    then show ?thesis using bag_step.reject by metis
  next
    case False
    with spec have "r = None" "pending tq = add_mset (totalSubmitted p + 1, queryType q, q) (pending (taskQueue p))"
      by (simp_all add: prepare_def pq_core_def)
    then have "abs_bag (submitQuery q (p\<lparr>main := m\<rparr>)) =
        (abs_bag p)\<lparr>b_next := b_next (abs_bag p) + 1, b_wait := add_mset (b_next (abs_bag p) + 1, queryType q, q) (b_wait (abs_bag p))\<rparr>"
      using reg by (simp add: submitQuery_def abs_bag_def Let_def)
    then show ?thesis using bag_step.post by metis
  qed
qed

lemma abs_bag_main:
  assumes inv: "tq_inv (taskQueue p)" and m: "main_step broken p = Some p'"
  shows "bag_step (abs_bag p) (abs_bag p')"
proof (cases "\<exists>q qs. main p = Submitting (q # qs)")
  case True
  with m obtain q qs where "p' = submitQuery q (p\<lparr>main := Submitting qs\<rparr>)" by (auto simp: main_step_def)
  with submit_bag [OF inv] show ?thesis by simp
next
  case False
  with m have "abs_bag p' = abs_bag p"
    by (auto simp: main_step_def abs_bag_def startExecution_def setReady_def pending_def
        split: main_pc.splits list.splits if_splits)
  then show ?thesis by (rule bag_step_same)
qed

lemma abs_bag_act:
  assumes "pool_inv p" and "act sel broken a p = Some p'"
  shows "bag_step (abs_bag p) (abs_bag p')"
  using assms(2)
proof (cases rule: act_cases)
  case main
  with assms(1) abs_bag_main show ?thesis by (simp add: pool_inv_def)
next
  case (worker i ph p1)
  with assms(1) abs_bag_worker show ?thesis by (simp add: pool_inv_def)
qed

text \<open>
  C10: Every step of a thread is a step of the bag of tasks, or changes nothing there: the
  schedulers, batches, queues and callbacks together post, take and answer tasks.
\<close>

theorem pool_refines_bag:
  assumes "reach sel broken (runtime_new qs n w) p" and "act sel broken a p = Some p'"
  shows "bag_step (abs_bag p) (abs_bag p')"
  using abs_bag_act [OF pool_inv_reach [OF assms(1) pool_inv_new] assms(2)] .

subsection \<open>Each query is answered at most once\<close>

text \<open>The numbers of the tasks in a bag, wherever they are.\<close>

definition bag_seqs :: "bag \<Rightarrow> u64 multiset" where
  "bag_seqs b = image_mset fst (b_wait b + b_run b) + mset (b_done b)"

definition bag_ok :: "bag \<Rightarrow> bool" where
  "bag_ok b \<longleftrightarrow> (\<forall>s. count (bag_seqs b) s \<le> (if 1 \<le> s \<and> s \<le> b_next b then 1 else 0))"

lemma bag_ok_sub:
  assumes "bag_ok b" and "b_next b' = b_next b"
    and "bag_seqs b' \<subseteq># bag_seqs b"
  shows "bag_ok b'"
  unfolding bag_ok_def assms(2)
proof
  fix s
  have "count (bag_seqs b') s \<le> count (bag_seqs b) s"
    by (rule mset_subset_eq_count [OF assms(3)])
  also have "\<dots> \<le> (if 1 \<le> s \<and> s \<le> b_next b then 1 else 0)" using assms(1) by (simp add: bag_ok_def)
  finally show "count (bag_seqs b') s \<le> (if 1 \<le> s \<and> s \<le> b_next b then 1 else 0)" .
qed

lemma bag_ok_new:
  assumes "bag_ok b" and "b_next b + 1 \<noteq> 0" and "b_next b' = b_next b + 1"
    and "bag_seqs b' = add_mset (b_next b + 1) (bag_seqs b)"
  shows "bag_ok b'"
proof -
  have "unat (b_next b + 1) = Suc (unat (b_next b))"
    using unatSuc [of "b_next b"] assms(2) by (simp add: add.commute)
  then have lt: "b_next b < b_next b + 1" and one: "1 \<le> b_next b + 1"
    by (simp_all add: word_less_nat_alt word_le_nat_alt)
  have "count (add_mset (b_next b + 1) (bag_seqs b)) s \<le>
      (if 1 \<le> s \<and> s \<le> b_next b + 1 then 1 else 0)" for s
  proof (cases "s = b_next b + 1")
    case True
    with lt have "\<not> s \<le> b_next b" by simp
    moreover have "count (bag_seqs b) s \<le> (if 1 \<le> s \<and> s \<le> b_next b then 1 else 0)"
      using assms(1) by (simp add: bag_ok_def)
    ultimately have "count (bag_seqs b) s = 0" by simp
    with True one show ?thesis by simp
  next
    case False
    have "count (bag_seqs b) s \<le> (if 1 \<le> s \<and> s \<le> b_next b then 1 else 0)"
      using assms(1) by (simp add: bag_ok_def)
    also have "\<dots> \<le> (if 1 \<le> s \<and> s \<le> b_next b + 1 then 1 else 0)" using lt by auto
    finally show ?thesis using False by simp
  qed
  with assms(3,4) show ?thesis by (simp add: bag_ok_def)
qed

lemma bag_ok_step:
  assumes "bag_step b b'" and ok: "bag_ok b" and "b_next b + 1 \<noteq> 0 \<or> b_next b' = b_next b"
  shows "bag_ok b'"
  using assms(1)
proof cases
  case post
  with assms(3) show ?thesis by (intro bag_ok_new [OF ok]) (simp_all add: bag_seqs_def)
next
  case reject
  with assms(3) show ?thesis by (intro bag_ok_new [OF ok]) (simp_all add: bag_seqs_def)
next
  case (take_task W s L)
  then show ?thesis by (intro bag_ok_sub [OF ok]) (simp_all add: bag_seqs_def)
next
  case (lose W L)
  then show ?thesis by (intro bag_ok_sub [OF ok]) (simp_all add: bag_seqs_def)
next
  case (answer R s)
  then show ?thesis by (intro bag_ok_sub [OF ok]) (simp_all add: bag_seqs_def)
qed

text \<open>The numbers do not wrap around.\<close>

definition to_submit :: "pool \<Rightarrow> nat" where
  "to_submit p = (case main p of Submitting qs \<Rightarrow> length qs | _ \<Rightarrow> 0)"

lemma reach_count:
  assumes "reach sel broken (runtime_new qs n w) p" and "length qs < 2 ^ 64"
  shows "unat (totalSubmitted p) + to_submit p \<le> length qs"
  using assms(1)
proof induction
  case start
  then show ?case by (simp add: runtime_new_def to_submit_def)
next
  case (step p a p')
  have inv: "pool_inv p" by (rule pool_inv_reach [OF step.hyps(1) pool_inv_new])
  from step.hyps(2) show ?case
  proof (cases rule: act_cases)
    case main
    have "unat (x + 1) \<le> Suc (unat x)" for x :: u64 by (simp add: unat_plus_if_size)
    with main step.IH show ?thesis
      by (auto simp: main_step_def submitQuery_def startExecution_def to_submit_def Let_def
          split: main_pc.splits list.splits if_splits prod.splits) (metis add_Suc le_trans add_le_mono1)
  next
    case (worker i ph p1)
    have "work_ok (threads p ! i) p ph p1" using inv by (intro work_okI [OF worker(3)]) (simp add: pool_inv_def)
    with worker step.IH show ?thesis by (simp add: work_ok_def to_submit_def)
  qed
qed

lemma act_next:
  assumes "reach sel broken (runtime_new qs n w) p" and "length qs < 2 ^ 64" and "act sel broken a p = Some p'"
  shows "totalSubmitted p + 1 \<noteq> 0 \<or> totalSubmitted p' = totalSubmitted p"
proof (cases "\<exists>q qs'. main p = Submitting (q # qs')")
  case True
  with reach_count [OF assms(1,2)] assms(2) have "unat (totalSubmitted p) + 1 < 2 ^ 64"
    by (auto simp: to_submit_def)
  then have "unat (totalSubmitted p + 1) = unat (totalSubmitted p) + 1"
    by (simp add: unat_plus_if_size word_size)
  then show ?thesis by (metis Suc_eq_plus1 nat.simps(3) unat_0)
next
  case no: False
  from assms(3) show ?thesis
  proof (cases rule: act_cases)
    case main
    with no show ?thesis
      by (auto simp: main_step_def startExecution_def split: main_pc.splits list.splits if_splits)
  next
    case (worker i ph p1)
    have "tq_inv (taskQueue p)" using pool_inv_reach [OF assms(1) pool_inv_new] by (simp add: pool_inv_def)
    from work_okI [OF worker(3) this] worker show ?thesis by (simp add: work_ok_def)
  qed
qed

lemma bag_ok_reach:
  assumes "reach sel broken (runtime_new qs n w) p" and "length qs < 2 ^ 64"
  shows "bag_ok (abs_bag p)"
  using assms(1)
proof induction
  case start
  have "gather phase_unset (replicate n Idle) = {#}" by (induction n) (simp_all add: gather_def)
  then show ?case by (simp add: bag_ok_def bag_seqs_def abs_bag_def runtime_new_def)
next
  case (step p a p')
  have "pool_inv p" by (rule pool_inv_reach [OF step.hyps(1) pool_inv_new])
  from bag_ok_step [OF abs_bag_act [OF this step.hyps(2)] step.IH] act_next [OF step.hyps(1) assms(2) step.hyps(2)]
  show ?case by (simp add: abs_bag_def)
qed

lemma distinct_count_le: "(\<And>s. count (mset xs) s \<le> 1) \<Longrightarrow> distinct xs"
  by (simp add: distinct_count_atmost_1) (metis count_mset_0_iff le_SucE le_zero_eq One_nat_def)

lemma disjoint_count_le:
  assumes "\<And>s. count (A + B) s \<le> 1"
  shows "set_mset A \<inter> set_mset B = {}"
proof -
  have "s \<notin># B" if "s \<in># A" for s
    using assms [of s] that by (simp add: count_greater_zero_iff [symmetric] not_in_iff del: count_greater_zero_iff)
  then show ?thesis by blast
qed

text \<open>
  The places a query can be in: waiting in the task queue, fetched but not executed (in a batch, in the local
  queue or with a worker), or answered.
\<close>

definition places :: "pool \<Rightarrow> u64 multiset" where
  "places p = image_mset fst (pending (taskQueue p)) + mset (map x_seq (unset_tasks p)) + mset (map fst (promises p))"

lemma places_bag: "places p = bag_seqs (abs_bag p)"
  by (simp add: places_def bag_seqs_def abs_bag_def unset_tasks_def gather_def multiset.map_comp o_def ac_simps)

lemma places_once:
  assumes "reach sel broken (runtime_new qs n w) p" and "length qs < 2 ^ 64"
  shows "count (places p) s \<le> (if 1 \<le> s \<and> s \<le> totalSubmitted p then 1 else 0)"
  using bag_ok_reach [OF assms] by (simp add: places_bag bag_ok_def abs_bag_def)

text \<open>
  C6: In every interleaving of the main thread and the workers, the number of a submitted query is in at most
  one place (waiting in the task queue, fetched but not executed, or answered) and there at most once, and no other
  number is in any. So no task is held twice or by two threads, no promise is set twice, and only submitted
  queries are answered.
\<close>

theorem answered_once:
  assumes "reach sel broken (runtime_new qs n w) p" and "length qs < 2 ^ 64"
  shows "(\<forall>s. count (places p) s \<le> (if 1 \<le> s \<and> s \<le> totalSubmitted p then 1 else 0)) \<and>
     distinct (map fst (promises p)) \<and> distinct (map x_seq (unset_tasks p)) \<and>
     set (map fst (promises p)) \<inter> set (map x_seq (unset_tasks p)) = {} \<and>
     set (map fst (promises p)) \<inter> fst ` set_mset (pending (taskQueue p)) = {} \<and>
     set (map x_seq (unset_tasks p)) \<inter> fst ` set_mset (pending (taskQueue p)) = {}"
proof -
  let ?w = "image_mset fst (pending (taskQueue p))" and ?r = "map x_seq (unset_tasks p)" and ?d = "map fst (promises p)"
  have le: "count (?w + mset ?r + mset ?d) s \<le> 1" for s
    using places_once [OF assms, of s] by (auto simp: places_def split: if_splits)
  have c: "count (mset ?r) s \<le> 1" "count (mset ?d) s \<le> 1" "count (mset ?d + mset ?r) s \<le> 1"
    "count (mset ?d + ?w) s \<le> 1" "count (mset ?r + ?w) s \<le> 1" for s
    using le [of s] unfolding count_union by linarith+
  note distinct_count_le [OF c(1)] distinct_count_le [OF c(2)]
    disjoint_count_le [OF c(3)] disjoint_count_le [OF c(4)] disjoint_count_le [OF c(5)]
  then show ?thesis using places_once [OF assms] unfolding set_image_mset set_mset_mset by blast
qed

subsection \<open>Locks and barriers\<close>

text \<open>
  C13: No run ever releases a lock that is not held, which would be undefined. And the guards held by the threads
  exclude each other: while a write guard on a table is held it is the only guard on that table.
\<close>

theorem table_exclusion:
  assumes "reach sel broken (runtime_new qs n w) p"
  shows "\<not> undefined_run p \<and> (\<forall>t. (t, True) \<in># guards p \<longrightarrow> filter_mset (\<lambda>g. fst g = t) (guards p) = {#(t, True)#})"
proof -
  have "pool_inv p" by (rule pool_inv_reach [OF assms pool_inv_new])
  then have g: "guards_ok lm_readers lm_writer (guards p) (lockMgr p)" and u: "\<not> undefined_run p"
    by (simp_all add: pool_inv_def)
  from lm.exclusive_alone [OF g] u show ?thesis by blast
qed

text \<open>
  C15: The counter of running tasks is the number of tasks that were fetched and whose callback has not
  finished, so a QUIT, LIST or LISTEN is fetched only when there is none: no task is in a batch, in the
  local queue or with a worker.
\<close>

theorem barrier_alone:
  assumes "reach sel broken (runtime_new qs n w) p" and "live_tasks p < 2 ^ 64"
    and "fetchNext sel (taskQueue p) = Inr (tq, Some x)" and "x_type x \<in> {QT_Quit, QT_List, QT_Listen}"
  shows "local_queue p = [] \<and> gather phase_live (threads p) = {#}"
proof -
  have inv: "pool_inv p" by (rule pool_inv_reach [OF assms(1) pool_inv_new])
  then have tq: "tq_inv (taskQueue p)" by (simp add: pool_inv_def)
  from assms(3) have rdy: "readyToFetch (taskQueue p)" by (auto simp: fetchNext_def split: if_splits)
  from fetchNext_ok [OF assms(3) tq rdy] assms(4) have "from_barrier (taskQueue p) x tq"
    by (auto simp: fetch_ok_def before_barrier_def barrier_types_def)
  then have "(of_nat (live_tasks p) :: u64) = 0" using inv by (auto simp: from_barrier_def pool_inv_def)
  then have "live_tasks p = 0"
    using assms(2) by (auto simp: word_of_nat_eq_0_iff dest: dvd_imp_le)
  then show ?thesis by (simp add: live_tasks_def)
qed

subsection \<open>Barriers\<close>






lemma take_guard_blocked:
  assumes "guards_ok lm_readers lm_writer G m" and "take_guard (guard_of x) m = None"
  shows "\<exists>g. g \<in># G"
proof -
  obtain t b where g: "guard_of x = Some (t, b)" using assms(2) by (cases "guard_of x") auto
  show ?thesis
  proof (cases b)
    case True
    with g assms(2) have "lockX t m = None" by simp
    from lm.exclusive_blocked [OF assms(1) this] show ?thesis by blast
  next
    case False
    with g assms(2) have "lockS t m = None" by simp
    from lm.shared_blocked [OF assms(1) this] show ?thesis by blast
  qed
qed

lemma holder_works: "phase_guard ph \<noteq> [] \<Longrightarrow> work sel ph p \<noteq> None"
  by (cases ph) (auto simp: split_def Let_def split: option.split)

lemma work_blocks: "work sel ph p = None \<Longrightarrow> ph = Stopped \<or> (\<exists>x. ph = Have x \<and> take_guard (guard_of x) (lockMgr p) = None)"
  by (cases ph) (auto simp: split_def Let_def split: if_splits sum.splits prod.splits option.splits)

lemma blocked_or_works:
  assumes inv: "pool_inv p" and "threads p ! i \<noteq> Stopped"
  shows "work sel (threads p ! i) p \<noteq> None \<or>
     (\<exists>j < length (threads p). phase_guard (threads p ! j) \<noteq> [] \<and> work sel (threads p ! j) p \<noteq> None)"
proof (cases "work sel (threads p ! i) p")
  case None
  have g: "guards_ok lm_readers lm_writer (guards p) (lockMgr p)" using inv by (simp add: pool_inv_def)
  from work_blocks [OF None] assms(2) obtain x where "take_guard (guard_of x) (lockMgr p) = None" by blast
  from take_guard_blocked [OF g this] obtain gd where "gd \<in># guards p" by blast
  then obtain ph where "ph \<in> set (threads p)" "gd \<in> set (phase_guard ph)" by (auto simp: guards_def gather_def)
  then obtain j where j: "j < length (threads p)" "threads p ! j = ph" by (metis in_set_conv_nth)
  with \<open>gd \<in> set (phase_guard ph)\<close> have "phase_guard (threads p ! j) \<noteq> []" by auto
  with j holder_works show ?thesis by blast
qed simp

text \<open>
  C14: The workers never deadlock: a worker that has not stopped can take its next step, or waits for the lock of
  a table while another worker holds a guard and can take its next step.
\<close>

theorem no_lock_deadlock:
  assumes "reach sel broken (runtime_new qs n w) p" and "\<not> terminated p"
    and "i < length (threads p)" and "threads p ! i \<noteq> Stopped"
  shows "(\<exists>p'. act sel broken (Worker i) p = Some p') \<or>
     (\<exists>j < length (threads p). \<exists>p'. phase_guard (threads p ! j) \<noteq> [] \<and> act sel broken (Worker j) p = Some p')"
proof -
  have inv: "pool_inv p" by (rule pool_inv_reach [OF assms(1) pool_inv_new])
  then have "\<not> undefined_run p" by (simp add: pool_inv_def)
  with blocked_or_works [OF inv assms(4), of sel] assms(2,3) show ?thesis by (auto simp: act_def)
qed

subsection \<open>A run that never ends\<close>

definition stuck :: "query list \<Rightarrow> pool \<Rightarrow> bool" where
  "stuck qs p \<longleftrightarrow> quiet (taskQueue p) \<and> local_queue p = [] \<and> promises p = [] \<and> \<not> stop_requested p \<and>
     list_all (\<lambda>ph. ph \<in> {Idle, Fetching [], Merging []}) (threads p) \<and>
     (case main p of Submitting l \<Rightarrow> set l \<subseteq> set qs | Waiting \<Rightarrow> True | _ \<Rightarrow> False) \<and>
     (totalSubmitted p = 0 \<and> main p = Submitting qs \<or> totalSubmitted p \<noteq> 0 \<and> 1 \<in> fst ` set_mset (pending (taskQueue p)))"

lemma queue_cores_seqs: "image_mset fst (queue_cores m) = mset (concat (map (\<lambda>e. map seq (tqueue (snd e))) m))"
  unfolding queue_cores_def by (induction m) (simp_all add: multiset.map_comp o_def)

lemma pending_queued: "image_mset fst (pending tq) = mset (queued_seqs tq)"
proof -
  have m: "image_mset seq (mset (concat xs)) = mset (concat (map (map seq) xs))" for xs :: "scheduled_item list list"
    by (simp add: map_concat [symmetric])
  show ?thesis
    by (simp add: pending_def queued_seqs_def queue_cores_seqs waiting_items_def um_items_def multiset.map_comp m o_def
        ac_simps del: mset_concat)
qed

lemma stuck_waits: "stuck qs p \<Longrightarrow> totalSubmitted p \<noteq> 0 \<Longrightarrow> \<exists>n \<in> set (indices p). future_of p n = Not_ready"
proof -
  assume s: "stuck qs p" and t: "totalSubmitted p \<noteq> 0"
  then have "1 \<in># image_mset fst (pending (taskQueue p))" by (simp add: stuck_def)
  then have "1 \<in> set (queued_seqs (taskQueue p))" unfolding pending_queued by simp
  with s have "future_of p 1 = Not_ready" by (simp add: stuck_def future_of_def)
  moreover have "unat (totalSubmitted p) \<ge> 1" using t by (simp add: Suc_leI unat_gt_0)
  then have "1 \<in> {1..<Suc (unat (totalSubmitted p))}" unfolding atLeastLessThan_iff by linarith
  then have "of_nat 1 \<in> (of_nat :: nat \<Rightarrow> u64) ` {1..<Suc (unat (totalSubmitted p))}" by (rule imageI)
  then have "1 \<in> set (indices p)" by (simp only: indices_def set_map set_upt of_nat_1)
  ultimately show ?thesis by blast
qed

text \<open>With nothing to hand out and nothing in hand a worker goes round in its loop.\<close>

definition idle_phases :: "phase set" where
  "idle_phases = {Idle, Fetching [], Merging []}"

lemma quiet_worker:
  assumes "quiet (taskQueue p)" and "local_queue p = []" and "\<not> stop_requested p" and "ph \<in> idle_phases"
    and "work sel ph p = Some (ph', p')"
  shows "p' = p \<and> ph' \<in> idle_phases"
  using assms quiet_fetch [OF assms(1), of sel] by (auto simp: idle_phases_def take_local_def FETCH_BATCH_SIZE_def)

lemma stuck_worker:
  assumes st: "stuck qs p" and i: "i < length (threads p)" and w: "work sel (threads p ! i) p = Some (ph, p')"
  shows "stuck qs (p'\<lparr>threads := (threads p')[i := ph]\<rparr>)"
proof -
  have "quiet (taskQueue p)" "local_queue p = []" "\<not> stop_requested p" "threads p ! i \<in> idle_phases"
    using st i by (auto simp: stuck_def list_all_length idle_phases_def)
  from quiet_worker [OF this w] show ?thesis
    using st by (auto simp: stuck_def idle_phases_def list_all_iff dest!: set_update_subset_insert [THEN subsetD])
qed

lemma stuck_main:
  assumes st: "stuck qs p" and m: "main_step broken p = Some p'" and inv: "tq_inv (taskQueue p)"
    and slow: "\<forall>q \<in> set qs. queryType q \<notin> {QT_Quit, QT_List, QT_Listen, QT_Load}" and ne: "qs \<noteq> []"
    and next1: "totalSubmitted p + 1 \<noteq> 0 \<or> totalSubmitted p' = totalSubmitted p"
  shows "stuck qs p'"
proof (cases "main p")
  case (Submitting l)
  show ?thesis
  proof (cases l)
    case Nil
    with Submitting st ne m have "p' = startExecution (p\<lparr>main := Waiting\<rparr>)" "totalSubmitted p \<noteq> 0"
      by (auto simp: main_step_def stuck_def)
    moreover have "pending (setReady (taskQueue p)) = pending (taskQueue p)" by (simp add: setReady_def pending_def)
    moreover have "quiet (setReady (taskQueue p)) = quiet (taskQueue p)" by (simp add: setReady_def quiet_def)
    ultimately show ?thesis using st by (simp add: stuck_def startExecution_def)
  next
    case (Cons q l')
    let ?q = "prepare q (totalSubmitted p + 1)"
    have quiet: "quiet (taskQueue p)" and "q \<in> set qs" "set l' \<subseteq> set qs"
      using st Submitting Cons by (auto simp: stuck_def)
    with slow have ty: "pq_type ?q \<notin> {QT_Quit, QT_List, QT_Listen, QT_Load}" by (simp add: prepare_def)
    obtain tq r where reg: "registerTask ?q (taskQueue p) = (tq, r)" by fastforce
    have p': "p' = submitQuery q (p\<lparr>main := Submitting l'\<rparr>)" using m Submitting Cons by (simp add: main_step_def)
    have r: "r = None" and pend: "pending tq = add_mset (pq_core ?q) (pending (taskQueue p))"
      using registerTask_spec [OF reg inv] quiet by (simp_all add: quiet_def)
    have "quiet tq" using register_quiet [OF quiet ty] reg by simp
    moreover have "totalSubmitted p + 1 \<noteq> 0" using next1 p' reg by (auto simp: submitQuery_def Let_def)
    moreover have "1 \<in> fst ` set_mset (pending tq)" using st pend by (auto simp: stuck_def prepare_def)
    ultimately show ?thesis
      using st r reg \<open>set l' \<subseteq> set qs\<close> by (simp add: p' stuck_def submitQuery_def Let_def)
  qed
next
  case Waiting
  with stuck_waits [OF st] st m show ?thesis by (auto simp: main_step_def stuck_def list_all_iff split: if_splits)
next
  case (Collected r)
  with st show ?thesis by (simp add: stuck_def)
next
  case (Joining r)
  with st show ?thesis by (simp add: stuck_def)
next
  case (Finished r)
  with st show ?thesis by (simp add: stuck_def)
qed

lemma stuck_reach:
  assumes "reach sel broken (runtime_new qs n w) p" and len: "length qs < 2 ^ 64"
    and slow: "\<forall>q \<in> set qs. queryType q \<notin> {QT_Quit, QT_List, QT_Listen, QT_Load}" and ne: "qs \<noteq> []"
  shows "stuck qs p"
  using assms(1)
proof induction
  case start
  show ?case
    using task_queue_new_ok(2) by (simp add: stuck_def runtime_new_def list_all_iff)
next
  case (step p a p')
  have "pool_inv p" by (rule pool_inv_reach [OF step.hyps(1) pool_inv_new])
  then have tq: "tq_inv (taskQueue p)" by (simp add: pool_inv_def)
  from step.hyps(2) show ?case
  proof (cases rule: act_cases)
    case main
    from stuck_main [OF step.IH main(2) tq slow ne act_next [OF step.hyps(1) len step.hyps(2)]] show ?thesis .
  next
    case (worker i ph p1)
    from stuck_worker [OF step.IH worker(2,3)] worker(4) show ?thesis by simp
  qed
qed

text \<open>
  C26: The queue of a table is announced to the workers when a LOAD or COPYTABLE that registers the table
  completes, or when a task before its head completes. So a program of one or more queries none of which is
  a LOAD, QUIT, LIST or LISTEN never ends: in no interleaving does the main thread get past
  \<open>waitAll\<close>, whatever the number of workers. A single-threaded run answers each query with an error.
\<close>

theorem no_load_hangs:
  assumes "reach sel broken (runtime_new qs n w) p" and "length qs < 2 ^ 64" and "qs \<noteq> []"
    and "list_all (\<lambda>q. queryType q \<notin> {QT_Quit, QT_List, QT_Listen, QT_Load}) qs"
  shows "promises p = [] \<and> (case main p of Submitting l \<Rightarrow> True | Waiting \<Rightarrow> main_step broken p = None | _ \<Rightarrow> False)"
proof -
  have st: "stuck qs p" using assms(4) by (intro stuck_reach [OF assms(1,2) _ assms(3)]) (simp add: list_all_iff)
  show ?thesis
  proof (cases "main p")
    case Waiting
    with st stuck_waits [OF st] show ?thesis by (auto simp: stuck_def main_step_def list_all_iff)
  qed (use st in \<open>simp_all add: stuck_def\<close>)
qed

subsection \<open>Witnesses\<close>

definition demo_queries :: "query list" where
  "demo_queries = [LoadTableQuery ''a'' ''f'', ComplexQuery Op_Insert ''a'' [''k'', ''1''] [], QuitQuery]"

definition demo_files :: world where
  "demo_files = \<lparr>db = db_new, files = [(''f'', ''a 2'' @ [CHR 0x0A] @ ''KEY c'' @ [CHR 0x0A])], unwritable = [], out = []\<rparr>"

definition demo_new :: pool where
  "demo_new = runtime_new demo_queries 2 demo_files"

text \<open>Submit and start; then one worker runs up to the LOAD with its lock taken.\<close>

definition to_lock :: "actor list" where
  "to_lock = replicate 4 Main @ replicate 5 (Worker 0)"

definition locked_pool :: pool where
  "locked_pool = the (run ref_sel [] to_lock demo_new)"

lemma locked_reach: "reach ref_sel [] demo_new locked_pool"
proof -
  have "run ref_sel [] to_lock demo_new \<noteq> None" by code_simp
  then show ?thesis unfolding locked_pool_def by (auto intro: run_reach [OF reach.start])
qed

theorem table_exclusion_witness:
  "filter_mset (\<lambda>g. fst g = ''a'') (guards locked_pool) = {#(''a'', True)#}"
proof -
  have "concat (map phase_guard (threads locked_pool)) = [(''a'', True)]" by code_simp
  then have "(''a'', True) \<in># guards locked_pool" by (simp add: guards_def gather_def)
  with table_exclusion [OF locked_reach [unfolded demo_new_def]] show ?thesis by blast
qed

text \<open>The LOAD and the INSERT are executed by different workers; then the QUIT is the only task.\<close>

definition to_quit :: "actor list" where
  "to_quit = to_lock @ replicate 4 (Worker 0) @ replicate 9 (Worker 1) @ [Worker 0]"

definition quit_pool :: pool where
  "quit_pool = the (run ref_sel [] to_quit demo_new)"

lemma quit_reach: "reach ref_sel [] demo_new quit_pool"
proof -
  have "run ref_sel [] to_quit demo_new \<noteq> None" by code_simp
  then show ?thesis unfolding quit_pool_def by (auto intro: run_reach [OF reach.start])
qed




theorem barrier_alone_witness:
  "\<exists>tq x. fetchNext ref_sel (taskQueue quit_pool) = Inr (tq, Some x) \<and> x_type x = QT_Quit \<and>
     gather phase_live (threads quit_pool) = {#}"
proof -
  have "case fetchNext ref_sel (taskQueue quit_pool) of Inr (tq, Some x) \<Rightarrow> x_type x = QT_Quit | _ \<Rightarrow> False"
    by code_simp
  then obtain tq x where f: "fetchNext ref_sel (taskQueue quit_pool) = Inr (tq, Some x)" and x: "x_type x = QT_Quit"
    by (auto split: sum.splits option.splits prod.splits)
  have "live_tasks quit_pool = 0" by code_simp
  then have "live_tasks quit_pool < 2 ^ 64" by simp
  from barrier_alone [OF quit_reach [unfolded demo_new_def] this f] x f show ?thesis by blast
qed

theorem no_lock_deadlock_witness:
  "\<exists>j < 2. \<exists>p'. act ref_sel [] (Worker j) locked_pool = Some p'"
proof -
  have l: "length (threads locked_pool) = 2" "\<not> terminated locked_pool" "threads locked_pool ! 0 \<noteq> Stopped" by code_simp+
  then have "0 < length (threads locked_pool)" by simp
  from no_lock_deadlock [OF locked_reach [unfolded demo_new_def] l(2) this l(3)] l(1) show ?thesis
    by (metis less_2_cases_iff)
qed

theorem answered_once_witness:
  "distinct (map fst (promises quit_pool)) \<and> map fst (promises quit_pool) = [1, 2]"
proof
  show "distinct (map fst (promises quit_pool))"
    using answered_once [OF quit_reach [unfolded demo_new_def]] by (simp add: demo_queries_def)
  show "map fst (promises quit_pool) = [1, 2]" by code_simp
qed

theorem pool_refines_bag_witness:
  "bag_step (abs_bag quit_pool) (abs_bag (the (act ref_sel [] (Worker 0) quit_pool)))"
proof -
  have "act ref_sel [] (Worker 0) quit_pool \<noteq> None" by code_simp
  then have "act ref_sel [] (Worker 0) quit_pool = Some (the (act ref_sel [] (Worker 0) quit_pool))" by simp
  from pool_refines_bag [OF quit_reach [unfolded demo_new_def] this] show ?thesis .
qed

definition hanging :: "query list" where
  "hanging = [ComplexQuery Op_Insert ''a'' [''k'', ''1''] []]"

definition submit_one :: "actor list" where
  "submit_one = [Main, Main]"

definition hanging_pool :: pool where
  "hanging_pool = the (run ref_sel [] submit_one (runtime_new hanging 2 demo_files))"

theorem no_load_hangs_witness:
  "main hanging_pool = Waiting \<and> main_step [] hanging_pool = None"
proof
  show m: "main hanging_pool = Waiting" by code_simp
  have "run ref_sel [] submit_one (runtime_new hanging 2 demo_files) \<noteq> None" by code_simp
  then have r: "reach ref_sel [] (runtime_new hanging 2 demo_files) hanging_pool"
    unfolding hanging_pool_def by (auto intro: run_reach [OF reach.start])
  from no_load_hangs [OF r] m show "main_step [] hanging_pool = None" by (simp add: hanging_def)
qed

end
