(* ===== verification/Pool_Results.thy ===== *)
theory Pool_Results
  imports Thread_Pool
begin

section \<open>The answers of a run\<close>

text \<open>
  What the main thread of \<open>Thread_Pool\<close> collects: which query a task carries, where the value of a
  promise comes from, which promises can be broken, and what the queries keep of the registry.
\<close>

subsection \<open>Nothing runs before the start\<close>

lemma registerTask_flags [simp]:
  "quitFlag (fst (registerTask q tq)) = quitFlag tq"
  "readyToFetch (fst (registerTask q tq)) = readyToFetch tq"
  by (auto simp: registerTask_def enqueue_def set_tq_def Let_def split_def)

definition before_start :: "pool \<Rightarrow> bool" where
  "before_start p \<longleftrightarrow> \<not> readyToFetch (taskQueue p) \<and> \<not> quitFlag (taskQueue p) \<and> \<not> stop_requested p \<and>
     local_queue p = [] \<and> promises p = [] \<and>
     list_all (\<lambda>ph. ph \<in> {Idle, Fetching [], Merging []}) (threads p)"

definition submitting :: "pool \<Rightarrow> bool" where
  "submitting p \<longleftrightarrow> (case main p of Submitting l \<Rightarrow> True | _ \<Rightarrow> False)"

lemma before_start_worker:
  assumes b: "before_start p" and i: "i < length (threads p)" and w: "work sel (threads p ! i) p = Some (ph, p')"
  shows "before_start (p'\<lparr>threads := (threads p')[i := ph]\<rparr>) \<and> p' = p"
proof -
  have "threads p ! i \<in> {Idle, Fetching [], Merging []}"
    using b i by (auto simp: before_start_def list_all_length)
  with w b have "p' = p \<and> ph \<in> {Idle, Fetching [], Merging []}"
    by (auto simp: before_start_def fetchNext_def take_local_def FETCH_BATCH_SIZE_def)
  then show ?thesis
    using b by (auto simp: before_start_def list_all_iff dest!: set_update_subset_insert [THEN subsetD])
qed

lemma before_start_reach:
  assumes "reach sel broken (runtime_new qs n w) p" and "submitting p"
  shows "before_start p \<and> world_of p = w"
  using assms
proof induction
  case start
  then show ?case by (simp add: before_start_def runtime_new_def task_queue_new_def list_all_iff)
next
  case (step p a p')
  from step.hyps(2) show ?case
  proof (cases rule: act_cases)
    case main
    with step.prems obtain q l where l: "main p = Submitting (q # l)" and p': "p' = submitQuery q (p\<lparr>main := Submitting l\<rparr>)"
      by (auto simp: main_step_def submitting_def startExecution_def split: main_pc.splits list.splits if_splits)
    then have IH: "before_start p \<and> world_of p = w" using step.IH by (simp add: submitting_def)
    let ?q = "prepare q (totalSubmitted p + 1)"
    have "snd (registerTask ?q (taskQueue p)) = None"
      using IH by (auto simp: before_start_def registerTask_def Let_def split: prod.splits)
    with IH show ?thesis by (simp add: p' before_start_def submitQuery_def Let_def split_def)
  next
    case (worker i ph p1)
    have tq: "tq_inv (taskQueue p)" using pool_inv_reach [OF step.hyps(1) pool_inv_new] by (simp add: pool_inv_def)
    have "submitting p" using step.prems work_okI [OF worker(3) tq] worker(4) by (simp add: work_ok_def submitting_def)
    with step.IH before_start_worker [OF _ worker(2,3)] worker(4) show ?thesis by auto
  qed
qed

subsection \<open>Where tasks come from\<close>

text \<open>The task is the query that was submitted under its number.\<close>

definition submitted_as :: "query list \<Rightarrow> task_core \<Rightarrow> bool" where
  "submitted_as qs c \<longleftrightarrow>
     (case c of (s, k, q) \<Rightarrow> 1 \<le> unat s \<and> unat s \<le> length qs \<and> q = qs ! (unat s - 1) \<and> k = queryType q)"

definition in_bag :: "bag \<Rightarrow> task_core multiset" where
  "in_bag b = b_wait b + b_run b"

text \<open>What a step of the bag that posts nothing does: it loses at most loads.\<close>

lemma bag_step_loses:
  assumes "bag_step b b'" and "b_next b' = b_next b"
  shows "\<exists>L. only_loads L \<and> L \<subseteq># in_bag b \<and> in_bag b' \<subseteq># in_bag b \<and> bag_seqs b = bag_seqs b' + image_mset fst L"
  using assms(1)
proof cases
  case post
  with assms(2) show ?thesis by simp
next
  case reject
  with assms(2) show ?thesis by simp
next
  case (take_task W L s)
  then show ?thesis by (intro exI [of _ L]) (simp add: in_bag_def bag_seqs_def)
next
  case (lose W L)
  then show ?thesis by (intro exI [of _ L]) (simp add: in_bag_def bag_seqs_def)
next
  case (answer R s)
  then show ?thesis by (intro exI [of _ "{#}"]) (simp add: in_bag_def bag_seqs_def)
qed

text \<open>
  The invariant: the tasks are submitted queries, the main thread still has the others, and a
  submitted query that is nowhere is a LOAD.
\<close>

definition to_come :: "query list \<Rightarrow> pool \<Rightarrow> bool" where
  "to_come qs p \<longleftrightarrow> unat (totalSubmitted p) \<le> length qs \<and>
     (case main p of Submitting l \<Rightarrow> l = drop (unat (totalSubmitted p)) qs | _ \<Rightarrow> unat (totalSubmitted p) = length qs)"

definition origin_ok :: "query list \<Rightarrow> pool \<Rightarrow> bool" where
  "origin_ok qs p \<longleftrightarrow> to_come qs p \<and> (\<forall>c \<in># in_bag (abs_bag p). submitted_as qs c) \<and>
     (\<forall>i < unat (totalSubmitted p). queryType (qs ! i) = QT_Load \<or> of_nat (Suc i) \<in># bag_seqs (abs_bag p))"

lemma submitted_as_load:
  assumes "submitted_as qs c" and "fst (snd c) = QT_Load" and "fst c = of_nat (Suc i)" and "Suc i < 2 ^ 64"
  shows "queryType (qs ! i) = QT_Load"
proof -
  have "unat (of_nat (Suc i) :: u64) = Suc i" using assms(4) unfolding unat_of_nat by simp
  with assms(1-3) show ?thesis by (cases c) (auto simp: submitted_as_def)
qed

lemma origin_ok_loses:
  assumes ok: "origin_ok qs p" and b: "bag_step (abs_bag p) (abs_bag p')"
    and same: "totalSubmitted p' = totalSubmitted p" and come: "to_come qs p'" and len: "length qs < 2 ^ 64"
  shows "origin_ok qs p'"
proof -
  have "b_next (abs_bag p') = b_next (abs_bag p)" using same by (simp add: abs_bag_def)
  from bag_step_loses [OF b this] obtain L where L: "only_loads L" "L \<subseteq># in_bag (abs_bag p)"
    and sub: "in_bag (abs_bag p') \<subseteq># in_bag (abs_bag p)"
    and seqs: "bag_seqs (abs_bag p) = bag_seqs (abs_bag p') + image_mset fst L" by blast
  have cores: "\<forall>c \<in># in_bag (abs_bag p). submitted_as qs c" using ok by (simp add: origin_ok_def)
  have "queryType (qs ! i) = QT_Load \<or> of_nat (Suc i) \<in># bag_seqs (abs_bag p')" if i: "i < unat (totalSubmitted p)" for i
  proof -
    have lt: "Suc i < 2 ^ 64" using i ok len by (simp add: origin_ok_def to_come_def)
    consider "queryType (qs ! i) = QT_Load" | "of_nat (Suc i) \<in># bag_seqs (abs_bag p')"
      | c where "c \<in># L" "fst c = of_nat (Suc i)"
      using ok i unfolding origin_ok_def seqs set_mset_union set_image_mset by (metis UnE imageE)
    then show ?thesis
    proof cases
      case 3
      with L cores have "submitted_as qs c" "fst (snd c) = QT_Load"
        by (auto simp: only_loads_def dest: mset_subset_eqD)
      from submitted_as_load [OF this 3(2) lt] show ?thesis ..
    qed simp_all
  qed
  then show ?thesis
    using come cores mset_subset_eqD [OF sub] same unfolding origin_ok_def by metis
qed

lemma abs_bag_quiet_main:
  assumes "main_step broken p = Some p'" and "\<nexists>q l. main p = Submitting (q # l)"
  shows "abs_bag p' = abs_bag p" and "promises p' = promises p" and "world_of p' = world_of p"
    and "to_come qs p \<Longrightarrow> to_come qs p'"
  using assms
  by (auto simp: main_step_def abs_bag_def startExecution_def setReady_def pending_def to_come_def
      split: main_pc.splits list.splits if_splits)

lemma submit_origin:
  assumes ok: "origin_ok qs p" and m: "main p = Submitting (q # l)" and nq: "\<not> quitFlag (taskQueue p)"
    and inv: "tq_inv (taskQueue p)" and len: "length qs < 2 ^ 64"
  shows "origin_ok qs (submitQuery q (p\<lparr>main := Submitting l\<rparr>)) \<and>
     promises (submitQuery q (p\<lparr>main := Submitting l\<rparr>)) = promises p"
proof -
  let ?n = "unat (totalSubmitted p)" and ?s = "totalSubmitted p + 1"
  let ?p' = "submitQuery q (p\<lparr>main := Submitting l\<rparr>)"
  have l: "q # l = drop ?n qs" using ok m by (simp add: origin_ok_def to_come_def)
  then have lt: "?n < length qs" by (metis drop_all list.distinct(1) not_le)
  with l have q: "q = qs ! ?n" and l': "l = drop (Suc ?n) qs"
    by (simp_all add: Cons_nth_drop_Suc [symmetric])
  have s: "unat ?s = Suc ?n" using lt len by (simp add: unat_plus_if_size word_size)
  obtain tq r where reg: "registerTask (prepare q ?s) (taskQueue p) = (tq, r)" by fastforce
  have r: "r = None" and pend: "pending tq = add_mset (?s, queryType q, q) (pending (taskQueue p))"
    using registerTask_spec [OF reg inv] nq by (simp_all add: prepare_def pq_core_def)
  have tot: "totalSubmitted ?p' = ?s" and mn: "main ?p' = Submitting l" and pr: "promises ?p' = promises p"
    using reg r by (simp_all add: submitQuery_def Let_def)
  have bag: "in_bag (abs_bag ?p') = add_mset (?s, queryType q, q) (in_bag (abs_bag p))"
    and seqs: "bag_seqs (abs_bag ?p') = add_mset ?s (bag_seqs (abs_bag p))"
    using reg r pend by (simp_all add: submitQuery_def Let_def abs_bag_def in_bag_def bag_seqs_def)
  have "submitted_as qs (?s, queryType q, q)" using lt s q by (simp add: submitted_as_def)
  moreover have "queryType (qs ! i) = QT_Load \<or> of_nat (Suc i) \<in># bag_seqs (abs_bag ?p')" if "i < Suc ?n" for i
  proof (cases "i = ?n")
    case True
    then have "of_nat (Suc i) = ?s" by simp
    then show ?thesis unfolding seqs by simp
  next
    case False
    with that have "i < ?n" by simp
    with ok have "queryType (qs ! i) = QT_Load \<or> of_nat (Suc i) \<in># bag_seqs (abs_bag p)"
      unfolding origin_ok_def by blast
    then show ?thesis unfolding seqs set_mset_add_mset_insert by blast
  qed
  moreover have "to_come qs ?p'" using lt l' unfolding to_come_def tot mn s by simp
  ultimately show ?thesis using ok pr unfolding origin_ok_def tot s bag by simp
qed

lemma origin_ok_reach:
  assumes "reach sel broken (runtime_new qs n w) p" and len: "length qs < 2 ^ 64"
  shows "origin_ok qs p"
  using assms(1)
proof induction
  case start
  have "gather phase_unset (replicate n Idle) = {#}" by (induction n) (simp_all add: gather_def)
  then show ?case
    by (simp add: origin_ok_def to_come_def in_bag_def abs_bag_def runtime_new_def)
next
  case (step p a p')
  have inv: "pool_inv p" by (rule pool_inv_reach [OF step.hyps(1) pool_inv_new])
  then have tq: "tq_inv (taskQueue p)" by (simp add: pool_inv_def)
  note b = abs_bag_act [OF inv step.hyps(2)]
  from step.hyps(2) show ?case
  proof (cases rule: act_cases)
    case main
    show ?thesis
    proof (cases "\<exists>q l. main p = Submitting (q # l)")
      case True
      then obtain q l where l: "main p = Submitting (q # l)" by blast
      with before_start_reach [OF step.hyps(1)] have "\<not> quitFlag (taskQueue p)"
        by (simp add: submitting_def before_start_def)
      from submit_origin [OF step.IH l this tq len] main(2) l show ?thesis by (simp add: main_step_def)
    next
      case False
      from abs_bag_quiet_main [OF main(2) False] step.IH show ?thesis
        unfolding origin_ok_def by (metis abs_bag_def bag.select_convs(1))
    qed
  next
    case (worker i ph p1)
    have same: "totalSubmitted p' = totalSubmitted p" "main p' = main p"
      using work_okI [OF worker(3) tq] worker(4) by (simp_all add: work_ok_def)
    have "to_come qs p'" using step.IH unfolding origin_ok_def to_come_def same by simp
    from origin_ok_loses [OF step.IH b same(1) this len] show ?thesis .
  qed
qed

subsection \<open>Where answers come from\<close>

text \<open>
  The value of a promise is that of the query, executed in a world that the run went through, or
  the null result of a task that was dropped.
\<close>

definition value_of :: "(gkey list \<Rightarrow> nat) \<Rightarrow> string \<Rightarrow> pool \<Rightarrow> query \<Rightarrow> query_result res \<Rightarrow> bool" where
  "value_of sel broken p0 q r \<longleftrightarrow>
     r = Inr NullQueryResult \<or> (\<exists>p. reach sel broken p0 p \<and> r = snd (execute q (world_of p)))"

definition promise_ok :: "(gkey list \<Rightarrow> nat) \<Rightarrow> string \<Rightarrow> pool \<Rightarrow> query list \<Rightarrow> u64 \<times> query_result res \<Rightarrow> bool" where
  "promise_ok sel broken p0 qs a \<longleftrightarrow>
     1 \<le> unat (fst a) \<and> unat (fst a) \<le> length qs \<and> value_of sel broken p0 (qs ! (unat (fst a) - 1)) (snd a)"

text \<open>A callback asks for table names of files and changes no table.\<close>

lemma callback_tables:
  "tables (snd (onCompleted_locked fs c (tq, d))) = tables d"
proof -
  have f1: "tables (snd (updateReadyFiles fs i st)) = tables (snd st)" for fs i st
    by (auto simp: updateReadyFiles_def getFileTableName_def Let_def split_def split: option.split)
  have fold: "tables (snd (fold (updateReadyFiles fs) is st)) = tables (snd st)" for fs "is" st
    by (induction "is" arbitrary: st) (simp_all add: f1)
  have deps: "tables (snd (applyUpdateDeps fs c st)) = tables (snd st)" for fs c st
    using fold by (simp add: applyUpdateDeps_def Let_def split_def)
  have "tables (snd (applyActions fs as c st)) = tables (snd st)" for fs as c st
    by (induction fs as c st rule: applyActions.induct) (simp_all add: deps)
  then show ?thesis by (simp add: onCompleted_locked_def Let_def split_def)
qed

lemma work_answers:
  assumes "work sel ph p = Some (ph', p')"
  shows "promises p' = promises p \<and> tables (db (world_of p')) = tables (db (world_of p)) \<or>
    (\<exists>x. ph = Locked x \<and> promises p' = promises p @ [(x_seq x, snd (run_logic x (world_of p)))] \<and>
       world_of p' = fst (run_logic x (world_of p)))"
proof (cases ph)
  case (Locked x)
  with assms show ?thesis by (auto split: prod.splits)
next
  case (Ran x)
  with assms callback_tables [of "files (world_of p)" "onCompleted x" "taskQueue p" "db (world_of p)"]
  show ?thesis by (auto split: prod.splits)
qed (use assms in \<open>auto simp: take_local_def split: if_splits sum.splits option.splits list.splits\<close>)

lemma running_submitted:
  assumes "origin_ok qs p" and i: "i < length (threads p)" and "threads p ! i = Locked x"
  shows "submitted_as qs (x_core x)"
proof -
  have "mset (phase_unset (threads p ! i)) \<subseteq># gather phase_unset (threads p)" by (rule gather_mem [OF i])
  then have "x \<in># gather phase_unset (threads p)" using assms(3) by simp
  then have "x_core x \<in># in_bag (abs_bag p)" by (simp add: in_bag_def abs_bag_def)
  with assms(1) show ?thesis by (simp add: origin_ok_def)
qed

lemma promises_main:
  assumes r: "reach sel broken (runtime_new qs n w) p" and m: "main_step broken p = Some p'" and len: "length qs < 2 ^ 64"
  shows "promises p' = promises p \<and> world_of p' = world_of p"
proof (cases "\<exists>q l. main p = Submitting (q # l)")
  case True
  then obtain q l where l: "main p = Submitting (q # l)" by blast
  with before_start_reach [OF r] have "\<not> quitFlag (taskQueue p)" by (simp add: submitting_def before_start_def)
  moreover have "tq_inv (taskQueue p)" using pool_inv_reach [OF r pool_inv_new] by (simp add: pool_inv_def)
  ultimately have "promises (submitQuery q (p\<lparr>main := Submitting l\<rparr>)) = promises p"
    using submit_origin [OF origin_ok_reach [OF r len] l _ _ len] by blast
  then show ?thesis using m l by (auto simp: main_step_def submitQuery_def Let_def split: prod.splits)
next
  case False
  from abs_bag_quiet_main [OF m False] show ?thesis by simp
qed

lemma promise_ok_reach:
  assumes "reach sel broken (runtime_new qs n w) p" and len: "length qs < 2 ^ 64"
  shows "list_all (promise_ok sel broken (runtime_new qs n w) qs) (promises p)"
  using assms(1)
proof induction
  case start
  show ?case by (simp add: runtime_new_def)
next
  case (step p a p')
  from step.hyps(2) show ?case
  proof (cases rule: act_cases)
    case main
    from promises_main [OF step.hyps(1) main(2) len] step.IH show ?thesis by simp
  next
    case (worker i ph p1)
    then have pr: "promises p' = promises p1" by simp
    from work_answers [OF worker(3)] consider "promises p1 = promises p"
      | x where "threads p ! i = Locked x" "promises p1 = promises p @ [(x_seq x, snd (run_logic x (world_of p)))]"
      by blast
    then show ?thesis
    proof cases
      case 1
      with pr step.IH show ?thesis by simp
    next
      case 2
      have "submitted_as qs (x_core x)"
        by (rule running_submitted [OF origin_ok_reach [OF step.hyps(1) len] worker(2) 2(1)])
      then have "promise_ok sel broken (runtime_new qs n w) qs (x_seq x, snd (run_logic x (world_of p)))"
        using step.hyps(1) by (auto simp: submitted_as_def x_core_def promise_ok_def value_of_def run_logic_def)
      with pr 2 step.IH show ?thesis by simp
    qed
  qed
qed

subsection \<open>The results are the answers to the queries, in order\<close>

text \<open>
  For any law \<open>V\<close> that holds of the promises: what is collected for the query at \<open>i\<close> comes from its
  promise, or reports a broken promise, which only a LOAD can have.
\<close>

definition reply_by :: "string \<Rightarrow> (u64 \<Rightarrow> query_result res \<Rightarrow> bool) \<Rightarrow> query list \<Rightarrow> nat \<Rightarrow> query_result option \<Rightarrow> bool" where
  "reply_by broken V qs i a \<longleftrightarrow>
     (\<exists>r. V (of_nat (Suc i)) r \<and> result_of broken (Ready r) = Inr a) \<or>
     queryType (qs ! i) = QT_Load \<and> result_of broken Broken = Inr a"

lemma future_by:
  assumes r: "reach sel broken (runtime_new qs n w) p" and len: "length qs < 2 ^ 64"
    and i: "i < length qs" "unat (totalSubmitted p) = length qs"
    and "future_of p (of_nat (Suc i)) \<noteq> Not_ready" and "result_of broken (future_of p (of_nat (Suc i))) = Inr a"
    and V: "\<And>s v. (s, v) \<in> set (promises p) \<Longrightarrow> V s v"
  shows "reply_by broken V qs i a"
proof -
  let ?s = "of_nat (Suc i) :: u64"
  show ?thesis
  proof (cases "map_of (promises p) ?s")
    case None
    with assms(5,6) have no: "?s \<notin> set (map x_seq (unset_tasks p) @ queued_seqs (taskQueue p))"
      and b: "result_of broken Broken = Inr a" by (auto simp: future_of_def split: if_splits)
    have "?s \<notin># image_mset fst (pending (taskQueue p))" using no by (simp add: pending_queued del: set_image_mset)
    moreover have "?s \<notin> set (map fst (promises p))" using None by (simp add: map_of_eq_None_iff)
    moreover have "?s \<notin> x_seq ` (set (local_queue p) \<union> set_mset (gather phase_unset (threads p)))"
      using no by (auto simp: unset_tasks_def gather_def)
    ultimately have "?s \<notin># bag_seqs (abs_bag p)"
      by (auto simp: bag_seqs_def abs_bag_def multiset.map_comp o_def)
    with origin_ok_reach [OF r len] i have "queryType (qs ! i) = QT_Load" unfolding origin_ok_def by metis
    with b show ?thesis by (simp add: reply_by_def)
  next
    case (Some v)
    then have "V ?s v" using V map_of_SomeD by metis
    moreover have "future_of p ?s = Ready v" using Some by (simp add: future_of_def)
    ultimately show ?thesis using assms(6) unfolding reply_by_def by metis
  qed
qed

lemma collect_by:
  assumes r: "reach sel broken (runtime_new qs n w) p" and len: "length qs < 2 ^ 64" and m: "main p = Waiting"
    and rdy: "list_all (\<lambda>n. future_of p n \<noteq> Not_ready) (indices p)" and res: "getResultsInOrder broken p = Inr as"
    and V: "\<And>s v. (s, v) \<in> set (promises p) \<Longrightarrow> V s v"
  shows "length as = length qs \<and> (\<forall>i < length qs. reply_by broken V qs i (as ! i))"
proof -
  have t: "unat (totalSubmitted p) = length qs"
    using origin_ok_reach [OF r len] m by (simp add: origin_ok_def to_come_def)
  then have ix: "length (indices p) = length qs" "\<And>i. i < length qs \<Longrightarrow> indices p ! i = of_nat (Suc i)"
    by (simp_all add: indices_def del: upt_Suc)
  note m = res_map_Inr [OF res [unfolded getResultsInOrder_def]]
  have "reply_by broken V qs i (as ! i)" if i: "i < length qs" for i
  proof (rule future_by [OF r len i t])
    show "result_of broken (future_of p (of_nat (Suc i))) = Inr (as ! i)"
      using m ix(1) i unfolding ix(2) [OF i, symmetric] by simp
    show "future_of p (of_nat (Suc i)) \<noteq> Not_ready"
      using rdy ix(1) i unfolding ix(2) [OF i, symmetric] list_all_length by simp
  qed (rule V)
  with m ix(1) show ?thesis by simp
qed

definition collected :: "pool \<Rightarrow> query_result option list res option" where
  "collected p = (case main p of Collected r \<Rightarrow> Some r | Joining r \<Rightarrow> Some r | Finished r \<Rightarrow> Some r | _ \<Rightarrow> None)"

text \<open>What the main thread collects is what it finds when no future makes it wait.\<close>

lemma collected_from:
  assumes "reach sel broken (runtime_new qs n w) p" and "collected p = Some rs"
  shows "\<exists>p0. reach sel broken (runtime_new qs n w) p0 \<and> reach sel broken p0 p \<and> main p0 = Waiting \<and>
     list_all (\<lambda>n. future_of p0 n \<noteq> Not_ready) (indices p0) \<and> rs = getResultsInOrder broken p0"
  using assms
proof induction
  case start
  then show ?case by (simp add: runtime_new_def collected_def)
next
  case (step p a p')
  from step.hyps(2) show ?case
  proof (cases rule: act_cases)
    case main
    show ?thesis
    proof (cases "main p = Waiting")
      case True
      moreover have "reach sel broken p p'" by (rule reach.step [OF reach.start step.hyps(2)])
      ultimately show ?thesis using main(2) step.prems step.hyps(1)
        by (intro exI [of _ p]) (auto simp: main_step_def collected_def split: if_splits)
    next
      case False
      with main(2) step.prems have "collected p = Some rs"
        by (auto simp: main_step_def collected_def submitQuery_def startExecution_def Let_def
            split: main_pc.splits list.splits prod.splits if_splits)
      with step.IH step.hyps(2) show ?thesis by (blast intro: reach.step)
    qed
  next
    case (worker i ph p1)
    have "tq_inv (taskQueue p)" using pool_inv_reach [OF step.hyps(1) pool_inv_new] by (simp add: pool_inv_def)
    from work_okI [OF worker(3) this] worker(4) step.prems have "collected p = Some rs"
      by (simp add: work_ok_def collected_def)
    with step.IH step.hyps(2) show ?thesis by (blast intro: reach.step)
  qed
qed

lemma collected_by:
  assumes "reach sel broken (runtime_new qs n w) p" and "length qs < 2 ^ 64" and "collected p = Some (Inr as)"
    and V: "\<And>p0 s v. reach sel broken (runtime_new qs n w) p0 \<Longrightarrow> reach sel broken p0 p \<Longrightarrow> (s, v) \<in> set (promises p0) \<Longrightarrow> V s v"
  shows "length as = length qs \<and> (\<forall>i < length qs. reply_by broken V qs i (as ! i))"
proof -
  from collected_from [OF assms(1,3)] obtain p0 where p0: "reach sel broken (runtime_new qs n w) p0" "reach sel broken p0 p"
    "main p0 = Waiting" "list_all (\<lambda>n. future_of p0 n \<noteq> Not_ready) (indices p0)" "getResultsInOrder broken p0 = Inr as" by auto
  from collect_by [OF p0(1) assms(2) p0(3-5) V [OF p0(1,2)]] show ?thesis .
qed

subsection \<open>The registry\<close>

definition is_data :: "query \<Rightarrow> bool" where
  "is_data q = (case q of ComplexQuery oper t ops cs \<Rightarrow> True | _ \<Rightarrow> False)"

lemma db_inv_tables: "tables d' = tables d \<Longrightarrow> db_inv d \<Longrightarrow> db_inv d'"
  by (simp add: db_inv_def)

lemma data_value:
  assumes "db_inv (db w)" and "is_data q" and "\<not> renames_keys q"
  shows "\<exists>r. snd (execute q w) = Inr r"
proof -
  obtain oper t ops cs where q: "q = ComplexQuery oper t ops cs"
    using assms(2) by (auto simp: is_data_def split: query.splits)
  have "\<exists>r. snd (execute_complex oper t ops cs (db w)) = Inr r"
    using assms(3) by (intro execute_returns [OF assms(1)]) (auto simp: q)
  then show ?thesis by (simp add: q Let_def split_def)
qed

lemma registry_reach:
  assumes "reach sel broken (runtime_new qs n w) p" and len: "length qs < 2 ^ 64" and "db_inv (db w)"
    and keys: "list_all (\<lambda>q. \<not> renames_keys q) qs"
  shows "db_inv (db (world_of p))"
  using assms(1)
proof induction
  case start
  show ?case using assms(3) by (simp add: runtime_new_def)
next
  case (step p a p')
  from step.hyps(2) show ?case
  proof (cases rule: act_cases)
    case main
    from promises_main [OF step.hyps(1) main(2) len] step.IH show ?thesis by simp
  next
    case (worker i ph p1)
    from work_answers [OF worker(3)] consider "tables (db (world_of p1)) = tables (db (world_of p))"
      | x where "threads p ! i = Locked x" "world_of p1 = fst (run_logic x (world_of p))"
      by blast
    then have "db_inv (db (world_of p1))"
    proof cases
      case 1
      with step.IH show ?thesis by (rule db_inv_tables [rotated])
    next
      case 2
      have "submitted_as qs (x_core x)"
        by (rule running_submitted [OF origin_ok_reach [OF step.hyps(1) len] worker(2) 2(1)])
      then have "x_query x \<in> set qs" by (auto simp: submitted_as_def x_core_def)
      with keys have "\<not> renames_keys (x_query x)" by (simp add: list_all_iff)
      with execute_keeps [OF step.IH] step.IH 2 show ?thesis by (simp add: run_logic_def)
    qed
    with worker(4) show ?thesis by simp
  qed
qed

text \<open>
  C17: Whatever the interleaving, the registry is in order at every moment of a run whose queries
  update no keys, and the promise of a data query holds a result, never an exception.
\<close>

theorem pool_keeps_registry:
  assumes "reach sel broken (runtime_new qs n w) p" and "length qs < 2 ^ 64" and "db_inv (db w)"
    and "list_all (\<lambda>q. \<not> renames_keys q) qs"
  shows "db_inv (db (world_of p)) \<and>
     list_all (\<lambda>(s, r). \<not> is_data (qs ! (unat s - 1)) \<or> (\<exists>x. r = Inr x)) (promises p)"
proof -
  have v: "\<exists>x. r = Inr x" if "value_of sel broken (runtime_new qs n w) q r" "is_data q" "q \<in> set qs" for q r
    using that(1) data_value [OF registry_reach [OF _ assms(2-4)] that(2)] that(3) assms(4)
    by (auto simp: value_of_def list_all_iff)
  have "\<exists>x. r = Inr x" if "(s, r) \<in> set (promises p)" "is_data (qs ! (unat s - 1))" for s r
    using promise_ok_reach [OF assms(1,2)] that
    by (intro v [of "qs ! (unat s - 1)"]) (auto simp: list_all_iff promise_ok_def)
  then show ?thesis using registry_reach [OF assms] by (auto simp: list_all_iff)
qed

subsection \<open>Witnesses\<close>

text \<open>The QUIT is executed too; the main thread collects its three results.\<close>

definition to_end :: "actor list" where
  "to_end = to_quit @ replicate 7 (Worker 0) @ [Main]"

definition end_pool :: pool where
  "end_pool = the (run ref_sel [] to_end demo_new)"

lemma end_reach: "reach ref_sel [] demo_new end_pool"
proof -
  have "run ref_sel [] to_end demo_new \<noteq> None" by code_simp
  then show ?thesis unfolding end_pool_def by (auto intro: run_reach [OF reach.start])
qed

theorem pool_keeps_registry_witness:
  "db_inv (db (world_of end_pool)) \<and> map tableName (map snd (tables (db (world_of end_pool)))) = [''a'']"
proof
  show "db_inv (db (world_of end_pool))"
    using pool_keeps_registry [OF end_reach [unfolded demo_new_def]]
    by (simp add: demo_queries_def demo_files_def db_new_def db_inv_def)
  show "map tableName (map snd (tables (db (world_of end_pool)))) = [''a'']" by code_simp
qed

end
