(* ===== verification/Query_Exec.thy ===== *)
theory Query_Exec
  imports Query_Parser Pool_Results
begin

section \<open>The query executor\<close>

text \<open>
  The model of src/src/runtime/QueryExecutor.cpp and src/src/utils/FallbackAnalyzer.cpp: the
  queries of the input and of the files it listens to are collected, the number of threads
  is decided, and the queries are executed one after the other or by the worker threads.

  An input stream is the text that is left of it. The error stream is not modelled.
\<close>

subsection \<open>Collecting queries\<close>

fun extract_loop :: "string \<Rightarrow> string \<Rightarrow> (string \<times> string) res" where
  "extract_loop buf [] = Inl (Ios_failure ''End of input'')"
| "extract_loop buf (c # cs) = (if c = CHR '';'' then Inr (buf, cs) else extract_loop (buf @ [c]) cs)"

definition extractQueryString :: "string \<Rightarrow> (string \<times> string) res" where
  "extractQueryString s = extract_loop [] s"

lemma extract_loop_shorter: "extract_loop buf s = Inr (q, rest) \<Longrightarrow> length rest < length s"
  by (induction buf s rule: extract_loop.induct) (auto split: if_splits)

record file_process_result =
  queries :: "query list"
  listenFiles :: "string list"

fun listen_file :: "query \<Rightarrow> string list" where
  "listen_file (ListenQuery f) = [f]"
| "listen_file _ = []"

text \<open>
  The loop shared by \<open>collectQueriesFromStream\<close> and \<open>processFile\<close>: it ends at the end of the input,
  and a text that is no query is reported and skipped.
\<close>

function collect :: "builder list \<Rightarrow> string \<Rightarrow> world \<Rightarrow> (file_process_result \<times> world) res" where
  "collect parser s w =
     (case extractQueryString s of
        Inl e \<Rightarrow> Inr (\<lparr>queries = [], listenFiles = []\<rparr>, w)
      | Inr (q, rest) \<Rightarrow>
          (case parseQuery parser q w of
             (w', Inl Undefined_behaviour) \<Rightarrow> Inl Undefined_behaviour
           | (w', Inl e) \<Rightarrow> collect parser rest w'
           | (w', Inr query) \<Rightarrow>
               res_bind (collect parser rest w') (\<lambda>(r, w'').
                 Inr (\<lparr>queries = query # queries r, listenFiles = listen_file query @ listenFiles r\<rparr>, w''))))"
  by pat_completeness auto
termination
  by (relation "measure (\<lambda>(parser, s, w). length s)")
    (auto simp: extractQueryString_def dest!: sym [of _ "extract_loop _ _"] dest: extract_loop_shorter)

declare collect.simps [simp del]

definition processFile :: "string \<Rightarrow> builder list \<Rightarrow> world \<Rightarrow> (file_process_result \<times> world) res" where
  "processFile filename parser w =
     (case map_of (files w) filename of
        None \<Rightarrow> Inr (\<lparr>queries = [], listenFiles = []\<rparr>, w)
      | Some text \<Rightarrow> collect parser text w)"

text \<open>The loop over the queue of files may run forever: a file may listen to itself.\<close>

partial_function (option) file_loop ::
  "builder list \<Rightarrow> query list \<Rightarrow> string list \<Rightarrow> world \<Rightarrow> (query list \<times> world) res option" where
  "file_loop parser allQueries fileQueue w =
     (case fileQueue of
        [] \<Rightarrow> Some (Inr (allQueries, w))
      | filename # rest \<Rightarrow>
          (case processFile filename parser w of
             Inl e \<Rightarrow> Some (Inl e)
           | Inr (r, w') \<Rightarrow> file_loop parser (allQueries @ queries r) (rest @ listenFiles r) w'))"

definition collect_all :: "builder list \<Rightarrow> string \<Rightarrow> world \<Rightarrow> (query list \<times> world) res option" where
  "collect_all parser input w =
     (case collect parser input w of
        Inl e \<Rightarrow> Some (Inl e)
      | Inr (r, w') \<Rightarrow> file_loop parser (queries r) (listenFiles r) w')"

subsection \<open>The number of threads\<close>

record fallback_thresholds =
  minQueries :: nat
  minTables :: nat

definition default_thresholds :: fallback_thresholds where
  "default_thresholds = \<lparr>minQueries = 1000, minTables = 3\<rparr>"

record workload_stats =
  queryCount :: nat
  tableCount :: nat

fun estimateQueryComplexity :: "query \<Rightarrow> nat" where
  "estimateQueryComplexity q =
     (let t = queryType q
      in if t \<in> {QT_Insert, QT_Select, QT_Delete, QT_Update} then 1
         else if t \<in> {QT_Count, QT_Sum, QT_Min, QT_Max, QT_Add, QT_Sub, QT_Duplicate, QT_Swap} then 2
         else if t \<in> {QT_Truncate, QT_Drop, QT_CopyTable} then 5
         else if t \<in> {QT_Dump, QT_Load} then 10
         else 0)"

definition analyzeWorkload :: "query list \<Rightarrow> workload_stats" where
  "analyzeWorkload qs =
     \<lparr>queryCount = length qs,
      tableCount = length (fold (\<lambda>q tbls. if query_table q = [] then tbls else List.insert (query_table q) tbls) qs [])\<rparr>"

definition shouldFallback :: "nat \<Rightarrow> workload_stats \<Rightarrow> fallback_thresholds \<Rightarrow> bool" where
  "shouldFallback threadCount stats th \<longleftrightarrow>
     (if queryCount stats < minQueries th then True
      else if tableCount stats < minTables th then True else False)"

definition effective_threads :: "nat \<Rightarrow> query list \<Rightarrow> nat" where
  "effective_threads numThreads qs =
     (if numThreads > 1 then
        (if shouldFallback numThreads (analyzeWorkload qs) default_thresholds then 1 else numThreads)
      else numThreads)"

subsection \<open>Execution\<close>

definition outputQueryResult :: "nat \<Rightarrow> query_result \<Rightarrow> world \<Rightarrow> world" where
  "outputQueryResult queryNum r w =
     (let w1 = print_out (string_of_nat queryNum @ [CHR 0x0A]) w
      in if success r then if display r then print_out (result_output r) w1 else w1 else w1)"

fun run_single :: "nat \<Rightarrow> query list \<Rightarrow> world \<Rightarrow> world \<times> unit res" where
  "run_single counter [] w = (w, Inr ())"
| "run_single counter (q # qs) w =
     (case execute q w of
        (w', Inl e) \<Rightarrow> (w', Inl e)
      | (w', Inr r) \<Rightarrow> run_single (Suc counter) qs (outputQueryResult (Suc counter) r w'))"

text \<open>A null result stands for QUIT.\<close>

fun output_results :: "nat \<Rightarrow> query_result option list \<Rightarrow> world \<Rightarrow> world \<times> unit res" where
  "output_results i [] w = (w, Inr ())"
| "output_results i (None # rs) w = (w, Inl QuitException)"
| "output_results i (Some r # rs) w = output_results (Suc i) rs (outputQueryResult (Suc i) r w)"

text \<open>
  With worker threads the outcome depends on the schedule: any reachable state of the pool in
  which the main thread has collected the results.
\<close>

inductive executeQueries ::
  "(gkey list \<Rightarrow> nat) \<Rightarrow> string \<Rightarrow> builder list \<Rightarrow> nat \<Rightarrow> string \<Rightarrow> world \<Rightarrow> world \<times> unit res \<Rightarrow> bool"
  for sel :: "gkey list \<Rightarrow> nat" and broken :: string and parser :: "builder list" and numThreads :: nat
  where
    undefined_text: "executeQueries sel broken parser numThreads input w (w, Inl e)"
      if "collect_all parser input w = Some (Inl e)"
  | single: "executeQueries sel broken parser numThreads input w (run_single 0 qs w')"
      if "collect_all parser input w = Some (Inr (qs, w'))" and "effective_threads numThreads qs = 1"
  | multi: "executeQueries sel broken parser numThreads input w (output_results 0 rs (world_of p))"
      if "collect_all parser input w = Some (Inr (qs, w'))" and "effective_threads numThreads qs \<noteq> 1"
      and "reach sel broken (runtime_new qs (effective_threads numThreads qs) w') p"
      and "main p = Collected (Inr rs)"

subsection \<open>Statements\<close>

text \<open>The reference: cut the text at every semicolon; what follows the last one does not count.\<close>

fun split_text :: "string \<Rightarrow> string list" where
  "split_text [] = [[]]"
| "split_text (c # cs) =
     (if c = CHR '';'' then [] # split_text cs
      else case split_text cs of [] \<Rightarrow> [[c]] | s # ss \<Rightarrow> (c # s) # ss)"

definition statements :: "string \<Rightarrow> string list" where
  "statements s = butlast (split_text s)"

fun parse_all :: "builder list \<Rightarrow> string list \<Rightarrow> world \<Rightarrow> (query list \<times> world) res" where
  "parse_all parser [] w = Inr ([], w)"
| "parse_all parser (s # ss) w =
     (case parseQuery parser s w of
        (w', Inl Undefined_behaviour) \<Rightarrow> Inl Undefined_behaviour
      | (w', Inl e) \<Rightarrow> parse_all parser ss w'
      | (w', Inr q) \<Rightarrow> res_bind (parse_all parser ss w') (\<lambda>(qs, w''). Inr (q # qs, w'')))"

lemma split_text_ne [simp]: "split_text s \<noteq> []"
  by (induction s) (auto split: list.split)

lemma extract_split:
  "extract_loop buf s =
     (case split_text s of
        [] \<Rightarrow> undefined
      | [_] \<Rightarrow> Inl (Ios_failure ''End of input'')
      | q # rest \<Rightarrow> Inr (buf @ q, drop (Suc (length q)) s)) \<and>
   (\<forall>q r rest. split_text s = q # r # rest \<longrightarrow> split_text (drop (Suc (length q)) s) = r # rest)"
proof (induction buf s rule: extract_loop.induct)
  case (1 buf)
  then show ?case by simp
next
  case (2 buf c cs)
  show ?case
  proof (cases "c = CHR '';''")
    case True
    then show ?thesis by (cases "split_text cs") simp_all
  next
    case False
    obtain q l where q: "split_text cs = q # l" by (cases "split_text cs") simp_all
    with False "2.IH" [OF False] show ?thesis by (cases l) simp_all
  qed
qed

lemma extract_statements:
  "(case extractQueryString s of
      Inl e \<Rightarrow> statements s = []
    | Inr (q, rest) \<Rightarrow> statements s = q # statements rest)"
proof -
  obtain q l where q: "split_text s = q # l" by (cases "split_text s") simp_all
  show ?thesis
  proof (cases l)
    case Nil
    with q extract_split [of "[]" s] show ?thesis by (simp add: extractQueryString_def statements_def)
  next
    case (Cons r rest)
    with q extract_split [of "[]" s] show ?thesis by (simp add: extractQueryString_def statements_def)
  qed
qed

lemma collect_parse_all:
  "collect parser s w = res_bind (parse_all parser (statements s) w) (\<lambda>(qs, w').
     Inr (\<lparr>queries = qs, listenFiles = concat (map listen_file qs)\<rparr>, w'))"
proof (induction parser s w rule: collect.induct)
  case (1 parser s w)
  show ?case
  proof (cases "extractQueryString s")
    case (Inl e)
    with extract_statements [of s] show ?thesis by (subst collect.simps) simp
  next
    case (Inr p)
    obtain q rest where p: "p = (q, rest)" by (cases p)
    with Inr extract_statements [of s] have st: "statements s = q # statements rest" by simp
    obtain w' r where pq: "parseQuery parser q w = (w', r)" by fastforce
    show ?thesis
    proof (cases r)
      case r: (Inl e)
      show ?thesis
      proof (cases "e = Undefined_behaviour")
        case True
        with Inr p pq r st show ?thesis by (subst collect.simps) simp
      next
        case False
        with Inr p pq r have "collect parser s w = collect parser rest w'"
          by (subst collect.simps) (cases e, simp_all)
        moreover have "parse_all parser (statements s) w = parse_all parser (statements rest) w'"
          using False pq r st by (cases e) simp_all
        moreover have "collect parser rest w' = res_bind (parse_all parser (statements rest) w') (\<lambda>(qs, w').
             Inr (\<lparr>queries = qs, listenFiles = concat (map listen_file qs)\<rparr>, w'))"
          using "1.IH" Inr p pq r False by (cases e) simp_all
        ultimately show ?thesis by simp
      qed
    next
      case r: (Inr query)
      have "collect parser s w = res_bind (collect parser rest w') (\<lambda>(r, w'').
                 Inr (\<lparr>queries = query # queries r, listenFiles = listen_file query @ listenFiles r\<rparr>, w''))"
        using Inr p pq r by (subst collect.simps) simp
      moreover have "collect parser rest w' = res_bind (parse_all parser (statements rest) w') (\<lambda>(qs, w').
             Inr (\<lparr>queries = qs, listenFiles = concat (map listen_file qs)\<rparr>, w'))"
        using "1.IH" Inr p pq r by simp
      ultimately show ?thesis
        using pq r st by (cases "parse_all parser (statements rest) w'") (auto simp: split_def)
    qed
  qed
qed

text \<open>
  C22: Reading a stream query by query collects what parsing its statements one after the other
  gives: the statements end at the semicolons, one that is no query is skipped, and text after
  the last semicolon is ignored. The files to listen to are those of the LISTEN queries, in order.
\<close>

theorem collect_statements:
  "collect parser s w = res_bind (parse_all parser (statements s) w) (\<lambda>(qs, w').
     Inr (\<lparr>queries = qs, listenFiles = concat (map listen_file qs)\<rparr>, w'))"
  by (rule collect_parse_all)

subsection \<open>Printing a session\<close>

text \<open>A data query as its operation, table, operands and conditions; its text ends with a semicolon.\<close>

type_synonym data_query = "complex_op \<times> string \<times> string list \<times> (string \<times> string \<times> string) list"

definition words_of :: "data_query \<Rightarrow> string list" where
  "words_of = (\<lambda>(oper, tn, ops, cs). tn # ops @ concat (map (\<lambda>c. [fst c, fst (snd c), snd (snd c)]) cs))"

definition printable :: "data_query \<Rightarrow> bool" where
  "printable q \<longleftrightarrow> list_all (\<lambda>w. is_word w \<and> CHR '';'' \<notin> set w) (words_of q) \<and> '')'' \<notin> set (fst (snd (snd q)))"

definition text_of :: "data_query \<Rightarrow> string" where
  "text_of = (\<lambda>(oper, tn, ops, cs). unwords (complex_tokens oper tn ops cs) @ '';'')"

definition query_of :: "data_query \<Rightarrow> query" where
  "query_of = (\<lambda>(oper, tn, ops, cs). ComplexQuery oper tn ops (make_conds cs))"

lemma statements_cons: "CHR '';'' \<notin> set a \<Longrightarrow> statements (a @ CHR '';'' # rest) = a # statements rest"
proof -
  assume n: "CHR '';'' \<notin> set a"
  then have "split_text (a @ CHR '';'' # rest) = a # split_text rest" by (induction a) auto
  then show ?thesis by (simp add: statements_def)
qed

lemma unwords_no_semicolon:
  "list_all (\<lambda>w. CHR '';'' \<notin> set w) ws \<Longrightarrow> CHR '';'' \<notin> set (unwords ws)"
  by (auto simp: unwords_def list_all_iff)

lemma printable_tokens:
  assumes "printable (oper, tn, ops, cs)"
  shows "list_all is_word ops" "is_word tn" "list_all (\<lambda>(f, o', v). is_word f \<and> is_word o' \<and> is_word v) cs"
    "'')'' \<notin> set ops" "CHR '';'' \<notin> set (unwords (complex_tokens oper tn ops cs))"
proof -
  from assms show "list_all is_word ops" "is_word tn" "'')'' \<notin> set ops"
    "list_all (\<lambda>(f, o', v). is_word f \<and> is_word o' \<and> is_word v) cs"
    by (auto simp: printable_def words_of_def list_all_iff) fastforce+
  have name: "CHR '';'' \<notin> set (complex_name oper)" by (cases oper) (simp_all add: complex_name_def)
  have "list_all (\<lambda>w. CHR '';'' \<notin> set w) (complex_tokens oper tn ops cs)"
    using assms name by (auto simp: printable_def words_of_def complex_tokens_def cond_tokens_def list_all_iff) fastforce+
  then show "CHR '';'' \<notin> set (unwords (complex_tokens oper tn ops cs))" by (rule unwords_no_semicolon)
qed

lemma parse_all_print:
  "list_all printable ds \<Longrightarrow> parse_all main_parser (statements (concat (map text_of ds))) w = Inr (map query_of ds, w)"
proof (induction ds)
  case Nil
  then show ?case by (simp add: statements_def)
next
  case (Cons d ds)
  obtain oper tn ops cs where d: "d = (oper, tn, ops, cs)" by (cases d)
  with Cons.prems have "printable (oper, tn, ops, cs)" by simp
  note tok = printable_tokens [OF this]
  from statements_cons [OF tok(5)] parse_print [OF tok(1-4)] Cons show ?case
    by (simp add: d text_of_def query_of_def)
qed

text \<open>
  C21: A session of data queries that is printed as words and semicolons is collected as the same
  queries in the same order, with no file to listen to and no effect on the world.
\<close>

theorem collect_print:
  assumes "list_all printable ds"
  shows "collect_all main_parser (concat (map text_of ds)) w = Some (Inr (map query_of ds, w))"
proof -
  have none: "concat (map listen_file (map query_of ds)) = []" by (induction ds) (auto simp: query_of_def)
  have "collect main_parser (concat (map text_of ds)) w =
      Inr (\<lparr>queries = map query_of ds, listenFiles = concat (map listen_file (map query_of ds))\<rparr>, w)"
    using parse_all_print [OF assms] by (simp add: collect_parse_all)
  then show ?thesis unfolding none by (simp add: collect_all_def file_loop.simps)
qed

theorem collect_print_witness:
  "collect_all main_parser (concat (map text_of [(Op_Sum, ''t'', [''c''], []), (Op_Insert, ''t'', [''k'', ''1''], [])])) demo_world =
     Some (Inr (map query_of [(Op_Sum, ''t'', [''c''], []), (Op_Insert, ''t'', [''k'', ''1''], [])], demo_world))"
  by (rule collect_print) (simp add: printable_def words_of_def is_word_def is_space_def)

subsection \<open>Listening to files\<close>

text \<open>The files a text listens to: the LISTEN statements are decided by the first builder.\<close>

definition listened :: "string \<Rightarrow> string list" where
  "listened s = (case debug_extract (tokens_of s) of Some q \<Rightarrow> listen_file q | None \<Rightarrow> [])"

definition listens_in :: "string \<Rightarrow> string list" where
  "listens_in s = concat (map listened (statements s))"

lemma listen_file_manage: "manage_extract ts w = Some (w', q) \<Longrightarrow> listen_file q = []"
  by (auto simp: manage_extract_def Let_def split: list.splits if_splits prod.splits)

lemma listen_file_complex: "complex_extract ts = Inr (Some q) \<Longrightarrow> listen_file q = []"
  by (auto simp: complex_extract_def split: sum.splits exn.splits prod.splits option.splits)

lemma parse_listened:
  assumes "parseQuery main_parser s w = (w', r)"
  shows "(case r of Inl e \<Rightarrow> listened s = [] | Inr q \<Rightarrow> listen_file q = listened s)"
proof (cases "tokens_of s")
  case Nil
  with assms show ?thesis
    by (auto simp: parseQuery_def main_parser_def registerQueryBuilder_def tokenizeQueryString_def listened_def
        debug_extract_def)
next
  case (Cons t ts)
  then have p: "parseQuery main_parser s w =
      tryExtractQuery [DebugQueryBuilder, ManageTableQueryBuilder, ComplexQueryBuilder] (tokenizeQueryString s) w"
    by (simp add: parseQuery_def main_parser_def registerQueryBuilder_def tokenizeQueryString_def)
  show ?thesis
  proof (cases "debug_extract (tokens_of s)")
    case (Some q)
    with p assms show ?thesis by (auto simp: tokenizeQueryString_def listened_def)
  next
    case None
    with p assms listen_file_manage [of "tokens_of s" w] listen_file_complex [of "tokens_of s"] show ?thesis
      by (auto simp: tokenizeQueryString_def listened_def split: option.splits sum.splits)
  qed
qed

lemma parse_files: "parseQuery bs s w = (w', r) \<Longrightarrow> files w' = files w"
  using parse_frame by blast

lemma parse_all_listened:
  "parse_all main_parser ss w = Inr (qs, w') \<Longrightarrow> concat (map listen_file qs) = concat (map listened ss) \<and> files w' = files w"
proof (induction ss arbitrary: w qs)
  case Nil
  then show ?case by simp
next
  case (Cons s ss)
  obtain w1 r where p: "parseQuery main_parser s w = (w1, r)" by fastforce
  note l = parse_listened [OF p] and f = parse_files [OF p]
  show ?case
  proof (cases r)
    case (Inl e)
    with Cons.prems p have "parse_all main_parser ss w1 = Inr (qs, w')" by (cases e) simp_all
    from Cons.IH [OF this] l f Inl show ?thesis by simp
  next
    case (Inr q)
    with Cons.prems p obtain qs' where "parse_all main_parser ss w1 = Inr (qs', w')" "qs = q # qs'"
      by (auto simp: res_simps)
    with Cons.IH l f Inr show ?thesis by simp
  qed
qed

text \<open>Nothing in a text leaves the defined behaviour.\<close>

definition defined_text :: "string \<Rightarrow> bool" where
  "defined_text s \<longleftrightarrow> list_all (\<lambda>q. \<not> (length (tokens_of q) = 2 \<and> tokens_of q ! 1 = ''('')) (statements s)"

lemma parse_all_defined:
  "list_all (\<lambda>q. \<not> (length (tokens_of q) = 2 \<and> tokens_of q ! 1 = ''('')) ss \<Longrightarrow> \<exists>r. parse_all main_parser ss w = Inr r"
proof (induction ss arbitrary: w)
  case Nil
  then show ?case by simp
next
  case (Cons s ss)
  obtain w1 r where p: "parseQuery main_parser s w = (w1, r)" by fastforce
  have "r \<noteq> Inl Undefined_behaviour"
    using parse_undefined [of s w] p Cons.prems by (auto simp: nth_Cons')
  moreover obtain r' where "parse_all main_parser ss w1 = Inr r'" using Cons by fastforce
  ultimately show ?case
    using p by (cases r; cases "projl r"; cases r') (auto simp: split_def)
qed

lemma processFile_listens:
  "processFile f main_parser w = Inr (r, w') \<Longrightarrow> map_of (files w) f = Some s \<Longrightarrow>
   listenFiles r = listens_in s \<and> files w' = files w"
  by (auto simp: processFile_def collect_parse_all res_simps listens_in_def dest: parse_all_listened)

lemma processFile_missing:
  "map_of (files w) f = None \<Longrightarrow> processFile f main_parser w = Inr (\<lparr>queries = [], listenFiles = []\<rparr>, w)"
  by (simp add: processFile_def)

lemma processFile_defined:
  assumes "map_of (files w) f = Some s" and "defined_text s"
  obtains r w' where "processFile f main_parser w = Inr (r, w')"
proof -
  from parse_all_defined [OF assms(2) [unfolded defined_text_def], of w] obtain qs w' where
    "parse_all main_parser (statements s) w = Inr (qs, w')" by fastforce
  with that assms(1) show thesis by (simp add: processFile_def collect_parse_all)
qed

text \<open>Files that only listen to files of a smaller rank: the queue of files runs empty.\<close>

definition ranked :: "files \<Rightarrow> (string \<Rightarrow> nat) \<Rightarrow> bool" where
  "ranked fs rank \<longleftrightarrow> list_all (\<lambda>(f, s). list_all (\<lambda>g. rank g < rank f) (listens_in s)) fs"

lemma ranked_listens:
  assumes "ranked (files w) rank" and "processFile f main_parser w = Inr (r, w')"
  shows "list_all (\<lambda>g. rank g < rank f) (listenFiles r) \<and> files w' = files w"
proof (cases "map_of (files w) f")
  case None
  with processFile_missing assms(2) show ?thesis by auto
next
  case (Some s)
  then have "(f, s) \<in> set (files w)" by (rule map_of_SomeD)
  with assms(1) processFile_listens [OF assms(2) Some] show ?thesis by (auto simp: ranked_def list_all_iff)
qed

lemma file_loop_ends:
  assumes "ranked (files w) rank"
  shows "\<exists>r. file_loop main_parser qs fq w = Some r"
  using wf_mult [OF wf_less_than] assms
proof (induction "mset (map rank fq)" arbitrary: fq qs w rule: wf_induct_rule)
  case less
  show ?case
  proof (cases fq)
    case Nil
    then show ?thesis by (simp add: file_loop.simps)
  next
    case (Cons f rest)
    show ?thesis
    proof (cases "processFile f main_parser w")
      case (Inl e)
      with Cons show ?thesis by (simp add: file_loop.simps)
    next
      case (Inr p)
      obtain r w' where p: "p = (r, w')" by (cases p)
      note l = ranked_listens [OF less.prems Inr [unfolded p]]
      have "(mset (map rank rest) + mset (map rank (listenFiles r)), mset (map rank rest) + {#rank f#}) \<in> mult less_than"
        using l by (intro one_step_implies_mult) (auto simp: list_all_iff)
      then have "(mset (map rank (rest @ listenFiles r)), mset (map rank fq)) \<in> mult less_than"
        using Cons by simp
      from less.hyps [OF this] l less.prems have "\<exists>r'. file_loop main_parser (qs @ queries r) (rest @ listenFiles r) w' = Some r'"
        by simp
      with Cons Inr p show ?thesis by (subst file_loop.simps) simp
    qed
  qed
qed

lemma collect_files:
  "collect main_parser input w = Inr (r, w') \<Longrightarrow> files w' = files w \<and> listenFiles r = listens_in input"
  by (auto simp: collect_parse_all res_simps listens_in_def dest: parse_all_listened)

text \<open>
  C23: When the LISTEN statements of the files point down some ranking of the files, collecting
  the queries ends, whatever the input listens to.
\<close>

theorem listen_terminates:
  assumes "ranked (files w) rank"
  shows "\<exists>r. collect_all main_parser input w = Some r"
proof (cases "collect main_parser input w")
  case (Inl e)
  then show ?thesis by (simp add: collect_all_def)
next
  case (Inr p)
  obtain r w' where p: "p = (r, w')" by (cases p)
  with collect_files Inr have "files w' = files w" by blast
  with assms file_loop_ends [of w' rank] Inr p show ?thesis by (simp add: collect_all_def)
qed

definition two_files :: files where
  "two_files = [(''a'', ''LISTEN ( b );LIST;''), (''b'', ''QUIT;'')]"

theorem listen_terminates_witness:
  "\<exists>r. collect_all main_parser ''LISTEN ( a );'' (demo_world\<lparr>files := two_files\<rparr>) = Some r"
proof -
  have "ranked two_files (\<lambda>f. if f = ''a'' then 1 else 0)" by code_simp
  then show ?thesis by (intro listen_terminates) simp
qed

text \<open>A circle: every file of a list exists, is well formed, and listens, but only to files of the list.\<close>

definition listen_circle :: "string list \<Rightarrow> files \<Rightarrow> bool" where
  "listen_circle c fs \<longleftrightarrow>
     list_all (\<lambda>f. case map_of fs f of
        None \<Rightarrow> False
      | Some s \<Rightarrow> defined_text s \<and> listens_in s \<noteq> [] \<and> set (listens_in s) \<subseteq> set c) c"

lemma file_loop_circle:
  assumes "file_loop main_parser qs fq w = Some y"
  shows "fq \<noteq> [] \<Longrightarrow> set fq \<subseteq> set c \<Longrightarrow> listen_circle c (files w) \<Longrightarrow> False"
proof -
  have "bs = main_parser \<longrightarrow> fq \<noteq> [] \<longrightarrow> set fq \<subseteq> set c \<longrightarrow> listen_circle c (files w) \<longrightarrow> False"
    if "file_loop bs qs fq w = Some y" for bs qs fq w y
    using that
  proof (induction rule: file_loop.raw_induct [rotated, consumes 1])
    case (1 loop bs qs fq w y)
    show ?case
    proof (intro impI)
      assume bs: "bs = main_parser" and ne: "fq \<noteq> []" and sub: "set fq \<subseteq> set c" and circle: "listen_circle c (files w)"
      obtain f rest where fq: "fq = f # rest" using ne by (cases fq) auto
      with sub circle obtain s where s: "map_of (files w) f = Some s" "defined_text s" "listens_in s \<noteq> []"
          "set (listens_in s) \<subseteq> set c"
        by (auto simp: listen_circle_def list_all_iff split: option.splits)
      from processFile_defined [OF s(1,2)] obtain r w' where r: "processFile f main_parser w = Inr (r, w')" .
      from processFile_listens [OF r s(1)] have l: "listenFiles r = listens_in s" "files w' = files w" by simp_all
      have "loop main_parser (qs @ queries r) (rest @ listenFiles r) w' = Some y"
        using 1(2) by (simp add: bs fq r)
      from 1(1) [OF this] l s sub circle fq show False by auto
    qed
  qed
  with assms show "fq \<noteq> [] \<Longrightarrow> set fq \<subseteq> set c \<Longrightarrow> listen_circle c (files w) \<Longrightarrow> False" by blast
qed

text \<open>
  C38: When files listen to each other in a circle, the queue of files never runs empty: the program
  does not get to execute a single query.
\<close>

theorem listen_diverges:
  assumes "listen_circle c (files w)" and "defined_text input" and "listens_in input \<noteq> []"
    and "set (listens_in input) \<subseteq> set c"
  shows "collect_all main_parser input w = None"
proof -
  from parse_all_defined [OF assms(2) [unfolded defined_text_def], of w] obtain qs w' where
    "parse_all main_parser (statements input) w = Inr (qs, w')" by fastforce
  then obtain r where c: "collect main_parser input w = Inr (r, w')" by (simp add: collect_parse_all)
  from collect_files [OF c] have l: "files w' = files w" "listenFiles r = listens_in input" by simp_all
  have "file_loop main_parser (queries r) (listenFiles r) w' = None"
  proof (rule ccontr)
    assume "file_loop main_parser (queries r) (listenFiles r) w' \<noteq> None"
    then obtain y where "file_loop main_parser (queries r) (listenFiles r) w' = Some y" by blast
    from file_loop_circle [OF this, of c] l assms show False by simp
  qed
  with c show ?thesis by (simp add: collect_all_def)
qed

definition self_listening :: files where
  "self_listening = [(''a'', ''LISTEN ( a );'')]"

theorem listen_diverges_witness:
  "collect_all main_parser ''LISTEN ( a );'' (demo_world\<lparr>files := self_listening\<rparr>) = None"
proof -
  have "listen_circle [''a''] self_listening \<and> defined_text ''LISTEN ( a );'' \<and> listens_in ''LISTEN ( a );'' = [''a'']"
    by code_simp
  then show ?thesis by (intro listen_diverges [of "[''a'']"]) simp_all
qed

subsection \<open>The number of threads, and the two ways to execute\<close>

lemma fold_tables:
  "distinct ts \<Longrightarrow>
   distinct (fold (\<lambda>q tbls. if query_table q = [] then tbls else List.insert (query_table q) tbls) qs ts) \<and>
   set (fold (\<lambda>q tbls. if query_table q = [] then tbls else List.insert (query_table q) tbls) qs ts) =
     set ts \<union> (query_table ` set qs - {[]})"
  by (induction qs arbitrary: ts) auto

text \<open>
  More than one thread is used exactly when more than one was asked for, there are at least a
  thousand queries, and they name at least three tables.
\<close>

theorem effective_threads_correct:
  "effective_threads n qs =
     (if 1 < n \<and> 1000 \<le> length qs \<and> 3 \<le> card (query_table ` set qs - {[]}) then n else min n 1)"
proof -
  let ?ts = "fold (\<lambda>q tbls. if query_table q = [] then tbls else List.insert (query_table q) tbls) qs []"
  have "distinct ?ts" "set ?ts = query_table ` set qs - {[]}" using fold_tables [of "[]" qs] by simp_all
  then have c: "tableCount (analyzeWorkload qs) = card (query_table ` set qs - {[]})"
    by (simp add: analyzeWorkload_def distinct_card [symmetric])
  have q: "queryCount (analyzeWorkload qs) = length qs" by (simp add: analyzeWorkload_def)
  show ?thesis
    by (simp add: effective_threads_def shouldFallback_def default_thresholds_def c q not_less not_le min_def)
qed

lemma run_single_append:
  "run_single n (xs @ ys) w =
     (case run_single n xs w of
        (w', Inl e) \<Rightarrow> (w', Inl e)
      | (w', Inr _) \<Rightarrow> run_single (n + length xs) ys w')"
proof (induction xs arbitrary: n w)
  case Nil
  then show ?case by simp
next
  case (Cons q xs)
  obtain w' r where e: "execute q w = (w', r)" by fastforce
  with Cons show ?case by (cases r) (simp_all split: prod.split sum.split)
qed

text \<open>
  A single-threaded run ends at the first QUIT: what comes after it has no effect, and the main
  program sees the exception.
\<close>

theorem single_quit:
  "run_single n (qs @ QuitQuery # rest) w = run_single n (qs @ [QuitQuery]) w \<and>
   (\<exists>e. snd (run_single n (qs @ [QuitQuery]) w) = Inl e)"
proof -
  obtain w' r where r: "run_single n qs w = (w', r)" by fastforce
  then show ?thesis by (cases r) (simp_all add: run_single_append QuitQuery_execute_def)
qed

lemma outputQueryResult_db [simp]: "db (outputQueryResult n r w) = db w"
  by (simp add: outputQueryResult_def print_out_def Let_def)

text \<open>
  A run keeps the registry in order from query to query, whatever fails on the way, unless a
  query updates keys.
\<close>

theorem single_keeps:
  assumes "db_inv (db w)" and "list_all (\<lambda>q. \<not> renames_keys q) qs"
  shows "db_inv (db (fst (run_single n qs w)))"
  using assms
proof (induction qs arbitrary: n w)
  case Nil
  then show ?case by simp
next
  case (Cons q qs)
  obtain w' r where e: "execute q w = (w', r)" by fastforce
  with execute_keeps [of w q] Cons.prems have "db_inv (db w')" by simp
  with Cons e show ?case by (cases r) simp_all
qed

theorem single_keeps_witness:
  "db_inv (db (fst (run_single 0 [DropTableQuery ''u'', CopyTableQuery ''t'' ''u'', QuitQuery] demo_world)))"
  by (rule single_keeps) (simp_all add: demo_world_def demo_db_inv)

text \<open>
  Neither way to execute starts before all queries are collected; and an outcome of the whole function is
  that of a single-threaded run whenever the workload is small.
\<close>

theorem small_workload_single:
  assumes "executeQueries sel broken parser numThreads input w r" and "collect_all parser input w = Some (Inr (qs, w'))"
    and "0 < numThreads" and "length qs < 1000"
  shows "r = run_single 0 qs w'"
  using assms(1)
proof cases
  case (multi qs' w'' rs p)
  have "effective_threads numThreads qs = 1"
    using assms(3,4) by (auto simp: effective_threads_def shouldFallback_def analyzeWorkload_def default_thresholds_def)
  with multi assms(2) show ?thesis by simp
qed (use assms(2) in auto)

theorem small_workload_single_witness:
  "\<exists>r. executeQueries ref_sel [] main_parser 8 ''QUIT;'' demo_world r \<and> r = (demo_world, Inl QuitException)"
proof -
  have "tokens_of ''QUIT'' = [''QUIT'']" by code_simp
  then have c: "collect_all main_parser ''QUIT;'' demo_world = Some (Inr ([QuitQuery], demo_world))"
    by (simp add: collect_all_def collect_parse_all file_loop.simps statements_def parseQuery_def main_parser_def
        registerQueryBuilder_def tokenizeQueryString_def debug_extract_def)
  have "effective_threads 8 [QuitQuery] = 1" by code_simp
  from executeQueries.single [OF c this, of ref_sel "[]"]
  obtain r where r: "executeQueries ref_sel [] main_parser 8 ''QUIT;'' demo_world r" by blast
  from small_workload_single [OF r c] have "r = run_single 0 [QuitQuery] demo_world" by simp
  with r show ?thesis by (auto simp: QuitQuery_execute_def)
qed

end
