(* ===== verification/Command_Line.thy ===== *)
theory Command_Line
  imports Query_Exec
begin

section \<open>The command line\<close>

text \<open>
  The model of src/src/utils/ArgParser.cpp and src/src/main.cpp: the options, the checks that
  come before the queries, and the exit status. Arguments are strings, the program name in front;
  the warnings are the lines on the error stream.
\<close>

subsection \<open>Options\<close>

record parsed_args =
  listen :: string
  threads_arg :: i64

definition parsed_args_new :: parsed_args where
  "parsed_args_new = \<lparr>listen = [], threads_arg = 0\<rparr>"

definition warn :: "string \<Rightarrow> string" where
  "warn s = ''lemondb: warning: '' @ s @ [CHR 0x0A]"

definition warn_unknown :: "string \<Rightarrow> string" where
  "warn_unknown tok = warn (''unknown argument '' @ tok)"

definition warn_missing :: "string \<Rightarrow> string" where
  "warn_missing opt = warn (''missing value for '' @ opt)"

definition warn_invalid_threads :: "string \<Rightarrow> string" where
  "warn_invalid_threads value = warn (''invalid value for --threads '' @ value)"

text \<open>
  \<open>std::from_chars\<close> in base ten: an optional minus sign and digits, no blanks and no plus sign;
  a value po of range is an error. The code also wants the whole argument to be read.
\<close>

definition parse_int64_sv :: "string \<Rightarrow> i64 option" where
  "parse_int64_sv sv =
     (let neg = (sv \<noteq> [] \<and> hd sv = CHR ''-'');
          body = (if neg then tl sv else sv);
          digits = takeWhile is_digit body;
          v = (if neg then - int (digits_val digits) else int (digits_val digits))
      in if digits = [] then None
         else if v < - (2 ^ 63) \<or> v \<ge> 2 ^ 63 then None
         else if digits = body then Some (word_of_int v)
         else None)"

text \<open>
  The value of an option: given with it, or the next argument, which is then consumed. With no
  argument left there is a warning and an empty value.
\<close>

definition require_value :: "string option \<Rightarrow> string \<Rightarrow> string list \<Rightarrow> string \<times> string list \<times> string list" where
  "require_value value optname args =
     (case value of
        Some v \<Rightarrow> (v, args, [])
      | None \<Rightarrow>
          (case args of
             a # as \<Rightarrow> (a, as, [])
           | [] \<Rightarrow> ([], [], [warn_missing optname])))"

definition set_threads :: "string \<Rightarrow> string \<Rightarrow> parsed_args \<Rightarrow> parsed_args \<times> string list" where
  "set_threads complaint v po =
     (if v = [] then (po, [])
      else case parse_int64_sv v of
        Some n \<Rightarrow> (po\<lparr>threads_arg := n\<rparr>, [])
      | None \<Rightarrow> (po, [complaint]))"

definition set_listen :: "string \<Rightarrow> parsed_args \<Rightarrow> parsed_args" where
  "set_listen v po = (if v = [] then po else po\<lparr>listen := v\<rparr>)"

type_synonym arg_state = "string list \<times> parsed_args \<times> string list"

definition handle_long_option :: "string \<Rightarrow> string list \<Rightarrow> parsed_args \<Rightarrow> arg_state" where
  "handle_long_option tok args po =
     (let rest = drop 2 tok;
          eq_pos = find_char (CHR ''='') rest;
          name = (case eq_pos of None \<Rightarrow> rest | Some i \<Rightarrow> take i rest);
          value = map_option (\<lambda>i. drop (Suc i) rest) eq_pos
      in if name = ''listen'' then
           (let (v, args', ws) = require_value value ''--listen'' args in (args', set_listen v po, ws))
         else if name = ''threads'' then
           (let (v, args', ws) = require_value value ''--threads'' args;
                (po', ws') = set_threads (warn_invalid_threads v) v po
            in (args', po', ws @ ws'))
         else (args, po, [warn_unknown (''--'' @ name)]))"

definition handle_short_option :: "string \<Rightarrow> string list \<Rightarrow> parsed_args \<Rightarrow> arg_state" where
  "handle_short_option tok args po =
     (let short_opt = tok ! 1;
          rest = drop 2 tok;
          value = (if rest = [] then None else Some rest)
      in if short_opt = CHR ''l'' then
           (let (v, args', ws) = require_value value ''-l'' args in (args', set_listen v po, ws))
         else if short_opt = CHR ''t'' then
           (let (v, args', ws) = require_value value ''-t'' args;
                (po', ws') = set_threads (warn (''invalid value for -t '' @ v)) v po
            in (args', po', ws @ ws'))
         else (args, po, [warn_unknown tok]))"

lemma require_value_shorter: "require_value v o' args = (r, args', ws) \<Longrightarrow> length args' \<le> length args"
  by (auto simp: require_value_def split: option.splits list.splits)

lemma long_shorter: "handle_long_option tok args po = (args', r) \<Longrightarrow> length args' \<le> length args"
  by (auto simp: handle_long_option_def Let_def split: if_splits prod.splits dest: require_value_shorter)

lemma short_shorter: "handle_short_option tok args po = (args', r) \<Longrightarrow> length args' \<le> length args"
  by (auto simp: handle_short_option_def Let_def split: if_splits prod.splits dest: require_value_shorter)

function parse_loop :: "string list \<Rightarrow> parsed_args \<Rightarrow> parsed_args \<times> string list" where
  "parse_loop [] po = (po, [])"
| "parse_loop (tok # args) po =
     (if tok = [] then parse_loop args po
      else if tok = ''--'' then (po, [])
      else if take 2 tok = ''--'' then
        (let (args', po', ws) = handle_long_option tok args po; (r, ws') = parse_loop args' po' in (r, ws @ ws'))
      else if hd tok = CHR ''-'' \<and> 2 \<le> length tok then
        (let (args', po', ws) = handle_short_option tok args po; (r, ws') = parse_loop args' po' in (r, ws @ ws'))
      else (let (r, ws') = parse_loop args po in (r, warn_unknown tok # ws')))"
  by pat_completeness auto
termination
  by (relation "measure (\<lambda>(args, po). length args)")
    (auto dest!: sym [of _ "handle_long_option _ _ _"] sym [of _ "handle_short_option _ _ _"]
      dest: long_shorter short_shorter)

declare parse_loop.simps(2) [simp del]

definition parseArgs :: "string list \<Rightarrow> parsed_args \<times> string list" where
  "parseArgs argv = parse_loop (tl argv) parsed_args_new"

subsection \<open>The main program\<close>

text \<open>
  What happens before the first query: an exit with a status, or the text to execute and the number of
  threads. The number of hardware threads, which may be unknown (0), is a parameter.
\<close>

datatype startup_result = Exit int | Start (input_text: string) (num_threads: nat)

definition startup :: "nat \<Rightarrow> string list \<Rightarrow> world \<Rightarrow> startup_result" where
  "startup hardware_concurrency argv w =
     (let args = fst (parseArgs argv)
      in if listen args \<noteq> [] \<and> map_of (files w) (listen args) = None then Exit (- 1)
         else if listen args = [] then Exit (- 1)
         else if threads_arg args <s 0 then Exit (- 1)
         else
           (let n = (if 0 <s threads_arg args then unat (threads_arg args)
                     else if hardware_concurrency = 0 then 1 else hardware_concurrency)
            in Start (the (map_of (files w) (listen args))) n))"

text \<open>The exit status of \<open>main\<close>: a QUIT ends the program normally, any other exception does not.\<close>

fun exit_status :: "unit res \<Rightarrow> int option" where
  "exit_status (Inr ()) = Some 0"
| "exit_status (Inl QuitException) = Some 0"
| "exit_status (Inl Undefined_behaviour) = None"
| "exit_status (Inl e) = Some 1"

inductive main_exits :: "(gkey list \<Rightarrow> nat) \<Rightarrow> string \<Rightarrow> nat \<Rightarrow> string list \<Rightarrow> world \<Rightarrow> world \<Rightarrow> int \<Rightarrow> bool"
  for sel :: "gkey list \<Rightarrow> nat" and broken :: string and hw :: nat and argv :: "string list" and w :: world
  where
    refused: "main_exits sel broken hw argv w w c" if "startup hw argv w = Exit c"
  | executed: "main_exits sel broken hw argv w w' c"
      if "startup hw argv w = Start s n" and "executeQueries sel broken main_parser n s w (w', r)"
      and "exit_status r = Some c"

subsection \<open>Properties\<close>

text \<open>A decimal number: digits, with at most a minus sign in front and nothing else, and its value.\<close>

definition decimal :: "string \<Rightarrow> int option" where
  "decimal s =
     (let neg = (s \<noteq> [] \<and> hd s = CHR ''-''); ds = (if neg then tl s else s)
      in if ds = [] \<or> \<not> list_all is_digit ds then None
         else Some (if neg then - int (digits_val ds) else int (digits_val ds)))"

lemma parse_decimal:
  "parse_int64_sv s =
     (case decimal s of None \<Rightarrow> None
      | Some z \<Rightarrow> if - (2 ^ 63) \<le> z \<and> z < 2 ^ 63 then Some (word_of_int z) else None)"
proof -
  define neg where "neg \<longleftrightarrow> s \<noteq> [] \<and> hd s = CHR ''-''"
  define body where "body = (if neg then tl s else s)"
  define val where "val = (\<lambda>ds. if neg then - int (digits_val ds) else int (digits_val ds))"
  have p: "parse_int64_sv s =
      (let ds = takeWhile is_digit body
       in if ds = [] then None else if val ds < - (2 ^ 63) \<or> val ds \<ge> 2 ^ 63 then None
          else if ds = body then Some (word_of_int (val ds)) else None)"
    by (simp only: parse_int64_sv_def neg_def body_def val_def Let_def)
  have d: "decimal s = (if body = [] \<or> \<not> list_all is_digit body then None else Some (val body))"
    by (simp only: decimal_def neg_def body_def val_def Let_def)
  show ?thesis
  proof (cases "list_all is_digit body")
    case True
    then have t: "takeWhile is_digit body = body" by (simp add: takeWhile_eq_all_conv list_all_iff)
    show ?thesis unfolding p t d Let_def using True by (auto simp del: takeWhile_eq_all_conv)
  next
    case False
    then have "takeWhile is_digit body \<noteq> body" by (simp add: takeWhile_eq_all_conv list_all_iff)
    with False show ?thesis by (auto simp: p d Let_def list_all_iff)
  qed
qed

lemma sint_in_range: "- (2 ^ 63) \<le> z \<Longrightarrow> z < 2 ^ 63 \<Longrightarrow> sint (word_of_int z :: i64) = z"
  by (simp add: sint_sbintrunc' signed_take_bit_int_eq_self)

lemma unat_in_range: "0 \<le> z \<Longrightarrow> z < 2 ^ 63 \<Longrightarrow> unat (word_of_int z :: i64) = nat z"
  unfolding unat_eq_nat_uint uint_word_of_int by simp

lemma parse_loop_long:
  "take 2 t = ''--'' \<Longrightarrow> t \<noteq> ''--'' \<Longrightarrow> handle_long_option t args po = (args', po', ws) \<Longrightarrow>
   parse_loop (t # args) po = (fst (parse_loop args' po'), ws @ snd (parse_loop args' po'))"
  by (subst parse_loop.simps) (auto simp: split_def Let_def)

lemma parse_loop_short:
  "t = CHR ''-'' # c # t' \<Longrightarrow> c \<noteq> CHR ''-'' \<Longrightarrow> handle_short_option t args po = (args', po', ws) \<Longrightarrow>
   parse_loop (t # args) po = (fst (parse_loop args' po'), ws @ snd (parse_loop args' po'))"
  by (subst parse_loop.simps) (auto simp: split_def Let_def)

text \<open>
  The four ways to give the two options mean the same: \<open>--name=value\<close>, \<open>--name value\<close>, \<open>-nvalue\<close>
  and \<open>-n value\<close>.
\<close>

theorem option_forms:
  assumes "f \<noteq> []" and "parse_int64_sv v = Some n"
  shows "list_all (\<lambda>args. parseArgs (prog # args) = (\<lparr>listen = f, threads_arg = n\<rparr>, []))
     [[''--listen='' @ f, ''--threads='' @ v], [''--listen'', f, ''--threads'', v],
      [''-l'' @ f, ''-t'' @ v], [''-l'', f, ''-t'', v]]"
proof -
  have v: "v \<noteq> []" using assms(2) by (auto simp: parse_int64_sv_def)
  let ?p = "\<lparr>listen = f, threads_arg = 0\<rparr>" and ?q = "\<lparr>listen = f, threads_arg = n\<rparr>"
  have l1: "handle_long_option (''--listen='' @ f) args parsed_args_new = (args, ?p, [])" for args
    using assms(1) by (simp add: handle_long_option_def require_value_def set_listen_def parsed_args_new_def)
  have t1: "handle_long_option (''--threads='' @ v) args ?p = (args, ?q, [])" for args
    using assms(2) v by (simp add: handle_long_option_def require_value_def set_threads_def)
  have l2: "handle_long_option ''--listen'' (f # args) parsed_args_new = (args, ?p, [])" for args
    using assms(1) by (simp add: handle_long_option_def require_value_def set_listen_def parsed_args_new_def)
  have t2: "handle_long_option ''--threads'' (v # args) ?p = (args, ?q, [])" for args
    using assms(2) v by (simp add: handle_long_option_def require_value_def set_threads_def)
  have l3: "handle_short_option (''-l'' @ f) args parsed_args_new = (args, ?p, [])" for args
    using assms(1) by (simp add: handle_short_option_def require_value_def set_listen_def parsed_args_new_def)
  have t3: "handle_short_option (''-t'' @ v) args ?p = (args, ?q, [])" for args
    using assms(2) v by (simp add: handle_short_option_def require_value_def set_threads_def)
  have l4: "handle_short_option ''-l'' (f # args) parsed_args_new = (args, ?p, [])" for args
    using assms(1) by (simp add: handle_short_option_def require_value_def set_listen_def parsed_args_new_def)
  have t4: "handle_short_option ''-t'' (v # args) ?p = (args, ?q, [])" for args
    using assms(2) v by (simp add: handle_short_option_def require_value_def set_threads_def)
  have "parse_loop [''--listen='' @ f, ''--threads='' @ v] parsed_args_new = (?q, [])"
    using parse_loop_long [OF _ _ l1 [of "[''--threads='' @ v]"]] parse_loop_long [OF _ _ t1 [of "[]"]] by simp
  moreover have "parse_loop [''--listen'', f, ''--threads'', v] parsed_args_new = (?q, [])"
    using parse_loop_long [OF _ _ l2 [of "[''--threads'', v]"]] parse_loop_long [OF _ _ t2 [of "[]"]] by simp
  moreover have "parse_loop [''-l'' @ f, ''-t'' @ v] parsed_args_new = (?q, [])"
    using parse_loop_short [OF _ _ l3 [of "[''-t'' @ v]"]] parse_loop_short [OF _ _ t3 [of "[]"]] by simp
  moreover have "parse_loop [''-l'', f, ''-t'', v] parsed_args_new = (?q, [])"
    using parse_loop_short [OF _ _ l4 [of "[''-t'', v]"]] parse_loop_short [OF _ _ t4 [of "[]"]] by simp
  ultimately show ?thesis by (simp add: parseArgs_def)
qed

theorem option_forms_witness:
  "parseArgs [''lemondb'', ''-l'', ''q'', ''-t'', ''8''] = (\<lparr>listen = ''q'', threads_arg = 8\<rparr>, [])"
proof -
  have "parse_int64_sv ''8'' = Some 8" by code_simp
  from option_forms [OF _ this, of "''q''" "''lemondb''"] show ?thesis by simp
qed

text \<open>
  C39: What \<open>--threads\<close> does to a program whose input file can be read, for any text of the option. A text that is not
  a decimal number, or one that does not fit in 64 bits, is ignored, and so is 0: the number of hardware threads is used,
  or 1 when it is unknown. A negative number ends the program with status -1. Any other number is the number
  of threads.
\<close>

theorem threads_option:
  assumes "f \<noteq> []" and "map_of (files w) f = Some txt"
  shows "startup hw [prog, ''--listen='' @ f, ''--threads='' @ v] w =
     (let detected = (if hw = 0 then 1 else hw)
      in case decimal v of
           None \<Rightarrow> Start txt detected
         | Some z \<Rightarrow>
             if z < - (2 ^ 63) \<or> 2 ^ 63 \<le> z \<or> z = 0 then Start txt detected
             else if z < 0 then Exit (- 1)
             else Start txt (nat z))"
proof -
  let ?n = "case parse_int64_sv v of None \<Rightarrow> 0 | Some n \<Rightarrow> n"
  have l: "handle_long_option (''--listen='' @ f) args parsed_args_new = (args, \<lparr>listen = f, threads_arg = 0\<rparr>, [])" for args
    using assms(1) by (simp add: handle_long_option_def require_value_def set_listen_def parsed_args_new_def)
  have "\<exists>ws. handle_long_option (''--threads='' @ v) [] \<lparr>listen = f, threads_arg = 0\<rparr> =
      ([], \<lparr>listen = f, threads_arg = ?n\<rparr>, ws)"
    by (auto simp: handle_long_option_def require_value_def set_threads_def parse_int64_sv_def [of "[]"] split: option.split)
  then obtain ws where t: "handle_long_option (''--threads='' @ v) [] \<lparr>listen = f, threads_arg = 0\<rparr> =
      ([], \<lparr>listen = f, threads_arg = ?n\<rparr>, ws)" by blast
  have "fst (parseArgs [prog, ''--listen='' @ f, ''--threads='' @ v]) = \<lparr>listen = f, threads_arg = ?n\<rparr>"
    using parse_loop_long [OF _ _ l [of "[''--threads='' @ v]"]] parse_loop_long [OF _ _ t] by (simp add: parseArgs_def)
  then have s: "startup hw [prog, ''--listen='' @ f, ''--threads='' @ v] w =
      (if ?n <s 0 then Exit (- 1)
       else Start txt (if 0 <s ?n then unat ?n else if hw = 0 then 1 else hw))"
    using assms by (simp add: startup_def Let_def)
  show ?thesis
  proof (cases "decimal v")
    case None
    then show ?thesis unfolding s by (simp add: parse_decimal Let_def)
  next
    case (Some z)
    show ?thesis
    proof (cases "- (2 ^ 63) \<le> z \<and> z < 2 ^ 63")
      case True
      then have n: "?n = word_of_int z" using Some by (simp add: parse_decimal)
      have z: "sint (word_of_int z :: i64) = z" using True by (intro sint_in_range) simp_all
      show ?thesis
        using True Some unat_in_range [of z] unfolding s n by (auto simp: word_sless_alt z Let_def)
    next
      case False
      then have n: "?n = 0" using Some by (auto simp: parse_decimal)
      from False have "z < - (2 ^ 63) \<or> 2 ^ 63 \<le> z \<or> z = 0" by linarith
      then show ?thesis unfolding s n Some by (simp add: Let_def)
    qed
  qed
qed

theorem threads_option_witness:
  "startup 4 [''lemondb'', ''--listen=q'', ''--threads=8abc''] (demo_world\<lparr>files := [(''q'', ''QUIT;'')]\<rparr>) = Start ''QUIT;'' 4 \<and>
   startup 4 [''lemondb'', ''--listen=q'', ''--threads=-8''] (demo_world\<lparr>files := [(''q'', ''QUIT;'')]\<rparr>) = Exit (- 1)"
proof -
  have d: "decimal ''8abc'' = None" "decimal ''-8'' = Some (- 8)" by code_simp+
  have "map_of (files (demo_world\<lparr>files := [(''q'', ''QUIT;'')]\<rparr>)) ''q'' = Some ''QUIT;''" by simp
  note t = threads_option [OF _ this, of 4 "''lemondb''"]
  from t [of "''8abc''"] t [of "''-8''"] show ?thesis by (simp add: d)
qed

text \<open>
  The queries are executed only when the input file could be read, with at least one thread, and with
  the number that was asked for when one was.
\<close>

theorem startup_start:
  assumes "startup hw argv w = Start s n"
  shows "map_of (files w) (listen (fst (parseArgs argv))) = Some s \<and> 1 \<le> n \<and>
     (threads_arg (fst (parseArgs argv)) \<noteq> 0 \<longrightarrow> int n = sint (threads_arg (fst (parseArgs argv))))"
proof -
  let ?a = "fst (parseArgs argv)"
  from assms have l: "listen ?a \<noteq> []" "map_of (files w) (listen ?a) \<noteq> None" "\<not> threads_arg ?a <s 0"
    and s: "s = the (map_of (files w) (listen ?a))"
    and n: "n = (if 0 <s threads_arg ?a then unat (threads_arg ?a) else if hw = 0 then 1 else hw)"
    by (auto simp: startup_def Let_def split: if_splits)
  have nonneg: "0 \<le> sint (threads_arg ?a)" using l(3) by (simp add: word_sless_alt)
  moreover have "sint (threads_arg ?a) < 2 ^ 63" using sint_range_size [of "threads_arg ?a"] by (simp add: word_size)
  ultimately have u: "sint (threads_arg ?a) = uint (threads_arg ?a)"
    unfolding uint_sint by (intro take_bit_int_eq_self [symmetric]) simp_all
  have "int n = sint (threads_arg ?a)" if "threads_arg ?a \<noteq> 0"
  proof -
    have "sint (threads_arg ?a) \<noteq> 0" unfolding u using that by (metis uint_0_iff)
    with nonneg have "0 <s threads_arg ?a" by (simp add: word_sless_alt)
    with n u show ?thesis by simp
  qed
  moreover have "1 \<le> n"
  proof (cases "0 <s threads_arg ?a")
    case True
    then have "threads_arg ?a \<noteq> 0" by auto
    then have "0 < unat (threads_arg ?a)" by (simp add: unat_gt_0)
    with n True show ?thesis by simp
  next
    case False
    with n show ?thesis by (simp split: if_splits)
  qed
  ultimately show ?thesis using l s by auto
qed

theorem startup_start_witness:
  "startup 0 [''lemondb'', ''-lq''] (demo_world\<lparr>files := [(''q'', ''QUIT;'')]\<rparr>) = Start ''QUIT;'' 1 \<and>
   map_of [(''q'', ''QUIT;'')] ''q'' = Some ''QUIT;''"
proof
  show s: "startup 0 [''lemondb'', ''-lq''] (demo_world\<lparr>files := [(''q'', ''QUIT;'')]\<rparr>) = Start ''QUIT;'' 1"
    by code_simp
  have "listen (fst (parseArgs [''lemondb'', ''-lq''])) = ''q''" by code_simp
  with startup_start [OF s] show "map_of [(''q'', ''QUIT;'')] ''q'' = Some ''QUIT;''" by simp
qed

text \<open>
  The exit status is -1 exactly when the options or the input file are refused, and otherwise says
  whether the run ended normally or by QUIT.
\<close>

theorem main_status:
  assumes "main_exits sel broken hw argv w w' c"
  shows "(c = - 1 \<longleftrightarrow> (\<exists>e. startup hw argv w = Exit e)) \<and> c \<in> {- 1, 0, 1} \<and> (c = - 1 \<longrightarrow> w' = w)"
  using assms
proof cases
  case refused
  then have "c = - 1" by (auto simp: startup_def Let_def split: if_splits)
  with refused show ?thesis by auto
next
  case (executed s n r)
  then have "c \<in> {0, 1}" by (cases r rule: exit_status.cases) auto
  with executed show ?thesis by auto
qed

theorem main_status_witness:
  "main_exits ref_sel [] 4 [''lemondb''] demo_world demo_world (- 1) \<and> (\<exists>e. startup 4 [''lemondb''] demo_world = Exit e)"
proof -
  have "startup 4 [''lemondb''] demo_world = Exit (- 1)" by code_simp
  then have m: "main_exits ref_sel [] 4 [''lemondb''] demo_world demo_world (- 1)" by (rule main_exits.refused)
  from main_status [OF m] m show ?thesis by blast
qed

end
