(* ===== verification/Dropped_Tasks.thy ===== *)
theory Dropped_Tasks
  imports Pool_Results
begin

section \<open>Answers with and without execution\<close>

text \<open>
  A task whose \<open>droppedFlag\<close> is set is answered with a null result instead of being executed. This theory
  shows which tasks can be dropped, and that every other answer is the result of executing its query in a
  step of the run. Whatever is true of all the tasks in the task queue is kept by its operations when it
  does not depend on the table a LOAD is given by its file: the locale \<open>item_law\<close>.
\<close>

subsection \<open>A law of all tasks in the queue\<close>

definition each_item ::
  "(scheduled_item \<Rightarrow> bool) \<Rightarrow> (string, query_type \<times> u64) umap \<Rightarrow> task_queue \<Rightarrow> bool" where
  "each_item P L tq \<longleftrightarrow> list_all P (loadQueue tq) \<and> (\<forall>t. list_all P (tqueue (tq_of t tq))) \<and>
     (\<forall>i \<in># waiting_items (depManager tq). P i) \<and> list_all P (barriers tq) \<and>
     lastScheduledFile (depManager tq) = L"

lemma each_queue: "each_item P L tq \<Longrightarrow> list_all P (tqueue (tq_of t tq))"
  by (simp add: each_item_def)

lemma each_announce [simp]: "each_item P L (announce t tq) = each_item P L tq"
  by (simp add: each_item_def tq_of_def)

lemma each_fold_announce [simp]: "each_item P L (fold announce ts tq) = each_item P L tq"
  by (induction ts arbitrary: tq) simp_all

lemma each_count_fetch [simp]: "each_item P L (count_fetch tq) = each_item P L tq"
  by (simp add: each_item_def tq_of_def)

lemma each_set_tq: "each_item P L tq \<Longrightarrow> list_all P (tqueue q) \<Longrightarrow> each_item P L (set_tq t q tq)"
  by (simp add: each_item_def tq_of_set_tq)

lemma addWait_files [simp]: "lastScheduledFile (addWait ty k i dm) = lastScheduledFile dm"
  by (cases ty) (simp_all add: addWait_def)

lemma each_wait: "each_item P L tq \<Longrightarrow> P i \<Longrightarrow> each_item P L (wait ty k i tq)"
  by (simp add: each_item_def wait_def tq_of_def addWait_items)

lemma each_pop_table: "each_item P L tq \<Longrightarrow> each_item P L (pop_table t tq)"
  using each_queue [of P L tq t]
  by (cases "tqueue (tq_of t tq)") (auto simp: pop_table_def Let_def intro!: each_set_tq)

lemma each_push_front: "each_item P L tq \<Longrightarrow> P i \<Longrightarrow> each_item P L (push_front i tq)"
  using each_queue [of P L tq "tableId i"] by (simp add: push_front_def Let_def each_set_tq)

lemma each_enqueue: "each_item P L tq \<Longrightarrow> P i \<Longrightarrow> each_item P L (enqueue i tq)"
  using each_queue [of P L tq "tableId i"] by (simp add: enqueue_def Let_def each_set_tq)

lemma each_load: "each_item P L tq \<Longrightarrow> P i \<Longrightarrow> each_item P L (tq\<lparr>loadQueue := i # loadQueue tq\<rparr>)"
  by (simp add: each_item_def tq_of_def)

subsection \<open>Fetching\<close>

lemma each_getFetched:
  assumes "getFetched sel tq = (l, t, tq')" and "each_item P L tq"
  shows "each_item P L tq'" and "l = Some i \<Longrightarrow> P i" and "t = Some u \<Longrightarrow> P (head_of u tq')"
proof -
  note spec = getFetched_spec [OF assms(1)]
  have same: "tableQs tq' = tableQs tq" "depManager tq' = depManager tq" "barriers tq' = barriers tq" using spec by blast+
  have some: "loadQueue tq = i # loadQueue tq'" if "l = Some i" for i using spec that by blast
  have none: "loadQueue tq' = loadQueue tq" if "l = None" using spec that by blast
  have t: "tqueue (tq_of u tq') \<noteq> []" if "t = Some u" for u using spec that by blast
  have q: "list_all P (loadQueue tq)" using assms(2) by (simp add: each_item_def)
  show "P i" if "l = Some i" using q some [OF that] by simp
  have "list_all P (loadQueue tq')"
  proof (cases l)
    case None
    then show ?thesis using q none by simp
  next
    case (Some i)
    then show ?thesis using q some by simp
  qed
  with assms(2) show e: "each_item P L tq'" by (simp add: each_item_def tq_of_def same)
  show "P (head_of u tq')" if "t = Some u"
    using t [OF that] each_queue [OF e, of u] by (cases "tqueue (tq_of u tq')") (simp_all add: head_of_def)
qed

lemma each_judgeLoad:
  "judgeLoadDeps i tq = (tq', again) \<Longrightarrow> each_item P L tq \<Longrightarrow> P i \<Longrightarrow> each_item P L tq'"
  using judgeLoadDeps_spec [of i tq tq' again] by (cases again) (auto intro: each_wait)

lemma each_judgeNormal:
  "judgeNormalDeps t tq = (tq', again) \<Longrightarrow> each_item P L tq \<Longrightarrow> P (head_of t tq) \<Longrightarrow> each_item P L tq'"
  using judgeNormalDeps_cases [of t tq tq' again] by (cases again) (auto intro: each_wait each_pop_table)

text \<open>A fetched task was built from a task of the queue.\<close>

definition fetched_from ::
  "(scheduled_item \<Rightarrow> bool) \<Rightarrow> (string, query_type \<times> u64) umap \<Rightarrow> task_queue \<times> executable_task option \<Rightarrow> bool" where
  "fetched_from P L r \<longleftrightarrow> each_item P L (fst r) \<and>
     (\<forall>x. snd r = Some x \<longrightarrow> (\<exists>i tq. P i \<and> buildExecutableFromScheduled i tq = Inr x))"

lemma fetchBarrier_each:
  assumes "fetchBarrier tq = Inr r" and "each_item P L tq"
  shows "fetched_from P L r"
proof (cases "barriers tq = [] \<or> running tq > 0")
  case True
  with assms have "r = (tq, None)" by (auto simp: fetchBarrier_def split: list.splits if_splits)
  with assms(2) show ?thesis by (simp add: fetched_from_def)
next
  case False
  then obtain b bs where b: "barriers tq = b # bs" by (cases "barriers tq") auto
  let ?tq1 = "tq\<lparr>barriers := bs, quitFlag := (quitFlag tq \<or> itype b = QT_Quit)\<rparr>"
  from assms(1) b False obtain x where x: "buildExecutableFromScheduled b ?tq1 = Inr x"
    and r: "r = ((fold announce (waitingTables ?tq1) (count_fetch ?tq1))\<lparr>waitingTables := [], loadBlocked := False\<rparr>, Some x)"
    by (auto simp: fetchBarrier_def Let_def res_simps)
  have "each_item P L ?tq1" using assms(2) b by (simp add: each_item_def tq_of_def)
  then have "each_item P L (fold announce (waitingTables ?tq1) (count_fetch ?tq1))" by simp
  then have "each_item P L (fst r)" by (simp add: r each_item_def tq_of_def)
  moreover have "P b" using assms(2) b by (simp add: each_item_def)
  ultimately show ?thesis using x by (auto simp: fetched_from_def r)
qed

lemma fetch_loop_each:
  "fetch_loop sel tq = Inr r \<Longrightarrow> each_item P L tq \<Longrightarrow> fetched_from P L r"
proof (induction sel tq rule: fetch_loop.induct)
  case (1 sel tq)
  obtain l t tq1 where g: "getFetched sel tq = (l, t, tq1)" by (metis surj_pair)
  note each = each_getFetched [OF g "1.prems"(2)]
  show ?case
  proof (cases "l = None \<and> t = None")
    case True
    with "1.prems"(1) g have "fetchBarrier tq1 = Inr r" by (subst (asm) fetch_loop.simps) simp
    from fetchBarrier_each [OF this each(1)] show ?thesis .
  next
    case some: False
    show ?thesis
    proof (cases "prefer_load l (map_option (\<lambda>t. head_of t tq1) t)")
      case True
      with some obtain i where l: "l = Some i" by (cases l) (auto simp: prefer_load_def split: option.splits)
      obtain tq2 again where j: "judgeLoadDeps (the l) tq1 = (tq2, again)" by fastforce
      then have e: "each_item P L tq2" using each_judgeLoad [of i tq1 tq2 again P L] each(1) each(2) [OF l] l by simp
      show ?thesis
      proof (cases again)
        case again: True
        with "1.prems"(1) g some True j have "fetch_loop sel tq2 = Inr r" by (subst (asm) fetch_loop.simps) simp
        from "1.IH"(1) [OF refl g [symmetric] refl some True refl j [symmetric] again this e] show ?thesis .
      next
        case no: False
        with "1.prems"(1) g some True j obtain x where
          "buildExecutableFromScheduled i tq2 = Inr x" "r = (count_fetch tq2, Some x)"
          by (subst (asm) fetch_loop.simps) (auto simp: res_simps l)
        with e each(2) [OF l] show ?thesis by (auto simp: fetched_from_def)
      qed
    next
      case False
      with some obtain u where t: "t = Some u" by (cases t) (auto simp: prefer_load_def split: option.splits)
      obtain tq2 again where j: "judgeNormalDeps (the t) tq1 = (tq2, again)" by fastforce
      then have e: "each_item P L tq2" using each_judgeNormal [of u tq1 tq2 again P L] each(1) each(3) [OF t] t by simp
      show ?thesis
      proof (cases again)
        case again: True
        with "1.prems"(1) g some False j have "fetch_loop sel tq2 = Inr r" by (subst (asm) fetch_loop.simps) simp
        from "1.IH"(2) [OF refl g [symmetric] refl some False refl j [symmetric] again this e] show ?thesis .
      next
        case no: False
        have tq2: "tq2 = tq1" using judgeNormalDeps_cases [OF j] no by simp
        with "1.prems"(1) g some False j no obtain x where
          "buildExecutableFromScheduled (head_of u tq1) tq1 = Inr x" "r = (count_fetch (pop_table u tq1), Some x)"
          by (subst (asm) fetch_loop.simps) (auto simp: res_simps t)
        with each_pop_table [OF each(1)] each(3) [OF t] show ?thesis by (auto simp: fetched_from_def)
      qed
    qed
  qed
qed

lemma fetchNext_each: "fetchNext sel tq = Inr r \<Longrightarrow> each_item P L tq \<Longrightarrow> fetched_from P L r"
  using fetch_loop_each [of sel tq r P L] by (auto simp: fetchNext_def fetched_from_def split: if_splits)

subsection \<open>Registration\<close>

text \<open>A LOAD is marked as dropped only when the last task marked on its file was a LOAD.\<close>

lemma markScheduled_dropped:
  assumes "markScheduled i tag dm = (i', dm')" and "\<not> droppedFlag i" and "droppedFlag i'"
  shows "itype i = QT_Load \<and>
     (\<exists>s > 0. um_get no_schedule (lastScheduledFile dm) (extractFilePath (squery i)) = (QT_Load, s))"
proof (cases "itype i = QT_Load")
  case True
  let ?e = "um_get no_schedule (lastScheduledFile dm) (extractFilePath (squery i))"
  from assms True have "0 < snd ?e \<and> fst ?e = QT_Load"
    by (auto simp: markScheduled_def mark_load_def markScheduledFile_def markScheduledTable_def Let_def split: if_splits)
  with True show ?thesis by (intro conjI exI [of _ "snd ?e"]) (auto simp: prod_eq_iff)
next
  case False
  with assms show ?thesis
    by (auto simp: markScheduled_def markScheduledFile_def markScheduledTable_def Let_def split: if_splits)
qed

lemma markScheduled_files:
  "markScheduled i tag dm = (i', dm') \<Longrightarrow>
   lastScheduledFile dm' \<in> {lastScheduledFile dm, mark_entry (extractFilePath (squery i)) (seq i) tag (lastScheduledFile dm)}"
  by (auto simp: markScheduled_def mark_load_def markScheduledFile_def markScheduledTable_def Let_def split: if_splits)

lemma registerTask_each:
  assumes "registerTask q tq = (tq', r)" and "each_item P L tq" and "P (item_of q)"
    and "\<And>i' dm. markScheduled (item_of q) (pq_type q) (depManager tq) = (i', dm) \<Longrightarrow> P i'"
  shows "\<exists>L' \<in> {L, mark_entry (extractFilePath (pq_query q)) (pq_seq q) (pq_type q) L}. each_item P L' tq'"
proof -
  let ?i = "item_of q" and ?tq1 = "tq\<lparr>submitted := submitted tq + 1\<rparr>"
  obtain i' dm where m: "markScheduled ?i (pq_type q) (depManager tq) = (i', dm)" by fastforce
  have L: "lastScheduledFile (depManager tq) = L" using assms(2) by (simp add: each_item_def)
  have sq: "squery ?i = pq_query q" by (simp add: item_of_def)
  have in_L: "lastScheduledFile dm \<in> {L, mark_entry (extractFilePath (pq_query q)) (pq_seq q) (pq_type q) L}"
    using markScheduled_files [OF m] by (simp add: L sq)
  have w: "waiting_items dm = waiting_items (depManager tq)" using markScheduled_deps(4) [OF m] by simp
  have e1: "each_item P L ?tq1" and e2: "each_item P (lastScheduledFile dm) (?tq1\<lparr>depManager := dm\<rparr>)"
    using assms(2) w by (simp_all add: each_item_def tq_of_def)
  note i' = assms(4) [OF m]
  consider "tq' = tq" | "tq' = ?tq1\<lparr>barriers := barriers tq @ [?i]\<rparr>" | "tq' = enqueue ?i ?tq1"
    | "tq' = ?tq1\<lparr>depManager := dm, loadQueue := loadQueue tq @ [i']\<rparr>" | "tq' = enqueue i' (?tq1\<lparr>depManager := dm\<rparr>)"
    using assms(1) m by (auto simp: registerTask_def Let_def split: if_splits)
  then show ?thesis
  proof cases
    case 1
    with assms(2) show ?thesis by blast
  next
    case 2
    then have "each_item P L tq'" using assms(2,3) by (simp add: each_item_def tq_of_def)
    then show ?thesis by blast
  next
    case 3
    with each_enqueue [OF e1 assms(3)] show ?thesis by blast
  next
    case 4
    then have "each_item P (lastScheduledFile dm) tq'" using e2 i' by (simp add: each_item_def tq_of_def)
    with in_L show ?thesis by blast
  next
    case 5
    with each_enqueue [OF e2 i'] in_L show ?thesis by blast
  qed
qed

subsection \<open>Completion\<close>

lemma notifyCompleted_files [simp]: "notifyCompleted ty k s dm = (r, dm') \<Longrightarrow> lastScheduledFile dm' = lastScheduledFile dm"
  by (auto simp: notifyCompleted_def split: if_splits dependency_type.splits prod.splits)

lemma notify_each:
  assumes "notify ty k s tq = (rs, tq')" and "tq_inv tq" and "each_item P L tq"
  shows "each_item P L tq' \<and> list_all P rs"
proof -
  obtain dm where n: "notifyCompleted ty k s (depManager tq) = (rs, dm)" and tq': "tq' = tq\<lparr>depManager := dm\<rparr>"
    using assms(1) by (auto simp: notify_def split: prod.splits)
  have "dm_ok (depManager tq)" using assms(2) by (simp add: tq_inv_def)
  from notifyCompleted_spec [OF this n] have w: "waiting_items (depManager tq) = waiting_items dm + mset rs" by simp
  have "\<forall>i \<in># waiting_items dm + mset rs. P i" using assms(3) unfolding w [symmetric] by (simp add: each_item_def)
  then show ?thesis using assms(3) notifyCompleted_files [OF n]
    by (auto simp: tq' each_item_def tq_of_def list_all_iff)
qed

lemma notify_tables_each:
  "notify_tables ts s tq = (rs, tq') \<Longrightarrow> tq_inv tq \<Longrightarrow> each_item P L tq \<Longrightarrow> each_item P L tq' \<and> list_all P rs"
proof (induction ts arbitrary: tq rs tq')
  case (Cons t ts)
  obtain r1 tq1 r2 where 1: "notify Table_dep t s tq = (r1, tq1)" and 2: "notify_tables ts s tq1 = (r2, tq')"
    and rs: "rs = r1 @ r2" using Cons.prems(1) by (auto split: prod.splits)
  have "tq_inv tq1" using notify_ready [OF 1 Cons.prems(2)] by (simp add: ready_ok_def)
  with Cons.IH [OF 2] notify_each [OF 1 Cons.prems(2,3)] show ?case by (simp add: rs)
qed simp

lemma updateDependencyRecords_each:
  assumes upd: "updateDependencyRecords c tq = (rf, rt, tq')" and inv: "tq_inv tq" and each: "each_item P L tq"
  shows "each_item P L tq' \<and> list_all P rf \<and> list_all P rt"
proof -
  have two: "each_item P L tq' \<and> list_all P rf \<and> list_all P rt"
    if "notify File k s tq = (rf, tq1)" "notify_tables ts s tq1 = (rt, tq')" for k s tq1 ts
  proof -
    have "tq_inv tq1" using notify_ready [OF that(1) inv] by (simp add: ready_ok_def)
    with notify_each [OF that(1) inv each] notify_tables_each [OF that(2)] show ?thesis by blast
  qed
  have one: "each_item P L tq1 \<and> list_all P rs" if "notify Table_dep k s tq = (rs, tq1)" for k s rs tq1
    by (rule notify_each [OF that inv each])
  consider (l) "c_type c = QT_Load" | (d) "c_type c = QT_Dump" | (p) "c_type c = QT_Drop"
    | (y) "c_type c = QT_CopyTable" | (o) "c_type c \<notin> set dep_types" by (auto simp: dep_types_def)
  then show ?thesis
  proof cases
    case l
    then show ?thesis
      using upd by (auto simp: updateDependencyRecords_def Let_def split: prod.splits dest: two)
  next
    case d
    then obtain tq1 where "notify File (dump_path (c_deps c)) (c_seq c) tq = (rf, tq1)"
      "notify Table_dep (c_table c) (c_seq c) tq1 = (rt, tq')"
      using upd by (auto simp: updateDependencyRecords_def Let_def split: prod.splits)
    then show ?thesis by (intro two [of _ _ tq1 "[c_table c]"]) auto
  next
    case p
    obtain rs tq1 where n: "notify Table_dep (c_table c) (c_seq c) tq = (rs, tq1)" by fastforce
    have "list_all P (tqueue q)" if "map_of (tableQs tq1) (c_table c) = Some q" for q
      using each_queue [of P L tq1 "c_table c"] one [OF n] that by (simp add: tq_of_def um_get_def)
    with upd p n one [OF n] show ?thesis
      by (auto simp: updateDependencyRecords_def split: option.splits intro: each_set_tq)
  next
    case y
    then obtain "rf = []" "notify_tables [c_table c, copy_new (c_deps c)] (c_seq c) tq = (rt, tq')"
      using upd by (auto simp: updateDependencyRecords_def Let_def simp del: notify_tables.simps split: prod.splits)
    from notify_tables_each [OF this(2) inv each] this(1) show ?thesis by simp
  next
    case o
    with upd each show ?thesis
      by (auto simp: updateDependencyRecords_def dep_types_def split: if_splits prod.splits dest: one)
  qed
qed

locale item_law =
  fixes P :: "scheduled_item \<Rightarrow> bool"
  assumes renamed: "P i \<Longrightarrow> P (i\<lparr>tableId := n\<rparr>)"

context item_law begin

lemma updateReadyFiles_each: "each_item P L tq \<Longrightarrow> P i \<Longrightarrow> each_item P L (fst (updateReadyFiles fs i (tq, d)))"
  by (simp add: updateReadyFiles_def Let_def split_def each_load renamed each_wait each_push_front)

lemma updateReadyTables_each: "each_item P L tq \<Longrightarrow> P i \<Longrightarrow> each_item P L (updateReadyTables i tq)"
  by (simp add: updateReadyTables_def each_load each_wait each_push_front)

lemma fold_files_each:
  "each_item P L tq \<Longrightarrow> list_all P rs \<Longrightarrow> each_item P L (fst (fold (updateReadyFiles fs) rs (tq, d)))"
proof (induction rs arbitrary: tq d)
  case (Cons i rs)
  obtain tq1 d1 where u: "updateReadyFiles fs i (tq, d) = (tq1, d1)" by fastforce
  with updateReadyFiles_each [of L tq i fs d] Cons show ?case by simp
qed simp

lemma fold_tables_each: "each_item P L tq \<Longrightarrow> list_all P rs \<Longrightarrow> each_item P L (fold updateReadyTables rs tq)"
  by (induction rs arbitrary: tq) (simp_all add: updateReadyTables_each)

lemma applyUpdateDeps_each:
  assumes "tq_inv tq" and "each_item P L tq"
  shows "each_item P L (fst (applyUpdateDeps fs c (tq, d)))"
proof -
  obtain rf rt tq1 where u: "updateDependencyRecords c tq = (rf, rt, tq1)" by (metis surj_pair)
  obtain tq2 d2 where f: "fold (updateReadyFiles fs) rf (tq1, d) = (tq2, d2)" by fastforce
  from updateDependencyRecords_each [OF u assms] have e: "each_item P L tq1" "list_all P rf" "list_all P rt" by blast+
  from fold_files_each [OF e(1,2), of fs d] f have "each_item P L tq2" by simp
  from fold_tables_each [OF this e(3)] show ?thesis by (simp add: applyUpdateDeps_def u f)
qed

lemma registerTableQueue_each:
  assumes "tq_inv tq" and "each_item P L tq"
    and drop: "\<And>i. P i \<Longrightarrow> queued_ok i \<Longrightarrow> seq i < s \<Longrightarrow> P (i\<lparr>droppedFlag := True\<rparr>)"
  shows "each_item P L (registerTableQueue t s tq)"
proof -
  have "list_all P (map (\<lambda>p. if seq p < s then p\<lparr>droppedFlag := True\<rparr> else p) (tqueue (tq_of t tq)))"
    using each_queue [OF assms(2), of t] tq_inv_queue [OF assms(1), of t] drop by (auto simp: list_all_iff)
  then show ?thesis using assms(2) by (simp add: registerTableQueue_def Let_def each_set_tq)
qed

lemma applyRegisterTable_each:
  assumes "tq_inv tq" and "each_item P L tq"
    and drop: "\<And>i. P i \<Longrightarrow> queued_ok i \<Longrightarrow> seq i < c_seq c \<Longrightarrow> P (i\<lparr>droppedFlag := True\<rparr>)"
  shows "each_item P L (applyRegisterTable c tq)"
proof -
  let ?tq1 = "registerTableQueue (c_table c) (c_seq c) tq"
  have "tq_inv ?tq1" using registerTableQueue_spec [OF assms(1)] by blast
  moreover have "each_item P L ?tq1" by (rule registerTableQueue_each [OF assms])
  ultimately show ?thesis using registerTableQueue_each [OF _ _ drop] by (simp add: applyRegisterTable_def Let_def)
qed

lemma applyActions_each:
  "tq_inv tq \<Longrightarrow> each_item P L tq \<Longrightarrow>
   (\<And>i. RegisterTable \<in> set as \<Longrightarrow> P i \<Longrightarrow> queued_ok i \<Longrightarrow> seq i < c_seq c \<Longrightarrow> P (i\<lparr>droppedFlag := True\<rparr>)) \<Longrightarrow>
   each_item P L (fst (applyActions fs as c (tq, d)))"
proof (induction as arbitrary: tq d)
  case (Cons a as)
  show ?case
  proof (cases a)
    case RegisterTable
    have "tq_inv (applyRegisterTable c tq)" using applyRegisterTable_spec [OF Cons.prems(1)] by blast
    moreover have "each_item P L (applyRegisterTable c tq)"
      using applyRegisterTable_each [OF Cons.prems(1,2)] Cons.prems(3) RegisterTable by simp
    ultimately show ?thesis using Cons.IH Cons.prems(3) RegisterTable by simp
  next
    case UpdateDeps
    obtain tq1 d1 where u: "applyUpdateDeps fs c (tq, d) = (tq1, d1)" by fastforce
    with applyUpdateDeps_spec [OF Cons.prems(1), of fs c d] applyUpdateDeps_each [OF Cons.prems(1,2), of fs c d]
    show ?thesis using Cons.IH [of tq1 d1] Cons.prems(3) UpdateDeps by simp
  qed
qed simp

lemma onCompleted_each:
  assumes "onCompleted_locked fs c (tq, d) = (tq', d')" and "tq_inv tq" and "each_item P L tq"
    and "\<And>i. RegisterTable \<in> set (c_actions c) \<Longrightarrow> P i \<Longrightarrow> queued_ok i \<Longrightarrow> seq i < c_seq c \<Longrightarrow> P (i\<lparr>droppedFlag := True\<rparr>)"
  shows "each_item P L tq'"
  using assms(1) applyActions_each [OF assms(2,3), of "c_actions c" c fs d] assms(4)
  by (auto simp: onCompleted_locked_def split: prod.splits option.splits)

end

subsection \<open>Who can be dropped\<close>

text \<open>
  The query at \<open>i\<close> can be dropped when it is a LOAD of a file that an earlier LOAD names, or when it works on a
  table and a LOAD or COPYTABLE, which registers a table, is submitted after it.
\<close>

definition may_drop :: "query list \<Rightarrow> nat \<Rightarrow> bool" where
  "may_drop qs i \<longleftrightarrow>
     (if queryType (qs ! i) = QT_Load
      then list_ex (\<lambda>j. queryType (qs ! j) = QT_Load \<and> extractFilePath (qs ! j) = extractFilePath (qs ! i)) [0..<i]
      else queryType (qs ! i) \<notin> {QT_Quit, QT_List, QT_Listen} \<and>
        list_ex (\<lambda>j. queryType (qs ! j) \<in> {QT_Load, QT_CopyTable}) [Suc i..<length qs])"

definition item_ok :: "query list \<Rightarrow> scheduled_item \<Rightarrow> bool" where
  "item_ok qs i \<longleftrightarrow> submitted_as qs (core i) \<and> (droppedFlag i \<longrightarrow> may_drop qs (unat (seq i) - 1))"

interpretation il: item_law "item_ok qs" for qs
  by unfold_locales (simp add: item_ok_def)

text \<open>The same of a fetched task, whose callback registers a table only for a LOAD or COPYTABLE.\<close>

definition exec_ok :: "query list \<Rightarrow> executable_task \<Rightarrow> bool" where
  "exec_ok qs x \<longleftrightarrow> submitted_as qs (x_core x) \<and> (execOverride x \<longrightarrow> may_drop qs (unat (x_seq x) - 1)) \<and>
     c_seq (onCompleted x) = x_seq x \<and>
     (RegisterTable \<in> set (c_actions (onCompleted x)) \<longrightarrow> x_type x \<in> {QT_Load, QT_CopyTable})"

lemma built_ok:
  assumes "buildExecutableFromScheduled i tq = Inr x" and "item_ok qs i"
  shows "exec_ok qs x"
proof -
  obtain as where c: "classifyActions i tq = Inr as" and x: "c_actions (onCompleted x) = as"
    using assms(1) by (auto simp: buildExecutableFromScheduled_def res_simps)
  from c have "RegisterTable \<in> set as \<longrightarrow> itype i \<in> {QT_Load, QT_CopyTable}"
    by (auto simp: classifyActions_def split: if_splits option.splits)
  with build_simps [OF assms(1)] assms(2) x show ?thesis by (simp add: exec_ok_def item_ok_def)
qed

lemma registering_drops:
  assumes "exec_ok qs x" and "RegisterTable \<in> set (c_actions (onCompleted x))"
    and "item_ok qs i" and "queued_ok i" and "seq i < c_seq (onCompleted x)"
  shows "item_ok qs (i\<lparr>droppedFlag := True\<rparr>)"
proof -
  let ?i = "unat (seq i) - 1" and ?j = "unat (x_seq x) - 1"
  have i: "1 \<le> unat (seq i)" "queryType (qs ! ?i) = itype i"
    using assms(3) by (simp_all add: item_ok_def submitted_as_def core_def)
  have j: "unat (x_seq x) \<le> length qs" "1 \<le> unat (x_seq x)" "queryType (qs ! ?j) \<in> {QT_Load, QT_CopyTable}"
    using assms(1,2) by (auto simp: exec_ok_def submitted_as_def x_core_def)
  have "unat (seq i) < unat (x_seq x)" using assms(1,5) by (simp add: exec_ok_def word_less_nat_alt)
  then have "?j \<in> set [Suc ?i..<length qs]" using i(1) j(1,2) by auto
  moreover have "itype i \<notin> {QT_Load, QT_Quit, QT_List, QT_Listen}" using assms(4) by (auto simp: queued_ok_def barrier_types_def)
  ultimately have "may_drop qs ?i" using i(2) j(3) unfolding may_drop_def list_ex_iff by auto
  with assms(3) show ?thesis by (simp add: item_ok_def)
qed

text \<open>The marks of LOADs on files are of LOADs that were submitted with this file.\<close>

definition file_marks :: "query list \<Rightarrow> (string, query_type \<times> u64) umap \<Rightarrow> nat \<Rightarrow> bool" where
  "file_marks qs L n \<longleftrightarrow>
     (\<forall>f s. um_get no_schedule L f = (QT_Load, s) \<longrightarrow> 0 < s \<longrightarrow>
        1 \<le> unat s \<and> unat s \<le> n \<and> queryType (qs ! (unat s - 1)) = QT_Load \<and> extractFilePath (qs ! (unat s - 1)) = f)"

definition drops_inv :: "query list \<Rightarrow> pool \<Rightarrow> bool" where
  "drops_inv qs p \<longleftrightarrow>
     (\<exists>L. each_item (item_ok qs) L (taskQueue p) \<and> file_marks qs L (unat (totalSubmitted p))) \<and>
     list_all (exec_ok qs) (local_queue p) \<and> list_all (\<lambda>ph. list_all (exec_ok qs) (phase_live ph)) (threads p)"

lemma file_marksD:
  "file_marks qs L n \<Longrightarrow> um_get no_schedule L f = (QT_Load, s) \<Longrightarrow> 0 < s \<Longrightarrow>
   1 \<le> unat s \<and> unat s \<le> n \<and> queryType (qs ! (unat s - 1)) = QT_Load \<and> extractFilePath (qs ! (unat s - 1)) = f"
  unfolding file_marks_def by blast

lemma file_marks_new:
  assumes "file_marks qs L n" and "unat s = Suc n" and "L' \<in> {L, mark_entry (extractFilePath (qs ! n)) s (queryType (qs ! n)) L}"
  shows "file_marks qs L' (Suc n)"
  unfolding file_marks_def
proof (intro allI impI)
  fix f r
  assume e: "um_get no_schedule L' f = (QT_Load, r)" "0 < r"
  let ?P = "\<lambda>m. 1 \<le> unat r \<and> unat r \<le> m \<and> queryType (qs ! (unat r - 1)) = QT_Load \<and> extractFilePath (qs ! (unat r - 1)) = f"
  consider "um_get no_schedule L f = (QT_Load, r)" | "r = s" "queryType (qs ! n) = QT_Load" "f = extractFilePath (qs ! n)"
    using e assms(3) by (auto simp: mark_entry_def Let_def um_get_put split: if_splits)
  then show "?P (Suc n)"
  proof cases
    case 1
    with file_marksD [OF assms(1) _ e(2)] have "?P n" by blast
    then show ?thesis by simp
  next
    case 2
    with assms(2) show ?thesis by simp
  qed
qed

lemma submit_drops:
  assumes inv: "drops_inv qs p" and ok: "origin_ok qs p" and m: "main p = Submitting (q # l)"
    and tq: "tq_inv (taskQueue p)" and len: "length qs < 2 ^ 64"
  shows "drops_inv qs (submitQuery q (p\<lparr>main := Submitting l\<rparr>))"
proof -
  let ?n = "unat (totalSubmitted p)" and ?s = "totalSubmitted p + 1"
  have l: "q # l = drop ?n qs" using ok m by (simp add: origin_ok_def to_come_def)
  then have lt: "?n < length qs" by (metis drop_all list.distinct(1) not_le)
  with l have q: "q = qs ! ?n" by (simp add: Cons_nth_drop_Suc [symmetric])
  have s: "unat ?s = Suc ?n" using lt len by (simp add: unat_plus_if_size word_size)
  obtain L where L: "each_item (item_ok qs) L (taskQueue p)" "file_marks qs L ?n" using inv by (auto simp: drops_inv_def)
  let ?q = "prepare q ?s"
  have sub: "submitted_as qs (pq_core ?q)" using lt s q by (simp add: submitted_as_def prepare_def pq_core_def)
  have new: "item_ok qs (item_of ?q)" using sub by (simp add: item_ok_def) (simp add: item_of_def)
  have marked: "item_ok qs i'" if mk: "markScheduled (item_of ?q) (pq_type ?q) (depManager (taskQueue p)) = (i', dm)" for i' dm
  proof -
    have c: "core i' = pq_core ?q" using markScheduled_deps(2) [OF mk] by simp
    then have si: "seq i' = ?s" by (simp add: core_def pq_core_def prepare_def)
    have "may_drop qs ?n" if d: "droppedFlag i'"
    proof -
      have "lastScheduledFile (depManager (taskQueue p)) = L" using L(1) by (simp add: each_item_def)
      with markScheduled_dropped [OF mk _ d] obtain r where r: "0 < r" "queryType q = QT_Load"
        "um_get no_schedule L (extractFilePath q) = (QT_Load, r)"
        by (auto simp: item_of_def prepare_def)
      from file_marksD [OF L(2) r(3,1)] have j: "1 \<le> unat r" "unat r \<le> ?n" "queryType (qs ! (unat r - 1)) = QT_Load"
        "extractFilePath (qs ! (unat r - 1)) = extractFilePath q" by blast+
      then have "unat r - 1 \<in> set [0..<?n]" by auto
      with j(3,4) r(2) show ?thesis unfolding may_drop_def list_ex_iff q by auto
    qed
    with sub show ?thesis by (simp add: item_ok_def c si s)
  qed
  obtain tq r where reg: "registerTask ?q (taskQueue p) = (tq, r)" by fastforce
  have "\<exists>L' \<in> {L, mark_entry (extractFilePath (pq_query ?q)) (pq_seq ?q) (pq_type ?q) L}. each_item (item_ok qs) L' tq"
    by (rule registerTask_each [OF reg L(1) new]) (rule marked)
  then obtain L' where
    "L' \<in> {L, mark_entry (extractFilePath (qs ! ?n)) ?s (queryType (qs ! ?n)) L}" "each_item (item_ok qs) L' tq"
    unfolding q by (auto simp: prepare_def)
  with file_marks_new [OF L(2) s] inv reg show ?thesis
    by (auto simp: drops_inv_def submitQuery_def Let_def s)
qed

lemma take_local_drops:
  assumes "take_local xs p = (ph', p')" and "list_all (exec_ok qs) (local_queue p)" and "list_all (exec_ok qs) xs"
  shows "taskQueue p' = taskQueue p \<and> totalSubmitted p' = totalSubmitted p \<and>
     list_all (exec_ok qs) (local_queue p') \<and> list_all (exec_ok qs) (phase_live ph')"
proof -
  have "list_all (exec_ok qs) (local_queue p @ xs)" using assms(2,3) by simp
  then show ?thesis using assms(1,2) by (cases "local_queue p @ xs") (auto simp: take_local_def)
qed

lemma work_drops:
  assumes w: "work sel ph p = Some (ph', p')" and tq: "tq_inv (taskQueue p)"
    and each: "each_item (item_ok qs) L (taskQueue p)"
    and loc: "list_all (exec_ok qs) (local_queue p)" and live: "list_all (exec_ok qs) (phase_live ph)"
  shows "each_item (item_ok qs) L (taskQueue p') \<and> list_all (exec_ok qs) (local_queue p') \<and>
     list_all (exec_ok qs) (phase_live ph')"
proof (cases ph)
  case Idle
  with w take_local_drops [of "[]" p ph' p' qs] each loc show ?thesis by (auto split: if_splits)
next
  case (Fetching xs)
  show ?thesis
  proof (cases "FETCH_BATCH_SIZE \<le> length xs \<or> (\<exists>e. fetchNext sel (taskQueue p) = Inl e)")
    case True
    with Fetching w each loc live show ?thesis by (auto split: if_splits)
  next
    case False
    then obtain tq' x where f: "fetchNext sel (taskQueue p) = Inr (tq', x)"
      by (cases "fetchNext sel (taskQueue p)") auto
    from fetchNext_each [OF f each] have e: "each_item (item_ok qs) L tq'" "\<And>y. x = Some y \<Longrightarrow> exec_ok qs y"
      using built_ok by (auto simp: fetched_from_def)
    show ?thesis using Fetching False f w e loc live by (cases x) auto
  qed
next
  case (Merging xs)
  with w take_local_drops [of xs p ph' p' qs] each loc live show ?thesis by auto
next
  case (Ran x)
  obtain tq' d where o: "onCompleted_locked (files (world_of p)) (onCompleted x) (taskQueue p, db (world_of p)) = (tq', d)"
    by fastforce
  have "exec_ok qs x" using live Ran by simp
  from il.onCompleted_each [OF o tq each registering_drops [OF this]] Ran w o live loc show ?thesis by auto
next
  case (Notified x)
  with w each loc live show ?thesis by (auto simp: onCompleted_count_def each_item_def tq_of_def)
qed (use w each loc live in \<open>auto split: prod.splits option.splits\<close>)

lemma drops_reach:
  assumes "reach sel broken (runtime_new qs n w) p" and len: "length qs < 2 ^ 64"
  shows "drops_inv qs p"
  using assms(1)
proof induction
  case start
  have "each_item (item_ok qs) [] task_queue_new"
    by (simp add: each_item_def task_queue_new_def tq_of_def um_get_def table_queue_new_def dm_new_def waiting_items_def um_items_def)
  moreover have "file_marks qs [] 0" by (simp add: file_marks_def um_get_def no_schedule_def)
  ultimately show ?case by (auto simp: drops_inv_def runtime_new_def list_all_iff)
next
  case (step p a p')
  have tq: "tq_inv (taskQueue p)" using pool_inv_reach [OF step.hyps(1) pool_inv_new] by (simp add: pool_inv_def)
  from step.hyps(2) show ?case
  proof (cases rule: act_cases)
    case main
    show ?thesis
    proof (cases "\<exists>q l. main p = Submitting (q # l)")
      case True
      then obtain q l where l: "main p = Submitting (q # l)" by blast
      from submit_drops [OF step.IH origin_ok_reach [OF step.hyps(1) len] l tq len] main(2) l
      show ?thesis by (simp add: main_step_def)
    next
      case False
      with main(2) step.IH show ?thesis
        by (auto simp: main_step_def startExecution_def setReady_def drops_inv_def each_item_def tq_of_def
            split: main_pc.splits list.splits if_splits)
    qed
  next
    case (worker i ph p1)
    obtain L where L: "each_item (item_ok qs) L (taskQueue p)" "file_marks qs L (unat (totalSubmitted p))"
      using step.IH by (auto simp: drops_inv_def)
    have loc: "list_all (exec_ok qs) (local_queue p)" and thr: "list_all (\<lambda>ph. list_all (exec_ok qs) (phase_live ph)) (threads p)"
      using step.IH by (simp_all add: drops_inv_def)
    have live: "list_all (exec_ok qs) (phase_live (threads p ! i))" using thr worker(2) by (simp add: list_all_length)
    have same: "threads p1 = threads p" "totalSubmitted p1 = totalSubmitted p"
      using work_okI [OF worker(3) tq] by (simp_all add: work_ok_def)
    from work_drops [OF worker(3) tq L(1) loc live] have new: "each_item (item_ok qs) L (taskQueue p1)"
      "list_all (exec_ok qs) (local_queue p1)" "list_all (exec_ok qs) (phase_live ph)" by blast+
    have "list_all (\<lambda>ph. list_all (exec_ok qs) (phase_live ph)) ((threads p)[i := ph])"
      using thr new(3) set_update_subset_insert [of "threads p" i ph] by (auto simp: list_all_iff)
    with new L(2) show ?thesis by (auto simp: drops_inv_def worker(4) same)
  qed
qed

subsection \<open>Where answers come from\<close>

text \<open>
  In the run from \<open>p0\<close> to \<open>p\<close> a worker executed the query \<open>q\<close>, as task number \<open>s\<close>: it applied the query's effects to the
  world it found, and \<open>r\<close> is the outcome.
\<close>

definition ran_in :: "(gkey list \<Rightarrow> nat) \<Rightarrow> string \<Rightarrow> pool \<Rightarrow> pool \<Rightarrow> u64 \<Rightarrow> query \<Rightarrow> query_result res \<Rightarrow> bool" where
  "ran_in sel broken p0 p s q r \<longleftrightarrow>
     (\<exists>p1 k x p2. reach sel broken p0 p1 \<and> k < length (threads p1) \<and> threads p1 ! k = Locked x \<and> x_seq x = s \<and>
        act sel broken (Worker k) p1 = Some p2 \<and>
        (world_of p2, r) = execute q (world_of p1) \<and> reach sel broken p2 p)"

text \<open>The value of a promise is that of the query, executed in this run, or the null result of a dropped task.\<close>

definition answer_ok ::
  "(gkey list \<Rightarrow> nat) \<Rightarrow> string \<Rightarrow> pool \<Rightarrow> pool \<Rightarrow> query list \<Rightarrow> u64 \<Rightarrow> query_result res \<Rightarrow> bool" where
  "answer_ok sel broken p0 p qs s r \<longleftrightarrow>
     ran_in sel broken p0 p s (qs ! (unat s - 1)) r \<or> r = Inr NullQueryResult \<and> may_drop qs (unat s - 1)"

lemma reach_trans: "reach sel broken p1 p2 \<Longrightarrow> reach sel broken p0 p1 \<Longrightarrow> reach sel broken p0 p2"
  by (induction rule: reach.induct) (auto intro: reach.step)

lemma ran_in_later: "ran_in sel broken p0 p s q r \<Longrightarrow> reach sel broken p p' \<Longrightarrow> ran_in sel broken p0 p' s q r"
  unfolding ran_in_def using reach_trans [of sel broken p p'] by blast

lemma answer_ok_later: "answer_ok sel broken p0 p qs s r \<Longrightarrow> reach sel broken p p' \<Longrightarrow> answer_ok sel broken p0 p' qs s r"
  unfolding answer_ok_def using ran_in_later by blast

lemma executed_answer:
  assumes r: "reach sel broken p0 p" and a: "act sel broken (Worker i) p = Some p'" and i: "i < length (threads p)"
    and ph: "threads p ! i = Locked x" and x: "exec_ok qs x" and w: "work sel (Locked x) p = Some (ph', p1)"
    and p': "p' = p1\<lparr>threads := (threads p1)[i := ph']\<rparr>"
  shows "answer_ok sel broken p0 p' qs (x_seq x) (snd (run_logic x (world_of p)))"
proof (cases "execOverride x")
  case True
  with x show ?thesis by (simp add: answer_ok_def exec_ok_def run_logic_def)
next
  case False
  have q: "x_query x = qs ! (unat (x_seq x) - 1)" using x by (simp add: exec_ok_def submitted_as_def x_core_def)
  have "world_of p' = fst (run_logic x (world_of p))" using w p' by (auto split: prod.splits)
  with False q have "(world_of p', snd (run_logic x (world_of p))) = execute (qs ! (unat (x_seq x) - 1)) (world_of p)"
    by (simp add: run_logic_def)
  with r a i ph have "ran_in sel broken p0 p' (x_seq x) (qs ! (unat (x_seq x) - 1)) (snd (run_logic x (world_of p)))"
    unfolding ran_in_def by (blast intro: reach.start)
  then show ?thesis by (simp add: answer_ok_def)
qed

lemma answers_reach:
  assumes "reach sel broken (runtime_new qs n w) p" and len: "length qs < 2 ^ 64"
  shows "\<forall>(s, r) \<in> set (promises p). answer_ok sel broken (runtime_new qs n w) p qs s r"
  using assms(1)
proof induction
  case start
  show ?case by (simp add: runtime_new_def)
next
  case (step p a p')
  have "reach sel broken p p'" by (rule reach.step [OF reach.start step.hyps(2)])
  with step.IH have old: "\<forall>(s, r) \<in> set (promises p). answer_ok sel broken (runtime_new qs n w) p' qs s r"
    by (auto intro: answer_ok_later)
  from step.hyps(2) show ?case
  proof (cases rule: act_cases)
    case main
    from promises_main [OF step.hyps(1) main(2) len] old show ?thesis by simp
  next
    case (worker i ph p1)
    then have pr: "promises p' = promises p1" by simp
    from work_answers [OF worker(3)] consider "promises p1 = promises p"
      | x where "threads p ! i = Locked x" "promises p1 = promises p @ [(x_seq x, snd (run_logic x (world_of p)))]"
      by blast
    then show ?thesis
    proof cases
      case 1
      with pr old show ?thesis by simp
    next
      case 2
      have "list_all (exec_ok qs) (phase_live (threads p ! i))"
        using drops_reach [OF step.hyps(1) len] worker(2) by (simp add: drops_inv_def list_all_length)
      then have "exec_ok qs x" using 2(1) by simp
      from executed_answer [OF step.hyps(1) step.hyps(2) [unfolded worker(1)] worker(2) 2(1) this worker(3) [unfolded 2(1)] worker(4)]
      show ?thesis using pr 2 old by simp
    qed
  qed
qed

text \<open>
  What is collected for the query at \<open>i\<close>: the outcome of its execution in this run, the null result of a
  dropped task, or the report of a broken promise.
\<close>

definition answers :: "(gkey list \<Rightarrow> nat) \<Rightarrow> string \<Rightarrow> pool \<Rightarrow> pool \<Rightarrow> query list \<Rightarrow> nat \<Rightarrow> query_result option \<Rightarrow> bool" where
  "answers sel broken p0 p qs i a \<longleftrightarrow>
     (\<exists>r. ran_in sel broken p0 p (of_nat (Suc i)) (qs ! i) r \<and> result_of broken (Ready r) = Inr a) \<or>
     a = Some NullQueryResult \<and> may_drop qs i \<or>
     queryType (qs ! i) = QT_Load \<and> result_of broken Broken = Inr a"

text \<open>
  C5: In every interleaving the main thread collects one answer for each submitted query, in the order of
  submission, and each is the outcome of executing that query in a step of this very run (a null
  pointer for a QUIT, a message for an exception). The exceptions are a null result, only for a LOAD whose file an
  earlier LOAD names or for a query on a table with a LOAD or COPYTABLE after it, and a broken promise,
  only for a LOAD.
\<close>

theorem results_answer_queries:
  assumes "reach sel broken (runtime_new qs n w) p" and "length qs < 2 ^ 64" and "main p = Collected (Inr as)"
  shows "length as = length qs \<and> (\<forall>i < length qs. answers sel broken (runtime_new qs n w) p qs i (as ! i))"
proof -
  let ?V = "answer_ok sel broken (runtime_new qs n w) p qs"
  have c: "collected p = Some (Inr as)" using assms(3) by (simp add: collected_def)
  have "length as = length qs \<and> (\<forall>i < length qs. reply_by broken ?V qs i (as ! i))"
    by (rule collected_by [OF assms(1,2) c]) (use answers_reach [OF _ assms(2)] answer_ok_later in blast)
  moreover have "answers sel broken (runtime_new qs n w) p qs i a" if "reply_by broken ?V qs i a" "i < length qs" for i a
  proof -
    have "unat (of_nat (Suc i) :: u64) - 1 = i" using that(2) assms(2) unfolding unat_of_nat by simp
    with that(1) show ?thesis unfolding reply_by_def answer_ok_def answers_def by fastforce
  qed
  ultimately show ?thesis by blast
qed

text \<open>In the example nothing is dropped: the INSERT and the QUIT were executed.\<close>

theorem results_answer_queries_witness:
  "\<exists>as. main end_pool = Collected (Inr as) \<and> length as = 3 \<and>
     (\<exists>r. ran_in ref_sel [] demo_new end_pool 2 (demo_queries ! 1) r \<and> result_of [] (Ready r) = Inr (as ! 1))"
proof -
  have "case main end_pool of Collected (Inr as) \<Rightarrow> True | _ \<Rightarrow> False" by code_simp
  then obtain as where m: "main end_pool = Collected (Inr as)" by (auto split: main_pc.splits sum.splits)
  have d: "length demo_queries = 3" "\<not> may_drop demo_queries 1" "queryType (demo_queries ! 1) = QT_Insert"
    by code_simp+
  from results_answer_queries [OF end_reach [unfolded demo_new_def] _ m] d have
    "length as = 3" "answers ref_sel [] demo_new end_pool demo_queries 1 (as ! 1)" by (simp_all add: demo_new_def)
  with m d show ?thesis by (auto simp: answers_def)
qed

end
