(* ===== verification/Table_Iterator.thy ===== *)
theory Table_Iterator
  imports Query_Data
begin

section \<open>Iterators and proxies\<close>

text \<open>
  The model of \<open>IteratorImpl\<close> in src/src/db/Table.h, and of the access to a row's key and to its
  columns by name through \<open>ObjectImpl\<close>: an iterator is a position in the rows of its
  table, from the first row to one past the last. Arithmetic that leaves this range and reading
  through the end are undefined, and so is going on after the vector of rows has changed its length.
  A range-based \<open>for\<close> over a table is \<open>for_loop\<close>; the loops of \<open>Query_Data\<close> are shown to be such loops.
\<close>

record iterator =
  pos :: int

definition table_begin :: "table \<Rightarrow> iterator" where
  "table_begin t = \<lparr>pos = 0\<rparr>"

definition table_end :: "table \<Rightarrow> iterator" where
  "table_end t = \<lparr>pos = int (length (data t))\<rparr>"

text \<open>\<open>operator*\<close>: the proxy of a row, which is its position.\<close>

definition iter_deref :: "table \<Rightarrow> iterator \<Rightarrow> nat res" where
  "iter_deref t i =
     (if 0 \<le> pos i \<and> pos i < int (length (data t)) then Inr (nat (pos i)) else Inl Undefined_behaviour)"

definition iter_plus :: "table \<Rightarrow> iterator \<Rightarrow> int \<Rightarrow> iterator res" where
  "iter_plus t i n =
     (if 0 \<le> pos i + n \<and> pos i + n \<le> int (length (data t)) then Inr (i\<lparr>pos := pos i + n\<rparr>)
      else Inl Undefined_behaviour)"

definition iter_minus :: "table \<Rightarrow> iterator \<Rightarrow> int \<Rightarrow> iterator res" where
  "iter_minus t i n =
     (if 0 \<le> pos i - n \<and> pos i - n \<le> int (length (data t)) then Inr (i\<lparr>pos := pos i - n\<rparr>)
      else Inl Undefined_behaviour)"

definition iter_diff :: "iterator \<Rightarrow> iterator \<Rightarrow> int" where
  "iter_diff i j = pos i - pos j"

definition iter_nth :: "table \<Rightarrow> iterator \<Rightarrow> int \<Rightarrow> nat res" where
  "iter_nth t i n = res_bind (iter_plus t i n) (iter_deref t)"

text \<open>The increments: the iterator afterwards, and for the postfix ones the value first.\<close>

definition iter_inc :: "table \<Rightarrow> iterator \<Rightarrow> iterator res" where
  "iter_inc t i = iter_plus t i 1"

definition iter_dec :: "table \<Rightarrow> iterator \<Rightarrow> iterator res" where
  "iter_dec t i = iter_minus t i 1"

definition iter_post_inc :: "table \<Rightarrow> iterator \<Rightarrow> (iterator \<times> iterator) res" where
  "iter_post_inc t i = res_bind (iter_inc t i) (\<lambda>j. Inr (i, j))"

definition iter_post_dec :: "table \<Rightarrow> iterator \<Rightarrow> (iterator \<times> iterator) res" where
  "iter_post_dec t i = res_bind (iter_dec t i) (\<lambda>j. Inr (i, j))"

definition iter_eq :: "iterator \<Rightarrow> iterator \<Rightarrow> bool" where
  "iter_eq i j \<longleftrightarrow> pos i = pos j"

definition iter_less :: "iterator \<Rightarrow> iterator \<Rightarrow> bool" where
  "iter_less i j \<longleftrightarrow> pos i < pos j"

definition iter_less_eq :: "iterator \<Rightarrow> iterator \<Rightarrow> bool" where
  "iter_less_eq i j \<longleftrightarrow> pos i \<le> pos j"

text \<open>The remaining comparisons, and the assignments that move the iterator itself.\<close>

definition iter_ne :: "iterator \<Rightarrow> iterator \<Rightarrow> bool" where
  "iter_ne i j \<longleftrightarrow> pos i \<noteq> pos j"

definition iter_greater_eq :: "iterator \<Rightarrow> iterator \<Rightarrow> bool" where
  "iter_greater_eq i j \<longleftrightarrow> pos i \<ge> pos j"

definition iter_greater :: "iterator \<Rightarrow> iterator \<Rightarrow> bool" where
  "iter_greater i j \<longleftrightarrow> pos i > pos j"

definition iter_plus_assign :: "table \<Rightarrow> iterator \<Rightarrow> int \<Rightarrow> iterator res" where
  "iter_plus_assign t i n =
     (if 0 \<le> pos i + n \<and> pos i + n \<le> int (length (data t)) then Inr (i\<lparr>pos := pos i + n\<rparr>)
      else Inl Undefined_behaviour)"

definition iter_minus_assign :: "table \<Rightarrow> iterator \<Rightarrow> int \<Rightarrow> iterator res" where
  "iter_minus_assign t i n =
     (if 0 \<le> pos i - n \<and> pos i - n \<le> int (length (data t)) then Inr (i\<lparr>pos := pos i - n\<rparr>)
      else Inl Undefined_behaviour)"

text \<open>Moving and measuring agree, as random access promises.\<close>

lemma iter_plus_minus:
  "0 \<le> pos i \<Longrightarrow> pos i \<le> int (length (data t)) \<Longrightarrow> iter_plus t i n = Inr j \<Longrightarrow>
   iter_diff j i = n \<and> iter_minus t j n = Inr i"
  by (auto simp: iter_plus_def iter_minus_def iter_diff_def split: if_splits)

lemma iter_minus_is_plus: "iter_minus t i n = iter_plus t i (- n)"
  by (simp add: iter_minus_def iter_plus_def)

lemma iter_inc_dec:
  "0 \<le> pos i \<Longrightarrow> pos i \<le> int (length (data t)) \<Longrightarrow> iter_inc t i = Inr j \<Longrightarrow> iter_dec t j = Inr i"
  using iter_plus_minus [of i t 1 j] by (simp add: iter_inc_def iter_dec_def)

text \<open>\<open>i < j\<close> is \<open>j - i > 0\<close>, and the six comparisons are those of one total order.\<close>

lemma iter_order:
  "iter_less i j \<longleftrightarrow> iter_diff j i > 0" "iter_greater i j \<longleftrightarrow> iter_less j i"
  "iter_ne i j \<longleftrightarrow> \<not> iter_eq i j" "iter_less_eq i j \<longleftrightarrow> \<not> iter_greater i j"
  "iter_greater_eq i j \<longleftrightarrow> \<not> iter_less i j" "iter_ne i j \<longleftrightarrow> iter_less i j \<or> iter_less j i"
  by (auto simp: iter_less_def iter_greater_def iter_ne_def iter_eq_def iter_less_eq_def
      iter_greater_eq_def iter_diff_def)

subsection \<open>Proxies: the key and the columns by name\<close>

text \<open>
  \<open>Object::key\<close>, and \<open>operator[]\<close> and \<open>get\<close> with a field name. An unknown name and a row that is
  too short for the field's column leave \<open>at\<close> with the same exception, which becomes the same
  message.
\<close>

definition obj_key :: "table \<Rightarrow> nat \<Rightarrow> string res" where
  "obj_key t i = (if i < length (data t) then Inr (key (data t ! i)) else Inl Undefined_behaviour)"

definition obj_get_name :: "table \<Rightarrow> nat \<Rightarrow> string \<Rightarrow> i32 res" where
  "obj_get_name t i fname =
     (if length (data t) \<le> i then Inl Undefined_behaviour
      else
        (let missing = res_bind (fmt_subst (''Field name '' @ [CHR 0x22, CHR ''?'', CHR 0x22] @
                                            '' doesn'' @ [CHR 0x27] @ ''t exists.'') fname)
                         (\<lambda>m. Inl (TableFieldNotFound m))
         in case map_of (fieldMap t) fname of
              None \<Rightarrow> missing
            | Some ind \<Rightarrow>
                if ind < length (datum (data t ! i)) then Inr (datum (data t ! i) ! ind) else missing))"

text \<open>
  On a well-formed table a column by name is the column by \<open>getFieldIndex\<close>: the same value, and for
  an unknown name the same exception.
\<close>

lemma obj_get_name_index:
  assumes "fields_ok t" and "rows_ok t" and "i < length (data t)"
  shows "obj_get_name t i f = res_bind (getFieldIndex t f) (obj_get (data t ! i))"
proof (cases "map_of (fieldMap t) f")
  case None
  then show ?thesis
    using assms(3)
    by (cases "fmt_subst (''Field name '' @ [CHR 0x22, CHR ''?'', CHR 0x22] @
                          '' doesn'' @ [CHR 0x27] @ ''t exists.'') f")
      (simp_all add: obj_get_name_def getFieldIndex_def)
next
  case (Some ind)
  then have g: "getFieldIndex t f = Inr ind" by (simp add: getFieldIndex_def)
  moreover have "ind < length (datum (data t ! i))"
    using getFieldIndex_bound [OF assms(1) g] assms(2,3) by (simp add: rows_ok_def)
  ultimately show ?thesis
    using Some assms(3) by (simp add: obj_get_name_def obj_get_def)
qed

subsection \<open>Range-based loops\<close>

function for_loop ::
  "(nat \<Rightarrow> table \<Rightarrow> 'a \<Rightarrow> table \<times> 'a res) \<Rightarrow> iterator \<Rightarrow> iterator \<Rightarrow> table \<Rightarrow> 'a \<Rightarrow> table \<times> 'a res" where
  "for_loop body i e t a =
     (if iter_eq i e then (t, Inr a)
      else case iter_deref t i of
        Inl x \<Rightarrow> (t, Inl x)
      | Inr r \<Rightarrow>
          (case body r t a of
             (t', Inl x) \<Rightarrow> (t', Inl x)
           | (t', Inr a') \<Rightarrow>
               if length (data t') \<noteq> length (data t) then (t', Inl Undefined_behaviour)
               else (case iter_inc t' i of
                       Inl x \<Rightarrow> (t', Inl x)
                     | Inr i' \<Rightarrow> for_loop body i' e t' a')))"
  by pat_completeness auto
termination
  by (relation "measure (\<lambda>(body, i, e, t, a). nat (int (length (data t)) - pos i))")
    (auto simp: iter_deref_def iter_inc_def iter_plus_def split: if_splits)

declare for_loop.simps [simp del]

definition for_each :: "(nat \<Rightarrow> table \<Rightarrow> 'a \<Rightarrow> table \<times> 'a res) \<Rightarrow> table \<Rightarrow> 'a \<Rightarrow> table \<times> 'a res" where
  "for_each body t a = for_loop body (table_begin t) (table_end t) t a"

text \<open>The same loop over a list of positions.\<close>

fun each :: "(nat \<Rightarrow> table \<Rightarrow> 'a \<Rightarrow> table \<times> 'a res) \<Rightarrow> nat list \<Rightarrow> table \<Rightarrow> 'a \<Rightarrow> table \<times> 'a res" where
  "each body [] t a = (t, Inr a)"
| "each body (r # rs) t a =
     (case body r t a of (t', Inl x) \<Rightarrow> (t', Inl x) | (t', Inr a') \<Rightarrow> each body rs t' a')"

definition keeps_length :: "(nat \<Rightarrow> table \<Rightarrow> 'a \<Rightarrow> table \<times> 'a res) \<Rightarrow> bool" where
  "keeps_length body \<longleftrightarrow> (\<forall>r t a. length (data (fst (body r t a))) = length (data t))"

lemma for_loop_each:
  assumes len: "keeps_length body" and "n = length (data t)" and "k \<le> n"
  shows "for_loop body \<lparr>pos = int k\<rparr> \<lparr>pos = int n\<rparr> t a = each body [k..<n] t a"
  using assms(2,3)
proof (induction "n - k" arbitrary: k t a)
  case 0
  then show ?case by (subst for_loop.simps) (simp add: iter_eq_def)
next
  case (Suc d)
  then have k: "k < n" by simp
  obtain t' x where b: "body k t a = (t', x)" by fastforce
  have l: "length (data t') = length (data t)" using len b unfolding keeps_length_def by (metis fst_conv)
  have "iter_deref t \<lparr>pos = int k\<rparr> = Inr k" using k Suc.prems by (simp add: iter_deref_def)
  moreover have "iter_inc t' \<lparr>pos = int k\<rparr> = Inr \<lparr>pos = int (Suc k)\<rparr>"
    using k l Suc.prems by (simp add: iter_inc_def iter_plus_def)
  moreover have "for_loop body \<lparr>pos = int (Suc k)\<rparr> \<lparr>pos = int n\<rparr> t' a' = each body [Suc k..<n] t' a'" for a'
    using Suc.hyps(2) k l Suc.prems by (intro Suc.hyps(1)) simp_all
  ultimately show ?case
    using k b l by (subst for_loop.simps) (simp add: iter_eq_def upt_conv_Cons split: sum.split)
qed

lemma for_each_positions: "keeps_length body \<Longrightarrow> for_each body t a = each body [0..<length (data t)] t a"
  using for_loop_each [of body "length (data t)" t 0 a] by (simp add: for_each_def table_begin_def table_end_def)

subsection \<open>The loops of the queries\<close>

text \<open>
  The bodies, on the table that the proxy points into: assign to the row when the conditions
  hold and count it, rename it, or read it.
\<close>

definition assign_body :: "(datum \<Rightarrow> bool res) \<Rightarrow> (datum \<Rightarrow> datum res) \<Rightarrow> nat \<Rightarrow> table \<Rightarrow> nat \<Rightarrow> table \<times> nat res" where
  "assign_body cond f r t counter =
     (case cond (data t ! r) of
        Inl x \<Rightarrow> (t, Inl x)
      | Inr b \<Rightarrow>
          if b then
            (case f (data t ! r) of
               Inl x \<Rightarrow> (t, Inl x)
             | Inr d \<Rightarrow> (t\<lparr>data := (data t)[r := d]\<rparr>, Inr (Suc counter)))
          else (t, Inr counter))"

definition rename_body :: "(datum \<Rightarrow> bool res) \<Rightarrow> string \<Rightarrow> nat \<Rightarrow> table \<Rightarrow> nat \<Rightarrow> table \<times> nat res" where
  "rename_body cond k r t counter =
     (case cond (data t ! r) of
        Inl x \<Rightarrow> (t, Inl x)
      | Inr b \<Rightarrow>
          if b then
            (case setKey r k t of
               Inl x \<Rightarrow> (t, Inl x)
             | Inr t' \<Rightarrow> (t', Inr (Suc counter)))
          else (t, Inr counter))"

definition read_row :: "(datum \<Rightarrow> bool res) \<Rightarrow> (datum \<Rightarrow> 'a \<Rightarrow> 'a res) \<Rightarrow> nat \<Rightarrow> table \<Rightarrow> 'a \<Rightarrow> table \<times> 'a res" where
  "read_row cond f r t a =
     (t, res_bind (cond (data t ! r)) (\<lambda>b. if b then f (data t ! r) a else Inr a))"

lemma bodies_keep_length:
  "keeps_length (assign_body cond f)" "keeps_length (rename_body cond k)" "keeps_length (read_row cond g)"
  by (auto simp: keeps_length_def assign_body_def rename_body_def read_row_def setKey_def
      split: sum.split option.split)

lemma each_assign:
  "data t = ds @ rs \<Longrightarrow> each (assign_body cond f) [length ds..<length (data t)] t c =
     (let (rs', x) = row_loop cond f rs c in (t\<lparr>data := ds @ rs'\<rparr>, x))"
proof (induction rs arbitrary: ds t c)
  case Nil
  then show ?case by simp
next
  case (Cons r rs)
  have up: "[length ds..<length (data t)] = length ds # [length (ds @ [r'])..<length (data t)]" for r'
    using upt_conv_Cons [of "length ds" "length (data t)"] Cons.prems by (simp del: upt_Suc)
  have r: "data t ! length ds = r" using Cons.prems by simp
  have IH: "each (assign_body cond f) [length (ds @ [r'])..<length (data t)] (t\<lparr>data := ds @ r' # rs\<rparr>) c' =
      (let (rs', x) = row_loop cond f rs c' in (t\<lparr>data := ds @ r' # rs'\<rparr>, x))" for r' c'
    using Cons.IH [of "t\<lparr>data := ds @ r' # rs\<rparr>" "ds @ [r']" c'] Cons.prems by simp
  have same: "t\<lparr>data := ds @ r # rs\<rparr> = t" using Cons.prems by simp
  have upd: "(data t)[length ds := d] = ds @ d # rs" for d using Cons.prems by simp
  show ?case
  proof (cases "cond r")
    case (Inl x)
    then show ?thesis unfolding up [of r] by (simp add: assign_body_def r same)
  next
    case (Inr b)
    show ?thesis
    proof (cases b)
      case False
      have "each (assign_body cond f) [length ds..<length (data t)] t c =
          each (assign_body cond f) [length (ds @ [r])..<length (data t)] t c"
        unfolding up [of r] using Inr False by (simp add: assign_body_def r del: length_append)
      with IH [of r c] same Inr False show ?thesis by (simp add: split_def Let_def)
    next
      case True
      show ?thesis
      proof (cases "f r")
        case (Inl x)
        with Inr True same show ?thesis unfolding up [of r] by (simp add: assign_body_def r)
      next
        case d: (Inr d)
        have "each (assign_body cond f) [length ds..<length (data t)] t c =
            each (assign_body cond f) [length (ds @ [d])..<length (data t)] (t\<lparr>data := ds @ d # rs\<rparr>) (Suc c)"
          unfolding up [of d] using Inr True d by (simp add: assign_body_def r upd del: length_append)
        with IH [of d "Suc c"] Inr True d show ?thesis by (simp add: split_def Let_def)
      qed
    qed
  qed
qed

lemma each_rename: "each (rename_body cond k) is t c = key_loop cond k is t c"
  by (induction "is" arbitrary: t c) (simp_all add: rename_body_def split: sum.split)

lemma each_read: "each (read_row cond f) is t a = (t, fold_rows cond f (map ((!) (data t)) is) a)"
proof (induction "is" arbitrary: a)
  case (Cons r rs)
  then show ?case
    by (cases "cond (data t ! r)") (simp_all add: read_row_def split: sum.split)
qed simp

text \<open>
  C33: The range-based loops of the queries, run with iterators from \<open>begin\<close> to \<open>end\<close> that dereference and
  increment, are the recursions over rows that the queries are modelled with: for assignments to
  the matching rows, for changes of their keys, and for loops that only read.
\<close>

theorem loops_by_iterator:
  "for_each (assign_body cond f) t c = (let (ds, x) = row_loop cond f (data t) c in (t\<lparr>data := ds\<rparr>, x)) \<and>
   for_each (rename_body cond k) t c = key_loop cond k [0..<length (data t)] t c \<and>
   for_each (read_row cond g) t a = (t, fold_rows cond g (data t) a)"
  using each_assign [of t "[]" "data t" cond f c]
  by (simp add: for_each_positions bodies_keep_length each_rename each_read map_nth)

end
