(* ===== verification/Key_Condition.thy ===== *)
theory Key_Condition
  imports Query_Data
begin

section \<open>Lookup by key instead of a scan\<close>

text \<open>
  The model of \<open>ComplexQuery::testKeyCondition\<close> in src/src/query/Query.cpp: when the conditions ask for
  one key, the row is looked up in the index of the table instead of searched for.
\<close>

text \<open>
  What the call hands to its function: \<open>None\<close> when it does not call it and returns false,
  \<open>Some None\<close> for \<open>function(false, nullptr)\<close>, and \<open>Some\<close> of the row otherwise.
\<close>

definition testKeyCondition :: "table \<Rightarrow> query_condition list \<Rightarrow> datum option option res" where
  "testKeyCondition t cs =
     res_bind (initCondition t cs) (\<lambda>(cs', k, b).
       if \<not> b then Inr (Some None)
       else if k \<noteq> [] then
         (case table_find t k of
            None \<Rightarrow> Inr (Some None)
          | Some i \<Rightarrow> res_bind (evalCondition cs' (data t ! i)) (\<lambda>e. Inr (Some (if e then Some (data t ! i) else None))))
       else Inr None)"

lemma init_loop_key:
  assumes "init_loop t first cs = Inr (cs', k, True)"
  shows "(first \<noteq> [] \<longrightarrow> k = first) \<and> (k \<noteq> first \<longrightarrow> (\<exists>c \<in> set cs. field c = ''KEY'' \<and> cvalue c = k))"
  using assms
proof (induction t first cs arbitrary: cs' k rule: init_loop.induct)
  case (1 t first)
  then show ?case by simp
next
  case (2 t first c cs)
  show ?case
  proof (cases "field c = ''KEY''")
    case True
    show ?thesis
    proof (cases "first = []")
      case f: True
      with True "2.prems" obtain cs1 where "init_loop t (cvalue c) cs = Inr (cs1, k, True)"
        by (auto simp: res_simps split: if_splits)
      with "2.IH"(1) [OF True _ f] True "2.prems" f show ?thesis by (auto split: if_splits)
    next
      case f: False
      with True "2.prems" obtain cs1 where "first = cvalue c" "init_loop t first cs = Inr (cs1, k, True)"
        by (auto simp: res_simps split: if_splits)
      with "2.IH"(2) [OF True _ f] True "2.prems" f show ?thesis by (auto split: if_splits)
    qed
  next
    case False
    with "2" show ?thesis by (auto simp: res_simps bad_operator_def split: option.splits)
  qed
qed

lemma initCondition_key:
  assumes "initCondition t cs = Inr (cs', k, True)" and "k \<noteq> []" and "where_holds t cs d"
  shows "key d = k"
proof -
  obtain c where "c \<in> set cs" "field c = ''KEY''" "cvalue c = k"
    using init_loop_key [OF assms(1) [unfolded initCondition_def]] assms(2) by auto
  with assms(3) show ?thesis by (auto simp: where_holds_def list_all_iff cond_holds_def)
qed

lemma filter_one_key:
  assumes "keys_ok t" and "\<And>d. d \<in> set (data t) \<Longrightarrow> P d \<Longrightarrow> key d = k"
  shows "filter P (data t) =
    (case table_find t k of None \<Rightarrow> [] | Some i \<Rightarrow> if P (data t ! i) then [data t ! i] else [])"
proof (cases "table_find t k")
  case None
  have "\<not> P d" if d: "d \<in> set (data t)" for d
  proof
    assume "P d"
    with assms(2) d have "key d = k" by simp
    moreover obtain j where "j < length (data t)" "d = data t ! j" using d by (metis in_set_conv_nth)
    ultimately show False using None keys_ok_find [OF assms(1), of k j] by (simp add: table_find_def)
  qed
  then show ?thesis using None by simp
next
  case (Some i)
  then have i: "i < length (data t)" "key (data t ! i) = k"
    using keys_ok_find [OF assms(1)] by (simp_all add: table_find_def)
  have other: "\<not> P (data t ! j)" if "j < length (data t)" "j \<noteq> i" for j
  proof
    assume "P (data t ! j)"
    then have "key (data t ! j) = key (data t ! i)" using assms(2) that(1) i(2) by simp
    from keys_ok_inj [OF assms(1) that(1) i(1) this] that(2) show False by simp
  qed
  have "\<not> P d" if "d \<in> set (take i (data t))" for d
    using that other i(1) by (auto simp: in_set_conv_nth)
  moreover have "\<not> P d" if "d \<in> set (drop (Suc i) (data t))" for d
    using that other i(1) by (auto simp: in_set_conv_nth)
  ultimately have "filter P (take i (data t) @ data t ! i # drop (Suc i) (data t)) =
      (if P (data t ! i) then [data t ! i] else [])"
    by simp
  then show ?thesis using Some id_take_nth_drop [OF i(1)] by simp
qed

text \<open>
  C34: The header calls \<open>testKeyCondition\<close> buggy, and no query uses it. On a table with a consistent index, one value per
  column in every row and its columns in order it is exact, though: when it answers for the conditions, what it hands
  over is what a scan of all rows would find, the one row that meets the conditions, or none. On a table with an
  inconsistent index it is not (below).
\<close>

theorem key_lookup_is_scan:
  assumes "keys_ok t" and "fields_ok t" and "rows_ok t" and "testKeyCondition t cs = Inr (Some r)"
  shows "filter (where_holds t cs) (data t) = (case r of None \<Rightarrow> [] | Some d \<Rightarrow> [d])"
proof -
  obtain cs' k b where i: "initCondition t cs = Inr (cs', k, b)"
    using assms(4) by (auto simp: testKeyCondition_def res_simps)
  show ?thesis
  proof (cases b)
    case False
    with assms(4) i have "r = None" by (simp add: testKeyCondition_def)
    with initCondition_contradiction [of t cs cs' k] i False show ?thesis by simp
  next
    case True
    with assms(4) i have k: "k \<noteq> []" by (auto simp: testKeyCondition_def)
    have one: "filter (where_holds t cs) (data t) = (case table_find t k of None \<Rightarrow> []
        | Some j \<Rightarrow> if where_holds t cs (data t ! j) then [data t ! j] else [])"
      using initCondition_key i True k by (intro filter_one_key [OF assms(1)]) simp
    show ?thesis
    proof (cases "table_find t k")
      case None
      with assms(4) i True k one show ?thesis by (simp add: testKeyCondition_def)
    next
      case (Some j)
      then have "data t ! j \<in> set (data t)" using keys_ok_find [OF assms(1)] by (simp add: table_find_def)
      then have "length (datum (data t ! j)) = length (tfields t)" using assms(3) by (simp add: rows_ok_def)
      with initCondition_eval [of t cs cs' k] i True assms(2)
      have "evalCondition cs' (data t ! j) = Inr (where_holds t cs (data t ! j))" by simp
      with assms(4) i True k one Some show ?thesis by (auto simp: testKeyCondition_def)
    qed
  qed
qed

definition key_cs :: "query_condition list" where
  "key_cs = [mk_cond ''KEY'' ''='' ''y'', mk_cond ''a'' ''>'' ''4'']"

theorem key_lookup_is_scan_witness:
  "filter (where_holds demo_table key_cs) (data demo_table) = [data demo_table ! 1]"
proof -
  have "testKeyCondition demo_table key_cs = Inr (Some (Some (data demo_table ! 1)))" by code_simp
  from key_lookup_is_scan [OF _ _ _ this] show ?thesis using demo_ok(2) by (simp add: query_ok_def table_inv_def)
qed

text \<open>
  After an \<open>UPDATE KEY\<close> that gives two rows the same key, the lookup finds one of them and a scan both.
\<close>

definition conflict_table :: table where
  "conflict_table =
     the (map_of (tables (fst (UpdateQuery_execute ''t'' [''KEY'', ''y''] [mk_cond ''KEY'' ''='' ''x''] demo_db))) ''t'')"

theorem key_lookup_misses:
  "testKeyCondition conflict_table [mk_cond ''KEY'' ''='' ''y''] = Inr (Some (Some (data conflict_table ! 1))) \<and>
   map key (filter (where_holds conflict_table [mk_cond ''KEY'' ''='' ''y'']) (data conflict_table)) = [''y'', ''y'']"
  by code_simp

end
