(* ===== verification/Query_Locality.thy ===== *)
theory Query_Locality
  imports Query_Manage
begin

section \<open>Queries on different tables\<close>

text \<open>
  What a query reads and writes: a query on a table depends on that table and the files only, and
  changes no other table. So the answers to the queries on one table are those of a run
  of these queries alone. The argument is the locale; the model of \<open>execute\<close> interprets it.
\<close>

subsection \<open>Steps that concern one part of the state\<close>

text \<open>
  A step that does not concern a part leaves its view; a step that does has its effect on the view and
  its answer from the view alone.
\<close>

locale partitioned =
  fixes step :: "'q \<Rightarrow> 'w \<Rightarrow> 'w"
    and answer_of :: "'q \<Rightarrow> 'w \<Rightarrow> 'r"
    and view :: "'k \<Rightarrow> 'w \<Rightarrow> 'v"
    and concerns :: "'q \<Rightarrow> 'k option"
    and good :: "'q \<Rightarrow> bool"
    and sound :: "'w \<Rightarrow> bool"
  assumes step_sound: "good q \<Longrightarrow> sound w \<Longrightarrow> sound (step q w)"
    and respects: "good q \<Longrightarrow> sound w \<Longrightarrow> concerns q \<noteq> Some k \<Longrightarrow> view k (step q w) = view k w"
    and consistent: "good q \<Longrightarrow> sound w \<Longrightarrow> sound w' \<Longrightarrow> concerns q = Some k \<Longrightarrow> view k w = view k w' \<Longrightarrow>
      view k (step q w) = view k (step q w') \<and> answer_of q w = answer_of q w'"
begin

lemma fold_sound: "list_all good qs \<Longrightarrow> sound w \<Longrightarrow> sound (fold step qs w)"
  by (induction qs arbitrary: w) (simp_all add: step_sound)

lemma fold_consistent:
  "list_all (\<lambda>q. good q \<and> concerns q = Some k) qs \<Longrightarrow> sound w \<Longrightarrow> sound w' \<Longrightarrow> view k w = view k w' \<Longrightarrow>
   view k (fold step qs w) = view k (fold step qs w')"
proof (induction qs arbitrary: w w')
  case (Cons q qs)
  then have q: "good q" "concerns q = Some k" and "list_all (\<lambda>q. good q \<and> concerns q = Some k) qs" by simp_all
  moreover have "view k (step q w) = view k (step q w')"
    using consistent [OF q(1) Cons.prems(2,3) q(2) Cons.prems(4)] by blast
  ultimately show ?case
    using Cons.IH [of "step q w" "step q w'"] step_sound [OF q(1)] Cons.prems(2,3) by simp
qed simp

lemma projection:
  assumes "list_all good qs" and "sound w"
  shows "view k (fold step qs w) = view k (fold step (filter (\<lambda>q. concerns q = Some k) qs) w)"
  using assms
proof (induction qs arbitrary: w)
  case (Cons q qs)
  then have IH: "view k (fold step qs (step q w)) =
      view k (fold step (filter (\<lambda>q. concerns q = Some k) qs) (step q w))" by (simp add: step_sound)
  show ?case
  proof (cases "concerns q = Some k")
    case True
    with IH show ?thesis by simp
  next
    case False
    let ?f = "filter (\<lambda>q. concerns q = Some k) qs"
    have "view k (step q w) = view k w" using Cons.prems False by (simp add: respects)
    then have "view k (fold step ?f (step q w)) = view k (fold step ?f w)"
      using Cons.prems by (intro fold_consistent) (auto simp: list_all_iff step_sound)
    with IH False show ?thesis by simp
  qed
qed simp

end

subsection \<open>What the queries of a session concern\<close>

text \<open>
  The queries with one target table; QUIT, LIST and LISTEN concern none. \<open>header_table\<close> is the name
  a table file gives; the parser puts that name into the LOAD.
\<close>

definition header_table :: "string \<Rightarrow> string option" where
  "header_table s = Option.bind (getline s) (\<lambda>(l, _). map_option fst (read_metadata l))"

fun concerns :: "query \<Rightarrow> string option" where
  "concerns (LoadTableQuery t f) = Some t"
| "concerns (TruncateTableQuery t) = Some t"
| "concerns (PrintTableQuery t) = Some t"
| "concerns (ComplexQuery oper t ops cs) = Some t"
| "concerns _ = None"

fun session_query :: "files \<Rightarrow> query \<Rightarrow> bool" where
  "session_query fs (LoadTableQuery t f) \<longleftrightarrow> t \<noteq> [] \<and>
     (case map_of fs f of None \<Rightarrow> True | Some s \<Rightarrow> header_table s = None \<or> header_table s = Some t)"
| "session_query fs (TruncateTableQuery t) \<longleftrightarrow> t \<noteq> []"
| "session_query fs (PrintTableQuery t) \<longleftrightarrow> t \<noteq> []"
| "session_query fs (ComplexQuery oper t ops cs) \<longleftrightarrow> t \<noteq> []"
| "session_query fs QuitQuery \<longleftrightarrow> True"
| "session_query fs ListTableQuery \<longleftrightarrow> True"
| "session_query fs (ListenQuery f) \<longleftrightarrow> True"
| "session_query fs _ \<longleftrightarrow> False"

definition table_view :: "string \<Rightarrow> world \<Rightarrow> table option" where
  "table_view t w = map_of (tables (db w)) t"

lemma table_view_simps [simp]:
  "table_view t (w\<lparr>db := d\<rparr>) = map_of (tables d) t" "table_view t (print_out s w) = table_view t w"
  by (simp_all add: table_view_def print_out_def)

lemma store_view: "map_of (tables (db_store n t d)) u = (if u = n then Some t else map_of (tables d) u)"
  by (simp add: db_store_def map_of_um_put)

subsection \<open>Data queries\<close>

lemma db_index_view: "map_of (tables d) t = map_of (tables d') t \<Longrightarrow> db_index d t = db_index d' t"
  by (simp add: db_index_def)

lemma try_table_view:
  assumes "map_of (tables d) t = map_of (tables d') t"
  shows "map_of (tables (fst (try_table h q t body d))) t = map_of (tables (fst (try_table h q t body d'))) t \<and>
     snd (try_table h q t body d) = snd (try_table h q t body d')"
  using assms db_index_view [OF assms] by (simp add: try_table_def store_view split_def Let_def split: sum.split)

lemma complex_view:
  assumes "map_of (tables d) t = map_of (tables d') t"
  shows "map_of (tables (fst (execute_complex oper t ops cs d))) t = map_of (tables (fst (execute_complex oper t ops cs d'))) t \<and>
     snd (execute_complex oper t ops cs d) = snd (execute_complex oper t ops cs d')"
  using assms try_table_view [OF assms] by (cases oper) (simp_all add: execute_defs)

lemma complex_respects: "u \<noteq> t \<Longrightarrow> map_of (tables (fst (execute_complex oper t ops cs d))) u = map_of (tables d) u"
  using complex_only_table [of t d oper ops cs] by (simp add: only_table_def)

subsection \<open>LOAD\<close>

lemma load_rows_name: "load_rows err width n input t = Inr t' \<Longrightarrow> tableName t' = tableName t"
proof (induction "length input" arbitrary: n input t rule: less_induct)
  case less
  show ?case
  proof (cases "getline input")
    case None
    with less.prems show ?thesis by (subst (asm) load_rows.simps) simp
  next
    case (Some p)
    obtain line rest where p: "p = (line, rest)" by fastforce
    show ?thesis
    proof (cases "line = []")
      case True
      with less.prems Some p show ?thesis by (subst (asm) load_rows.simps) simp
    next
      case False
      with less.prems Some p obtain k vs t1 where t1: "insertByIndex k vs t = Inr t1"
        and rec: "load_rows err width (Suc n) rest t1 = Inr t'"
        by (subst (asm) load_rows.simps) (auto simp: res_simps)
      have "tableName t1 = tableName t" using t1 by (auto simp: insertByIndex_def split: if_splits)
      then show ?thesis using less.hyps [OF _ rec] getline_shorter Some p by simp
    qed
  qed
qed

lemma table_with_fields_name: "table_with_fields n fs = Inr t \<Longrightarrow> tableName t = n"
  by (auto simp: table_with_fields_def table_new_def res_simps)

lemma um_contains_view: "map_of m t = map_of m' t \<Longrightarrow> um_contains m t = um_contains m' t"
  by (simp add: um_contains_def)

text \<open>Two loads of one text agree, when the registries agree on the table it names.\<close>

definition load_agrees :: "string option \<Rightarrow> database \<Rightarrow> database \<Rightarrow> database res \<Rightarrow> database res \<Rightarrow> bool" where
  "load_agrees n d d' r r' \<longleftrightarrow>
     (case (r, r') of
        (Inr e, Inr e') \<Rightarrow> (\<exists>u. n = Some (tableName u) \<and> e = db_store (tableName u) u d \<and> e' = db_store (tableName u) u d')
      | (Inl x, Inl x') \<Rightarrow> x = x'
      | _ \<Rightarrow> False)"

lemma load_agrees_bind:
  "(\<And>x. m = Inr x \<Longrightarrow> load_agrees n d d' (f x) (g x)) \<Longrightarrow> load_agrees n d d' (res_bind m f) (res_bind m g)"
  by (cases m) (simp_all add: load_agrees_def)

lemma load_agrees_bind2:
  "(\<And>x y. m = Inr (x, y) \<Longrightarrow> load_agrees n d d' (f x y) (g x y)) \<Longrightarrow>
   load_agrees n d d' (res_bind m (\<lambda>(x, y). f x y)) (res_bind m (\<lambda>(x, y). g x y))"
  by (cases m) (auto simp: load_agrees_def)

lemma load_agrees_dup:
  assumes "map_of (tables d) name = map_of (tables d') name" and "load_agrees n d d' r r'"
  shows "load_agrees n d d' (res_bind (testDuplicate name d) (\<lambda>_. r)) (res_bind (testDuplicate name d') (\<lambda>_. r'))"
proof -
  have "testDuplicate name d = testDuplicate name d'"
    using um_contains_view [OF assms(1)] by (simp add: testDuplicate_def)
  with assms(2) show ?thesis by (cases "testDuplicate name d'") (auto simp: load_agrees_def)
qed

lemma load_agrees_register:
  assumes "n = Some (tableName u)" and "map_of (tables d) (tableName u) = map_of (tables d') (tableName u)"
  shows "load_agrees n d d' (registerTable u d) (registerTable u d')"
  using um_contains_view [OF assms(2)] assms(1) by (auto simp: load_agrees_def registerTable_def db_store_def)

lemma load_view:
  assumes "\<And>t. header_table s = Some t \<Longrightarrow> map_of (tables d) t = map_of (tables d') t"
  shows "load_agrees (header_table s) d d' (loadTableFromStream s f d) (loadTableFromStream s f d')"
  unfolding loadTableFromStream_def
proof (rule load_agrees_bind, rule load_agrees_bind2, rule load_agrees_bind2)
  fix err line1 input1 name fieldCount
  assume "or_throw (LoadFromStreamException (err @ ''Failed to read table metadata line.'')) (getline s) = Inr (line1, input1)"
    and "or_throw (LoadFromStreamException (err @ ''Failed to parse table metadata.'')) (read_metadata line1) = Inr (name, fieldCount)"
  then have h: "header_table s = Some name" by (simp add: header_table_def res_simps)
  note v = assms [OF h]
  have reg: "load_agrees (header_table s) d d' (registerTable u d) (registerTable u d')" if "tableName u = name" for u
    using h v that by (intro load_agrees_register) simp_all
  show "load_agrees (header_table s) d d'
      (res_bind (testDuplicate name d) (\<lambda>_.
       res_bind (or_throw (LoadFromStreamException (err @ ''Failed to load field names.'')) (getline input1)) (\<lambda>(line2, input2).
       res_bind (read_fields err fieldCount line2) (\<lambda>all. res_bind (strip_key err all) (\<lambda>fs.
       res_bind (table_with_fields name fs) (\<lambda>t0. res_bind (load_rows err (fieldCount - 1) 2 input2 t0) (\<lambda>t. registerTable t d)))))))
      (res_bind (testDuplicate name d') (\<lambda>_.
       res_bind (or_throw (LoadFromStreamException (err @ ''Failed to load field names.'')) (getline input1)) (\<lambda>(line2, input2).
       res_bind (read_fields err fieldCount line2) (\<lambda>all. res_bind (strip_key err all) (\<lambda>fs.
       res_bind (table_with_fields name fs) (\<lambda>t0. res_bind (load_rows err (fieldCount - 1) 2 input2 t0) (\<lambda>t. registerTable t d')))))))"
    by (intro load_agrees_dup [OF v] load_agrees_bind2 load_agrees_bind reg)
      (use load_rows_name table_with_fields_name in blast)
qed

subsection \<open>All queries of a session\<close>

lemma execute_files:
  "session_query fs q \<Longrightarrow> files (fst (execute q w)) = files w"
proof (cases q)
  case (ComplexQuery oper t ops cs)
  then show ?thesis by (simp add: split_def Let_def)
qed (auto simp: LoadTableQuery_execute_def TruncateTableQuery_execute_def PrintTableQuery_execute_def
    QuitQuery_execute_def ListTableQuery_execute_def ListenQuery_execute_def print_out_def Let_def
    split: option.split sum.split exn.split)

lemma execute_respects:
  assumes "session_query (files w) q" and "concerns q \<noteq> Some t"
  shows "table_view t (fst (execute q w)) = table_view t w"
proof (cases q)
  case (LoadTableQuery n f)
  show ?thesis
  proof (cases "map_of (files w) f")
    case None
    with LoadTableQuery show ?thesis by (simp add: LoadTableQuery_execute_def)
  next
    case (Some s)
    have "load_agrees (header_table s) (db w) (db w) (loadTableFromStream s f (db w)) (loadTableFromStream s f (db w))"
      by (rule load_view) simp
    with LoadTableQuery Some assms show ?thesis
      by (auto simp: LoadTableQuery_execute_def load_agrees_def store_view split: sum.splits) (simp add: table_view_def)
  qed
next
  case (ComplexQuery oper n ops cs)
  with assms(2) complex_respects [of t n oper ops cs "db w"] show ?thesis
    by (simp add: split_def Let_def) (simp add: table_view_def)
next
  case (TruncateTableQuery n)
  with assms(2) show ?thesis
    by (auto simp: TruncateTableQuery_execute_def store_view split: sum.split exn.split) (simp_all add: table_view_def)
qed (use assms in \<open>auto simp: PrintTableQuery_execute_def QuitQuery_execute_def ListTableQuery_execute_def
    ListenQuery_execute_def Let_def split: sum.split exn.split\<close>)

lemma execute_consistent:
  assumes q: "session_query (files w) q" "concerns q = Some t" and f: "files w' = files w"
    and v: "table_view t w = table_view t w'"
  shows "table_view t (fst (execute q w)) = table_view t (fst (execute q w')) \<and> snd (execute q w) = snd (execute q w')"
proof (cases q)
  case (LoadTableQuery n g)
  then have n: "n = t" using q(2) by simp
  show ?thesis
  proof (cases "map_of (files w) g")
    case None
    with LoadTableQuery f v show ?thesis by (simp add: LoadTableQuery_execute_def)
  next
    case (Some s)
    have "load_agrees (header_table s) (db w) (db w') (loadTableFromStream s g (db w)) (loadTableFromStream s g (db w'))"
      using LoadTableQuery Some q(1) n v by (intro load_view) (auto simp: table_view_def)
    with LoadTableQuery Some q(1) n v f show ?thesis
      by (auto simp: LoadTableQuery_execute_def load_agrees_def store_view split: sum.splits)
  qed
next
  case (ComplexQuery oper n ops cs)
  with q v complex_view [of "db w" t "db w'" oper ops cs] show ?thesis
    by (simp add: split_def Let_def table_view_def)
next
  case (TruncateTableQuery n)
  with q v db_index_view [of "db w" t "db w'"] show ?thesis
    by (auto simp: TruncateTableQuery_execute_def store_view table_view_def split: sum.split exn.split)
next
  case (PrintTableQuery n)
  with q v db_index_view [of "db w" t "db w'"] show ?thesis
    by (auto simp: PrintTableQuery_execute_def print_out_def table_view_def Let_def split: sum.split exn.split)
qed (use q in auto)

definition exec :: "query \<Rightarrow> world \<Rightarrow> world" where
  "exec q w = fst (execute q w)"

interpretation sq: partitioned exec "\<lambda>q w. snd (execute q w)" table_view concerns "session_query fs" "\<lambda>w. files w = fs"
  for fs
  by unfold_locales (auto simp: exec_def execute_files intro: execute_respects dest: execute_consistent)

end
