(* ===== verification/Table_Tokens.thy ===== *)
theory Table_Tokens
  imports Pool_Results Query_Locality
begin

section \<open>One task per table\<close>

text \<open>
  What fetches, submissions and callbacks of the task queue do to one table, in sessions of queries on
  single tables that load each table once: the announcements of the table to the workers are
  counted, a fetch that takes a task of the table takes its queued LOAD or the head of its queue and
  uses an announcement up, and a callback keeps the queue and announces the table of its own task only.
\<close>

subsection \<open>Announcements\<close>

text \<open>The newest keys of a table in the index, and the table's places in the list of blocked tables.\<close>

definition newest :: "string \<Rightarrow> global_index \<Rightarrow> nat" where
  "newest t g = length (filter (\<lambda>k. tbl k = t \<and> current (latestVersion g) k) (heap g))"

definition latest :: "string \<Rightarrow> global_index \<Rightarrow> nat" where
  "latest t g = unat (um_get 0 (latestVersion g) t)"

definition versions_ok :: "string \<Rightarrow> global_index \<Rightarrow> bool" where
  "versions_ok t g \<longleftrightarrow> list_all (\<lambda>k. tbl k = t \<longrightarrow> unat (version k) \<le> latest t g) (heap g)"

definition announced :: "string \<Rightarrow> task_queue \<Rightarrow> nat" where
  "announced t tq = newest t (globalIndex tq) + count_list (waitingTables tq) t"

lemma upsert_other:
  "u \<noteq> t \<Longrightarrow> newest u (upsert (Some t) p tick hs g) = newest u g \<and> latest u (upsert (Some t) p tick hs g) = latest u g \<and>
     versions_ok u (upsert (Some t) p tick hs g) = versions_ok u g"
proof -
  assume u: "u \<noteq> t"
  have "filter (\<lambda>k. tbl k = u \<and> current (um_put t v (latestVersion g)) k) (heap g) =
      filter (\<lambda>k. tbl k = u \<and> current (latestVersion g) k) (heap g)" for v
    using u by (intro filter_cong) (auto simp: current_def map_of_um_put)
  with u show ?thesis
    by (simp add: newest_def latest_def versions_ok_def upsert_def pq_push_def um_get_put Let_def)
qed

lemma upsert_self:
  assumes "versions_ok t g" and "latest t g + 1 < 2 ^ 64"
  shows "newest t (upsert (Some t) p tick hs g) = 1" and "latest t (upsert (Some t) p tick hs g) = latest t g + 1"
    and "versions_ok t (upsert (Some t) p tick hs g)"
proof -
  let ?v = "um_get 0 (latestVersion g) t"
  have v: "unat (?v + 1) = latest t g + 1"
    using assms(2) by (simp add: latest_def unat_plus_if_size word_size)
  have old: "\<not> (tbl k = t \<and> version k = ?v + 1)" if "k \<in> set (heap g)" for k
    using assms(1) that v by (auto simp: versions_ok_def list_all_iff)
  have "filter (\<lambda>k. tbl k = t \<and> current (um_put t (?v + 1) (latestVersion g)) k) (heap g) = []"
    using old unfolding filter_empty_conv by (metis current_def fun_upd_same map_of_um_put option.inject)
  then show "newest t (upsert (Some t) p tick hs g) = 1"
    by (simp add: newest_def upsert_def pq_push_def Let_def current_def map_of_um_put)
  show l: "latest t (upsert (Some t) p tick hs g) = latest t g + 1"
    using v by (simp add: latest_def upsert_def Let_def um_get_put)
  show "versions_ok t (upsert (Some t) p tick hs g)"
    using assms(1) v unfolding versions_ok_def l
    by (auto simp: list_all_iff upsert_def pq_push_def Let_def)
qed

text \<open>
  The bookkeeping of one table in the index: its keys are not newer than the latest, which is at
  most \<open>B\<close>.
\<close>

definition index_ok :: "nat \<Rightarrow> string \<Rightarrow> global_index \<Rightarrow> bool" where
  "index_ok B t g \<longleftrightarrow> versions_ok t g \<and> latest t g \<le> B \<and> newest t g \<le> 1"

lemma index_ok_upsert:
  assumes "index_ok B t g" and "Suc B < 2 ^ 64"
  shows "index_ok (Suc B) t (upsert (Some t) p tick hs g)" and "newest t (upsert (Some t) p tick hs g) = 1"
proof -
  have v: "versions_ok t g" "latest t g + 1 < 2 ^ 64" using assms by (simp_all add: index_ok_def)
  from upsert_self [OF v] assms(1) show "index_ok (Suc B) t (upsert (Some t) p tick hs g)"
    "newest t (upsert (Some t) p tick hs g) = 1" by (simp_all add: index_ok_def)
qed

lemma index_ok_upsert_other: "u \<noteq> t \<Longrightarrow> index_ok B u (upsert (Some t) p tick hs g) = index_ok B u g"
  using upsert_other [of u t p tick hs g] by (simp add: index_ok_def)

lemma index_ok_mono: "index_ok B t g \<Longrightarrow> B \<le> B' \<Longrightarrow> index_ok B' t g"
  by (simp add: index_ok_def)

lemma announce_index:
  "globalIndex (announce t tq) =
    (case tqueue (tq_of t tq) of [] \<Rightarrow> globalIndex tq
     | h # _ \<Rightarrow> upsert (Some t) (priority h) (fetchTick tq) (seq h) (globalIndex tq))"
  by (simp add: announce_def split: list.split)

lemma announce_other:
  "u \<noteq> t \<Longrightarrow> newest u (globalIndex (announce t tq)) = newest u (globalIndex tq) \<and>
     index_ok B u (globalIndex (announce t tq)) = index_ok B u (globalIndex tq) \<and>
     announced u (announce t tq) = announced u tq"
  using upsert_other [of u t] index_ok_upsert_other [of u t]
  by (simp add: announce_index announced_def split: list.split)

lemma announce_self:
  assumes "index_ok B t (globalIndex tq)" and "Suc B < 2 ^ 64"
  shows "index_ok (Suc B) t (globalIndex (announce t tq))"
  using index_ok_upsert(1) [OF assms] index_ok_mono [OF assms(1), of "Suc B"]
  by (simp add: announce_index split: list.split)

subsection \<open>Taking a table out of the index\<close>

lemma pick_newest:
  assumes "pickBest sel g = (r, g')"
  shows "newest u g' + (if r = Some u then 1 else 0) = newest u g" and "index_ok B u g \<Longrightarrow> index_ok B u g'"
    and "latestVersion g' = latestVersion g"
proof -
  obtain k h' where p: "pick_loop sel (latestVersion g) (heap g) = (k, h')" by fastforce
  with assms have r: "r = map_option tbl k" "g' = g\<lparr>heap := h'\<rparr>" by (simp_all add: pickBest_def)
  from pick_loop_spec [OF p] obtain stale where st:
    "mset (heap g) = mset h' + mset stale + (case k of None \<Rightarrow> {#} | Some k \<Rightarrow> {#k#})"
    "list_all (\<lambda>k. \<not> current (latestVersion g) k) stale"
    "case k of None \<Rightarrow> h' = [] | Some k \<Rightarrow> current (latestVersion g) k"
    by blast
  let ?P = "\<lambda>k. tbl k = u \<and> current (latestVersion g) k"
  have n: "newest u g = size (filter_mset ?P (mset (heap g)))" by (simp add: newest_def flip: size_mset)
  have s: "filter_mset ?P (mset stale) = {#}" using st(2) by (induction stale) auto
  have n': "newest u g' = size (filter_mset ?P (mset h'))" by (simp add: newest_def r flip: size_mset)
  show c: "newest u g' + (if r = Some u then 1 else 0) = newest u g"
    unfolding n n' st(1) using s st(3) r by (cases k) auto
  show l: "latestVersion g' = latestVersion g" using r by simp
  have "set h' \<subseteq> set (heap g)" using arg_cong [OF st(1), of set_mset] by auto
  then have "versions_ok u g \<Longrightarrow> versions_ok u g'" by (auto simp: versions_ok_def list_all_iff latest_def r)
  with c l show "index_ok B u g \<Longrightarrow> index_ok B u g'" by (auto simp: index_ok_def latest_def split: if_splits)
qed

lemma take_table_tokens:
  assumes "take_table sel tq = (r, tq')"
  shows "announced u tq' + (if r = Some u then 1 else 0) \<le> announced u tq \<and>
     (index_ok B u (globalIndex tq) \<longrightarrow> index_ok B u (globalIndex tq')) \<and> fetchTick tq' = fetchTick tq \<and>
     newest u (globalIndex tq') + (if r = Some u then 1 else 0) \<le> newest u (globalIndex tq) \<and> loadBlocked tq' = loadBlocked tq"
  using assms
proof (induction rule: take_table_rule)
  case (none tq g)
  from pick_newest(1,2) [OF none, where u = u] pick_newest(3) [OF none] show ?case by (auto simp: announced_def)
next
  case (skip tq g t r tq')
  from pick_newest(1,2) [OF skip(1), where u = u] pick_newest(3) [OF skip(1)] skip(3) show ?case by (auto simp: announced_def split: if_splits)
next
  case (block tq g t r tq')
  from pick_newest(1,2) [OF block(1), where u = u] pick_newest(3) [OF block(1)] block(4) show ?case by (auto simp: announced_def split: if_splits)
next
  case (take tq g t)
  from pick_newest(1,2) [OF take(1), where u = u] pick_newest(3) [OF take(1)] show ?case by (auto simp: announced_def split: if_splits)
qed

lemma fold_announce_other:
  "u \<notin> set ts \<Longrightarrow> newest u (globalIndex (fold announce ts tq)) = newest u (globalIndex tq) \<and>
     index_ok B u (globalIndex (fold announce ts tq)) = index_ok B u (globalIndex tq)"
  using announce_other by (induction ts arbitrary: tq) auto

lemma fold_announce_once:
  assumes "count_list ts u \<le> 1" and "index_ok B u (globalIndex tq)" and "Suc B < 2 ^ 64"
  shows "index_ok (Suc B) u (globalIndex (fold announce ts tq))"
proof (cases "u \<in> set ts")
  case True
  then obtain as bs where ts: "ts = as @ u # bs" "u \<notin> set as" by (auto dest: split_list_first)
  with assms(1) have "u \<notin> set bs" by (simp add: count_list_0_iff)
  with ts fold_announce_other [of u as tq B] fold_announce_other [of u bs "announce u (fold announce as tq)" "Suc B"]
    announce_self [of B u "fold announce as tq"] assms(2,3)
  show ?thesis by simp
next
  case False
  with fold_announce_other [OF this, of tq B] assms(2) show ?thesis by (simp add: index_ok_mono [of B])
qed

subsection \<open>The tasks of a session\<close>

lemma session_table: "session_query fs q \<Longrightarrow> concerns q = Some t \<Longrightarrow> resolveTableId q = t \<and> t \<noteq> []"
  by (cases q) (auto simp: resolveTableId_def)

lemma complex_type_plain: "complex_type oper \<notin> set barrier_types \<union> set dep_types"
  by (cases oper) (simp_all add: barrier_types_def dep_types_def)

lemma session_type:
  "session_query fs q \<Longrightarrow> (concerns q = None \<longleftrightarrow> queryType q \<in> set barrier_types) \<and>
     queryType q \<notin> {QT_Dump, QT_Drop, QT_CopyTable}"
  using complex_type_plain by (cases q) (auto simp: barrier_types_def dep_types_def)

lemma session_load: "session_query fs q \<Longrightarrow> queryType q = QT_Load \<longleftrightarrow> (\<exists>t f. q = LoadTableQuery t f)"
  using complex_type_plain by (cases q) (auto simp: dep_types_def)

text \<open>A queued task carries its query, has the table of its query, was not dropped and waits for nothing.\<close>

definition item_plain :: "files \<Rightarrow> scheduled_item \<Rightarrow> bool" where
  "item_plain fs i \<longleftrightarrow> session_query fs (squery i) \<and> itype i = queryType (squery i) \<and>
     tableId i = resolveTableId (squery i) \<and> \<not> droppedFlag i \<and>
     (itype i = QT_Load \<longrightarrow> load_file (depends i) = 0 \<and> load_table (depends i) = 0 \<and> pending_tables (depends i) = [])"

definition tq_plain :: "files \<Rightarrow> task_queue \<Rightarrow> bool" where
  "tq_plain fs tq \<longleftrightarrow> tq_inv tq \<and> waitingFile (depManager tq) = [] \<and> waitingTable (depManager tq) = [] \<and>
     list_all (item_plain fs) (loadQueue tq) \<and> list_all (item_plain fs) (barriers tq) \<and>
     (\<forall>t. list_all (\<lambda>i. item_plain fs i \<and> tableId i = t) (tqueue (tq_of t tq)))"

text \<open>A task in the hands of a worker.\<close>

definition task_plain :: "files \<Rightarrow> executable_task \<Rightarrow> bool" where
  "task_plain fs x \<longleftrightarrow> session_query fs (x_query x) \<and> x_type x = queryType (x_query x) \<and> \<not> execOverride x \<and>
     c_type (onCompleted x) = x_type x \<and> c_seq (onCompleted x) = x_seq x \<and>
     c_table (onCompleted x) = resolveTableId (x_query x) \<and>
     c_queue (onCompleted x) \<in> {None, Some (resolveTableId (x_query x))} \<and>
     (x_type x \<in> set barrier_types \<longrightarrow> c_queue (onCompleted x) = None) \<and>
     (x_type x = QT_Load \<longrightarrow> pending_tables (c_deps (onCompleted x)) = [] \<and>
        c_actions (onCompleted x) \<in> {[UpdateDeps], [RegisterTable, UpdateDeps]}) \<and>
     (x_type x \<noteq> QT_Load \<longrightarrow> c_actions (onCompleted x) = [UpdateDeps])"

lemma build_plain:
  assumes "buildExecutableFromScheduled i tq = Inr x" and i: "item_plain fs i"
  shows "task_plain fs x \<and> x_core x = core i"
proof -
  note b = build_simps [OF assms(1)]
  have q: "x_query x = squery i" using assms(1) by (auto simp: buildExecutableFromScheduled_def res_simps)
  have ty: "queryType (squery i) \<notin> {QT_Dump, QT_Drop, QT_CopyTable}"
    using session_type i by (auto simp: item_plain_def)
  have ne: "tableId i \<noteq> []" using i by (auto simp: item_plain_def resolveTableId_def controlTableId_def)
  have "c_actions (onCompleted x) \<in> {[UpdateDeps], [RegisterTable, UpdateDeps]}"
    "itype i \<noteq> QT_Load \<Longrightarrow> c_actions (onCompleted x) = [UpdateDeps]"
    using assms(1) ty i ne by (auto simp: buildExecutableFromScheduled_def res_simps classifyActions_def item_plain_def
        split: if_splits option.splits)
  moreover have "itype i \<in> set barrier_types \<Longrightarrow> tableId i = controlTableId"
    using i session_type [of fs "squery i"] by (cases "squery i") (auto simp: item_plain_def resolveTableId_def)
  ultimately show ?thesis
    using assms(1) i b q by (auto simp: task_plain_def item_plain_def buildExecutableFromScheduled_def res_simps)
qed

subsection \<open>Fetching\<close>

definition queue_of :: "string \<Rightarrow> task_queue \<Rightarrow> task_core list" where
  "queue_of t tq = map core (tqueue (tq_of t tq))"

definition on_table :: "string \<Rightarrow> task_core \<Rightarrow> bool" where
  "on_table t c \<longleftrightarrow> concerns (snd (snd c)) = Some t"

definition loads_of :: "string \<Rightarrow> task_queue \<Rightarrow> task_core multiset" where
  "loads_of t tq = filter_mset (on_table t) (mset (map core (loadQueue tq)))"

text \<open>What a fetch does to one table: nothing, or it takes its queued LOAD or the head of its queue.\<close>

definition untouched :: "string \<Rightarrow> task_queue \<Rightarrow> task_queue \<Rightarrow> bool" where
  "untouched u tq tq' \<longleftrightarrow> queue_of u tq' = queue_of u tq \<and> loads_of u tq' \<subseteq># loads_of u tq \<and> announced u tq' \<le> announced u tq"

definition fetch_lane :: "string \<Rightarrow> task_queue \<Rightarrow> task_queue \<Rightarrow> executable_task option \<Rightarrow> bool" where
  "fetch_lane u tq tq' x \<longleftrightarrow>
     (case x of
        None \<Rightarrow> untouched u tq tq'
      | Some y \<Rightarrow>
          if \<not> on_table u (x_core y) then untouched u tq tq'
          else if x_type y = QT_Load then
            queue_of u tq' = queue_of u tq \<and> add_mset (x_core y) (loads_of u tq') \<subseteq># loads_of u tq \<and> announced u tq' \<le> announced u tq
          else queue_of u tq = x_core y # queue_of u tq' \<and> loads_of u tq' \<subseteq># loads_of u tq \<and> announced u tq' + 1 \<le> announced u tq)"

lemma announced_same: "globalIndex tq' = globalIndex tq \<Longrightarrow> waitingTables tq' = waitingTables tq \<Longrightarrow> announced u tq' = announced u tq"
  by (simp add: announced_def)

lemma queue_of_same: "tableQs tq' = tableQs tq \<Longrightarrow> queue_of u tq' = queue_of u tq"
  by (simp add: queue_of_def tq_of_def)

lemma tq_plain_same:
  "tq_plain fs tq \<Longrightarrow> tq_inv tq' \<Longrightarrow> tableQs tq' = tableQs tq \<Longrightarrow> depManager tq' = depManager tq \<Longrightarrow>
   set (loadQueue tq') \<subseteq> set (loadQueue tq) \<Longrightarrow> set (barriers tq') \<subseteq> set (barriers tq) \<Longrightarrow> tq_plain fs tq'"
  by (auto simp: tq_plain_def tq_of_def list_all_iff)

lemma getFetched_lane:
  assumes g: "getFetched sel tq = (l, t, tq')" and p: "tq_plain fs tq"
  shows "tq_plain fs tq'" and "fetchTick tq' = fetchTick tq" and "queue_of u tq' = queue_of u tq"
    and "announced u tq' + (if t = Some u then 1 else 0) \<le> announced u tq"
    and "loads_of u tq = loads_of u tq' + filter_mset (on_table u) (load_core l)"
    and "index_ok B u (globalIndex tq) \<Longrightarrow> index_ok B u (globalIndex tq')"
proof -
  obtain tq1 where 1: "take_load tq = (l, tq1)" and 2: "take_table sel tq1 = (t, tq')"
    using g by (auto simp: getFetched_def split: prod.splits)
  have s1: "globalIndex tq1 = globalIndex tq \<and> waitingTables tq1 = waitingTables tq \<and> fetchTick tq1 = fetchTick tq"
    using 1 by (auto simp: take_load_def split: if_splits)
  note tok = take_table_tokens [OF 2, where u = u and B = B]
  note spec = getFetched_spec [OF g]
  have inv: "tq_inv tq'" using tq_inv_getFetched(1) [OF g] p by (simp add: tq_plain_def)
  have "set (loadQueue tq') \<subseteq> set (loadQueue tq)" using spec by (cases l) auto
  with p inv spec show "tq_plain fs tq'" by (intro tq_plain_same [OF p]) auto
  show "fetchTick tq' = fetchTick tq" using tok s1 by simp
  show "queue_of u tq' = queue_of u tq" using spec by (intro queue_of_same) simp
  show "announced u tq' + (if t = Some u then 1 else 0) \<le> announced u tq"
    using tok s1 announced_same [of tq1 tq u] by simp
  show "loads_of u tq = loads_of u tq' + filter_mset (on_table u) (load_core l)"
    using spec by (cases l) (auto simp: loads_of_def load_core_def)
  show "index_ok B u (globalIndex tq) \<Longrightarrow> index_ok B u (globalIndex tq')" using tok s1 by simp
qed

lemma barrier_lane:
  assumes f: "fetchBarrier tq = Inr (tq', x)" and p: "tq_plain fs tq"
  shows "tq_plain fs tq' \<and> depManager tq' = depManager tq \<and> fetchTick tq' = fetchTick tq + (if x = None then 0 else 1) \<and>
     (\<forall>y. x = Some y \<longrightarrow> task_plain fs y) \<and>
     (announced u tq \<le> 1 \<and> index_ok B u (globalIndex tq) \<and> Suc B < 2 ^ 64 \<longrightarrow>
        fetch_lane u tq tq' x \<and> index_ok (if x = None then B else Suc B) u (globalIndex tq'))"
proof (cases "barriers tq = [] \<or> running tq > 0")
  case True
  with f have "tq' = tq" "x = None" by (auto simp: fetchBarrier_def split: list.splits)
  with p show ?thesis by (simp add: fetch_lane_def untouched_def)
next
  case False
  then obtain b bs where b: "barriers tq = b # bs" and r: "running tq = 0" by (cases "barriers tq") (auto simp: word_gt_0)
  let ?tq1 = "tq\<lparr>barriers := bs, quitFlag := (quitFlag tq \<or> itype b = QT_Quit)\<rparr>"
  let ?tq2 = "fold announce (waitingTables tq) (count_fetch ?tq1)"
  from f b r obtain y where y: "buildExecutableFromScheduled b ?tq1 = Inr y" and x: "x = Some y"
    and tq': "tq' = ?tq2\<lparr>waitingTables := [], loadBlocked := False\<rparr>"
    by (auto simp: fetchBarrier_def Let_def res_simps)
  have ib: "item_plain fs b" and inv: "tq_inv tq" using p b by (simp_all add: tq_plain_def)
  have inv': "tq_inv tq'" using fetchBarrier_ok [OF f inv] by (auto simp: fetch_ok_def)
  have "tq_plain fs tq'" using p b by (intro tq_plain_same [OF p inv']) (auto simp: tq')
  moreover have "itype b \<in> set barrier_types" using inv b by (simp add: tq_inv_def barrier_ok_def)
  then have nt: "\<not> on_table u (x_core y)" for u
    using build_plain [OF y ib] session_type [of fs "squery b"] ib by (auto simp: on_table_def core_def item_plain_def)
  have "fetch_lane u tq tq' x \<and> index_ok (Suc B) u (globalIndex tq')"
    if a: "announced u tq \<le> 1" and i: "index_ok B u (globalIndex tq)" and B: "Suc B < 2 ^ 64"
  proof -
    have c: "count_list (waitingTables tq) u \<le> 1" using a by (simp add: announced_def)
    have g: "globalIndex (count_fetch ?tq1) = globalIndex tq" by (simp add: count_fetch_def)
    have ok: "index_ok (Suc B) u (globalIndex tq')"
      using fold_announce_once [OF c, of B "count_fetch ?tq1"] i B g by (simp add: tq')
    have "announced u tq' \<le> announced u tq"
    proof (cases "u \<in> set (waitingTables tq)")
      case True
      then have "1 \<le> count_list (waitingTables tq) u" by (metis count_list_0_iff less_one not_le)
      with ok show ?thesis by (simp add: announced_def tq' index_ok_def)
    next
      case False
      with fold_announce_other [OF False, of "count_fetch ?tq1" B] g show ?thesis by (simp add: announced_def tq')
    qed
    moreover have "queue_of u tq' = queue_of u tq" by (intro queue_of_same) (simp add: tq')
    moreover have "loads_of u tq' = loads_of u tq" by (simp add: loads_of_def tq')
    ultimately show ?thesis using ok nt by (simp add: x fetch_lane_def untouched_def)
  qed
  moreover have "depManager tq' = depManager tq" by (simp add: tq')
  moreover have "fetchTick (fold announce ts tq0) = fetchTick tq0" for ts tq0 by (induction ts arbitrary: tq0) simp_all
  then have "fetchTick tq' = fetchTick tq + 1" by (simp add: tq' count_fetch_def)
  ultimately show ?thesis using build_plain [OF y ib] by (simp add: x)
qed

lemma count_fetch_lane [simp]:
  "tq_plain fs (count_fetch tq) = tq_plain fs tq" "queue_of u (count_fetch tq) = queue_of u tq"
  "loads_of u (count_fetch tq) = loads_of u tq" "announced u (count_fetch tq) = announced u tq"
  "globalIndex (count_fetch tq) = globalIndex tq" "fetchTick (count_fetch tq) = fetchTick tq + 1"
  by (simp_all add: tq_plain_def queue_of_def loads_of_def announced_def tq_of_def count_fetch_def tq_inv_def)

lemma pop_table_lane:
  assumes "tq_plain fs tq" and "tqueue (tq_of t tq) \<noteq> []"
  shows "tq_plain fs (pop_table t tq)" and "queue_of u (pop_table t tq) = (if u = t then tl (queue_of u tq) else queue_of u tq)"
    and "loads_of u (pop_table t tq) = loads_of u tq" and "announced u (pop_table t tq) = announced u tq"
    and "fetchTick (pop_table t tq) = fetchTick tq"
proof -
  have q: "tq_of u (pop_table t tq) = (if u = t then (tq_of t tq)\<lparr>tqueue := tl (tqueue (tq_of t tq))\<rparr> else tq_of u tq)" for u
    by (simp add: pop_table_def tq_of_set_tq Let_def)
  have tl: "list_all P (tqueue (tq_of t tq)) \<Longrightarrow> list_all P (tl (tqueue (tq_of t tq)))" for P
    by (cases "tqueue (tq_of t tq)") auto
  show "tq_plain fs (pop_table t tq)"
    using assms(1) tl tq_inv_pop_table [of tq t] by (auto simp: tq_plain_def q)
  show "queue_of u (pop_table t tq) = (if u = t then tl (queue_of u tq) else queue_of u tq)"
    by (simp add: queue_of_def q map_tl)
  show "loads_of u (pop_table t tq) = loads_of u tq" by (simp add: loads_of_def)
  show "announced u (pop_table t tq) = announced u tq" by (simp add: announced_def)
  show "fetchTick (pop_table t tq) = fetchTick tq" by (simp add: pop_table_def set_tq_def Let_def)
qed

lemma judge_plain:
  "item_plain fs i \<Longrightarrow> load_ok i \<Longrightarrow> judgeLoadDeps i tq = (tq, False)"
  "item_plain fs (head_of t tq) \<Longrightarrow> judgeNormalDeps t tq = (tq, False)"
  using session_type [of fs "squery (head_of t tq)"]
  by (simp_all add: judgeLoadDeps_def judgeNormalDeps_def item_plain_def load_ok_def head_of_def Let_def)

text \<open>What a fetch keeps, and what it does to each table that is announced at most once.\<close>

definition fetch_plain :: "files \<Rightarrow> task_queue \<Rightarrow> task_queue \<Rightarrow> executable_task option \<Rightarrow> bool" where
  "fetch_plain fs tq tq' x \<longleftrightarrow> tq_plain fs tq' \<and> depManager tq' = depManager tq \<and> fetchTick tq' = fetchTick tq + (if x = None then 0 else 1) \<and>
     (\<forall>y. x = Some y \<longrightarrow> task_plain fs y) \<and>
     (\<forall>u B. announced u tq \<le> 1 \<and> index_ok B u (globalIndex tq) \<and> Suc B < 2 ^ 64 \<longrightarrow>
        fetch_lane u tq tq' x \<and> index_ok (if x = None then B else Suc B) u (globalIndex tq'))"

lemma untouched_trans: "untouched u a b \<Longrightarrow> untouched u b c \<Longrightarrow> untouched u a c"
  unfolding untouched_def by (metis order_trans subset_mset.order_trans)

lemma fetch_lane_later: "untouched u a b \<Longrightarrow> fetch_lane u b c x \<Longrightarrow> fetch_lane u a c x"
  using untouched_trans [of u a b c]
  by (auto simp: fetch_lane_def untouched_def split: option.splits if_splits intro: subset_mset.order_trans)

lemma fetch_loop_plain:
  assumes f: "fetch_loop sel tq = Inr (tq', x)" and p: "tq_plain fs tq"
  shows "fetch_plain fs tq tq' x"
proof -
  obtain l t tq1 where g: "getFetched sel tq = (l, t, tq1)" by (metis prod_cases3)
  note gl = getFetched_lane [OF g p]
  have un: "untouched u tq tq1" for u
    using gl(3) [of u] gl(4) [of u] gl(5) [of u] by (auto simp: untouched_def split: if_splits)
  note inv = p [unfolded tq_plain_def, THEN conjunct1]
  show ?thesis
  proof (cases "l = None \<and> t = None")
    case True
    with f g have "fetchBarrier tq1 = Inr (tq', x)" by (subst (asm) fetch_loop.simps) simp
    note bl = barrier_lane [OF this gl(1)]
    show ?thesis unfolding fetch_plain_def
    proof (intro conjI allI impI)
      fix u B
      assume a: "announced u tq \<le> 1 \<and> index_ok B u (globalIndex tq) \<and> Suc B < 2 ^ 64"
      then have "announced u tq1 \<le> 1 \<and> index_ok B u (globalIndex tq1) \<and> Suc B < 2 ^ 64"
        using gl(6) [of B u] un [of u] by (auto simp: untouched_def)
      with bl [of u B] fetch_lane_later [OF un] show "fetch_lane u tq tq' x"
        and "index_ok (if x = None then B else Suc B) u (globalIndex tq')" by auto
    qed (use bl gl(2) getFetched_spec [OF g] in auto)
  next
    case ne: False
    show ?thesis
    proof (cases "prefer_load l (map_option (\<lambda>t. head_of t tq1) t)")
      case True
      with ne obtain i where l: "l = Some i" by (cases l; cases t) (auto simp: prefer_load_def)
      have "i \<in> set (loadQueue tq)" using getFetched_spec [OF g] l by auto
      then have i: "item_plain fs i" "load_ok i" using p by (auto simp: tq_plain_def tq_inv_def list_all_iff)
      with f g ne True l obtain y where y: "buildExecutableFromScheduled i tq1 = Inr y" and x: "x = Some y"
        and tq': "tq' = count_fetch tq1"
        by (subst (asm) fetch_loop.simps) (auto simp: judge_plain res_simps)
      note b = build_plain [OF y i(1)]
      have ty: "x_type y = QT_Load" using i(2) build_simps [OF y] by (simp add: load_ok_def)
      have "fetch_lane u tq tq' x \<and> index_ok (Suc B) u (globalIndex tq')" if "index_ok B u (globalIndex tq)" for u B
        using gl(3) [of u] gl(4) [of u] gl(5) [of u] gl(6) [OF that] un [of u] b ty index_ok_mono [of B u _ "Suc B"]
        by (auto simp: fetch_lane_def x tq' l load_core_def untouched_def split: if_splits)
      with gl(1,2) b getFetched_spec [OF g] show ?thesis by (simp add: fetch_plain_def x tq') blast
    next
      case False
      with ne obtain v where t: "t = Some v" by (cases l; cases t) (auto simp: prefer_load_def)
      have q: "tqueue (tq_of v tq1) \<noteq> []" using getFetched_spec [OF g] t by auto
      then have "head_of v tq1 \<in> set (tqueue (tq_of v tq1))" by (simp add: head_of_def)
      then have h: "item_plain fs (head_of v tq1)" "tableId (head_of v tq1) = v" "queued_ok (head_of v tq1)"
        using gl(1) tq_inv_queue [of tq1 v] unfolding tq_plain_def list_all_iff by blast+
      with f g ne False t obtain y where y: "buildExecutableFromScheduled (head_of v tq1) tq1 = Inr y" and x: "x = Some y"
        and tq': "tq' = count_fetch (pop_table v tq1)"
        by (subst (asm) fetch_loop.simps) (auto simp: judge_plain res_simps)
      note b = build_plain [OF y h(1)]
      note pl = pop_table_lane [OF gl(1) q]
      have ty: "x_type y \<noteq> QT_Load" using h(3) build_simps [OF y] by (simp add: queued_ok_def)
      have nb: "queryType (squery (head_of v tq1)) \<notin> set barrier_types" using h by (auto simp: item_plain_def queued_ok_def)
      have on: "on_table u (x_core y) \<longleftrightarrow> u = v" for u
        using b h session_type [of fs "squery (head_of v tq1)"] session_table [of fs "squery (head_of v tq1)"] nb
        by (auto simp: on_table_def core_def item_plain_def)
      have hd: "queue_of v tq1 = x_core y # tl (queue_of v tq1)"
        using b q by (cases "tqueue (tq_of v tq1)") (simp_all add: queue_of_def head_of_def)
      have "fetch_lane u tq tq' x \<and> index_ok (Suc B) u (globalIndex tq')" if "index_ok B u (globalIndex tq)" for u B
        using gl(3) [of u] gl(4) [of u] gl(6) [OF that] un [of u] on [of u] ty hd pl(2-4) [of u] index_ok_mono [of B u _ "Suc B"]
        by (auto simp: fetch_lane_def x tq' t untouched_def split: if_splits)
      with gl(1,2) b pl(1,5) getFetched_spec [OF g] show ?thesis by (simp add: fetch_plain_def x tq') blast
    qed
  qed
qed

lemma fetchNext_plain:
  assumes "fetchNext sel tq = Inr (tq', x)" and "tq_plain fs tq"
  shows "fetch_plain fs tq tq' x"
proof (cases "readyToFetch tq")
  case True
  with assms fetch_loop_plain show ?thesis by (simp add: fetchNext_def)
next
  case False
  with assms show ?thesis by (auto simp: fetchNext_def fetch_plain_def fetch_lane_def untouched_def)
qed

subsection \<open>Submission\<close>

definition the_core :: "u64 \<Rightarrow> query \<Rightarrow> task_core" where
  "the_core n q = (n, queryType q, q)"

text \<open>The first LOAD of a file and a table finds no earlier task on them.\<close>

definition unscheduled :: "query \<Rightarrow> dependency_manager \<Rightarrow> bool" where
  "unscheduled q dm \<longleftrightarrow>
     (case q of LoadTableQuery t f \<Rightarrow> f \<notin> set (um_keys (lastScheduledFile dm)) \<and> t \<notin> set (um_keys (lastScheduledTable dm))
      | _ \<Rightarrow> True)"

lemma first_load_mark:
  assumes "itype i = QT_Load" and "extractFilePath (squery i) \<notin> set (um_keys (lastScheduledFile dm))"
    and "tableId i \<notin> set (um_keys (lastScheduledTable dm))" and "\<not> droppedFlag i"
  shows "fst (markScheduled i QT_Load dm) = i\<lparr>depends := LoadDeps 0 0 (extractFilePath (squery i)) []\<rparr>"
    and "waitingFile (snd (markScheduled i QT_Load dm)) = waitingFile dm" and "waitingTable (snd (markScheduled i QT_Load dm)) = waitingTable dm"
    and "set (um_keys (lastScheduledFile (snd (markScheduled i QT_Load dm)))) = insert (extractFilePath (squery i)) (set (um_keys (lastScheduledFile dm)))"
    and "set (um_keys (lastScheduledTable (snd (markScheduled i QT_Load dm)))) = insert (tableId i) (set (um_keys (lastScheduledTable dm)))"
proof -
  have f: "um_get no_schedule (lastScheduledFile dm) (extractFilePath (squery i)) = no_schedule"
    and t: "um_get no_schedule (lastScheduledTable dm) (tableId i) = no_schedule"
    using assms(2,3) by (simp_all add: um_get_def map_of_eq_None_iff [THEN iffD2])
  have "i\<lparr>droppedFlag := False, depends := d\<rparr> = i\<lparr>depends := d\<rparr>" for d using assms(4) by simp
  note s = markScheduled_def mark_load_def markScheduledFile_def markScheduledTable_def mark_entry_def Let_def no_schedule_def
  show "fst (markScheduled i QT_Load dm) = i\<lparr>depends := LoadDeps 0 0 (extractFilePath (squery i)) []\<rparr>"
    using f t assms(1,4) by (simp add: s)
  show "waitingFile (snd (markScheduled i QT_Load dm)) = waitingFile dm" "waitingTable (snd (markScheduled i QT_Load dm)) = waitingTable dm"
    using f t assms(1) by (simp_all add: s)
  show "set (um_keys (lastScheduledFile (snd (markScheduled i QT_Load dm)))) = insert (extractFilePath (squery i)) (set (um_keys (lastScheduledFile dm)))"
    and "set (um_keys (lastScheduledTable (snd (markScheduled i QT_Load dm)))) = insert (tableId i) (set (um_keys (lastScheduledTable dm)))"
    using f t assms(1) by (simp_all add: s fst_set_um_put)
qed

lemma enqueue_lane:
  assumes "tq_plain fs tq" and "item_plain fs i" and "queued_ok i"
  shows "tq_plain fs (enqueue i tq)" and "queue_of u (enqueue i tq) = queue_of u tq @ (if u = tableId i then [core i] else [])"
    and "loads_of u (enqueue i tq) = loads_of u tq" and "globalIndex (enqueue i tq) = globalIndex tq"
    and "waitingTables (enqueue i tq) = waitingTables tq" and "depManager (enqueue i tq) = depManager tq"
    and "fetchTick (enqueue i tq) = fetchTick tq"
proof -
  have q: "tq_of u (enqueue i tq) =
      (if u = tableId i then (tq_of u tq)\<lparr>tqueue := tqueue (tq_of u tq) @ [i]\<rparr> else tq_of u tq)" for u
    by (simp add: enqueue_def tq_of_set_tq Let_def)
  show "tq_plain fs (enqueue i tq)"
    using assms(1,2) tq_inv_enqueue [OF _ assms(3), of tq] unfolding tq_plain_def
    by (simp add: q) (simp add: enqueue_def Let_def)
  show "queue_of u (enqueue i tq) = queue_of u tq @ (if u = tableId i then [core i] else [])"
    by (simp add: queue_of_def q)
  show "loads_of u (enqueue i tq) = loads_of u tq" by (simp add: loads_of_def enqueue_def Let_def)
  show "globalIndex (enqueue i tq) = globalIndex tq" "waitingTables (enqueue i tq) = waitingTables tq"
    "depManager (enqueue i tq) = depManager tq" "fetchTick (enqueue i tq) = fetchTick tq"
    by (simp_all add: enqueue_def set_tq_def Let_def)
qed

text \<open>What a submission adds to each table.\<close>

definition submit_lane :: "string \<Rightarrow> u64 \<Rightarrow> query \<Rightarrow> task_queue \<Rightarrow> task_queue \<Rightarrow> bool" where
  "submit_lane u n q tq tq' \<longleftrightarrow>
     queue_of u tq' = queue_of u tq @ (if concerns q = Some u \<and> queryType q \<noteq> QT_Load then [the_core n q] else []) \<and>
     loads_of u tq' = loads_of u tq + (if concerns q = Some u \<and> queryType q = QT_Load then {#the_core n q#} else {#})"

definition scheduled_sub :: "query \<Rightarrow> dependency_manager \<Rightarrow> dependency_manager \<Rightarrow> bool" where
  "scheduled_sub q dm dm' \<longleftrightarrow>
     (case q of
        LoadTableQuery t f \<Rightarrow>
          set (um_keys (lastScheduledFile dm')) \<subseteq> insert f (set (um_keys (lastScheduledFile dm))) \<and>
          set (um_keys (lastScheduledTable dm')) \<subseteq> insert t (set (um_keys (lastScheduledTable dm)))
      | _ \<Rightarrow> set (um_keys (lastScheduledFile dm')) \<subseteq> set (um_keys (lastScheduledFile dm)) \<and>
             set (um_keys (lastScheduledTable dm')) \<subseteq> set (um_keys (lastScheduledTable dm)))"

lemma prepare_core: "core (item_of (prepare q n)) = the_core n q"
  by (simp add: core_def item_of_def prepare_def the_core_def)

lemma prepare_item:
  "session_query fs q \<Longrightarrow> queryType q \<noteq> QT_Load \<Longrightarrow> item_plain fs (item_of (prepare q n))"
  by (simp add: item_plain_def item_of_def prepare_def)

lemma registerTask_lane:
  assumes p: "tq_plain fs tq" and q: "session_query fs q" and nq: "\<not> quitFlag tq" and un: "unscheduled q (depManager tq)"
    and reg: "registerTask (prepare q n) tq = (tq', r)"
  shows "tq_plain fs tq' \<and> globalIndex tq' = globalIndex tq \<and> waitingTables tq' = waitingTables tq \<and>
     fetchTick tq' = fetchTick tq \<and> scheduled_sub q (depManager tq) (depManager tq') \<and> submit_lane u n q tq tq'"
proof -
  let ?i = "item_of (prepare q n)" and ?tq1 = "tq\<lparr>submitted := submitted tq + 1\<rparr>"
  have inv: "tq_inv tq'" using registerTask_spec [OF reg] p by (simp add: tq_plain_def)
  have i: "itype ?i = queryType q" "squery ?i = q" "tableId ?i = resolveTableId q" "\<not> droppedFlag ?i" "core ?i = the_core n q"
    using prepare_core by (simp_all add: item_of_def prepare_def)
  note ty = session_type [OF q]
  consider (load) t f where "q = LoadTableQuery t f" | (barrier) "queryType q \<in> set barrier_types" "queryType q \<noteq> QT_Load"
    | (data) t where "concerns q = Some t" "queryType q \<notin> set barrier_types" "queryType q \<noteq> QT_Load"
    using session_load [OF q] ty by (metis option.exhaust)
  then show ?thesis
  proof cases
    case load
    have path: "extractFilePath (squery ?i) = f" "tableId ?i = t"
      using i load q by (simp_all add: resolveTableId_def)
    then have fresh: "extractFilePath (squery ?i) \<notin> set (um_keys (lastScheduledFile (depManager tq)))"
      "tableId ?i \<notin> set (um_keys (lastScheduledTable (depManager tq)))"
      using un load by (simp_all add: unscheduled_def)
    note m = first_load_mark [OF _ fresh i(4)]
    obtain i' dm where mk: "markScheduled ?i QT_Load (depManager tq) = (i', dm)" by fastforce
    have ld: "itype ?i = QT_Load" using i load by simp
    have i': "i' = ?i\<lparr>depends := LoadDeps 0 0 f []\<rparr>" using m(1) [OF ld] mk path by simp
    have ip: "item_plain fs i'" using q i load by (simp add: item_plain_def i')
    have tq': "tq' = ?tq1\<lparr>depManager := dm, loadQueue := loadQueue tq @ [i']\<rparr>"
      using reg nq ld mk by (auto simp: registerTask_def Let_def)
    have c: "core i' = the_core n q" using i by (simp add: i' core_def)
    have "tq_plain fs tq'"
      using p inv ip m(2,3) [OF ld] mk by (simp add: tq_plain_def tq' tq_of_def)
    moreover have "scheduled_sub q (depManager tq) (depManager tq')"
      using m(4,5) [OF ld] mk path load by (auto simp: scheduled_sub_def tq')
    moreover have "submit_lane u n q tq tq'"
      using c load by (simp add: submit_lane_def tq' queue_of_def tq_of_def loads_of_def on_table_def the_core_def)
    ultimately show ?thesis by (simp add: tq')
  next
    case barrier
    then have "tq' = ?tq1\<lparr>barriers := barriers tq @ [?i]\<rparr>"
      using reg nq i by (auto simp: registerTask_def Let_def barrier_types_def)
    moreover have "concerns q = None" using ty barrier by simp
    ultimately show ?thesis
      using p inv barrier prepare_item [OF q barrier(2)]
      by (cases q) (auto simp: tq_plain_def tq_of_def scheduled_sub_def submit_lane_def queue_of_def loads_of_def)
  next
    case data
    have tq': "tq' = enqueue ?i ?tq1"
      using reg nq i ty data by (auto simp: registerTask_def Let_def barrier_types_def)
    have p1: "tq_plain fs ?tq1" using p by (simp add: tq_plain_def tq_of_def tq_inv_def)
    have "queued_ok ?i"
      using data ty i by (cases "queryType q") (simp_all add: queued_ok_def item_of_def deps_ok_def prepare_def)
    note e = enqueue_lane [OF p1 prepare_item [OF q data(3)] this]
    have "scheduled_sub q (depManager tq) (depManager tq)" by (cases q) (auto simp: scheduled_sub_def)
    moreover have "tableId ?i = t" using i session_table [OF q data(1)] by simp
    ultimately show ?thesis
      using e data i by (simp add: tq' submit_lane_def queue_of_def tq_of_def loads_of_def)
  qed
qed

subsection \<open>Completion\<close>

lemma notify_nobody:
  assumes "waitingFile (depManager tq) = []" and "waitingTable (depManager tq) = []" and "notify ty k s tq = (ready, tq')"
  shows "ready = [] \<and> (\<exists>dm. tq' = tq\<lparr>depManager := dm\<rparr> \<and> waitingFile dm = [] \<and> waitingTable dm = [] \<and>
     lastScheduledFile dm = lastScheduledFile (depManager tq) \<and> lastScheduledTable dm = lastScheduledTable (depManager tq))"
  using assms by (cases ty) (auto simp: notify_def notifyCompleted_def release_def split: if_splits intro: exI [of _ "depManager tq"])

text \<open>Only the dependency records change, and nobody waits.\<close>

definition notified :: "task_queue \<Rightarrow> task_queue \<Rightarrow> bool" where
  "notified tq tq' \<longleftrightarrow> (\<exists>dm. tq' = tq\<lparr>depManager := dm\<rparr> \<and> waitingFile dm = [] \<and> waitingTable dm = [] \<and>
     lastScheduledFile dm = lastScheduledFile (depManager tq) \<and> lastScheduledTable dm = lastScheduledTable (depManager tq))"

lemma notified_trans: "notified a b \<Longrightarrow> notified b c \<Longrightarrow> notified a c"
  unfolding notified_def by auto

lemma updateRecords_plain:
  assumes w: "waitingFile (depManager tq) = []" "waitingTable (depManager tq) = []" and x: "task_plain fs x"
    and u: "updateDependencyRecords (onCompleted x) tq = (rf, rt, tq')"
  shows "rf = [] \<and> rt = [] \<and> notified tq tq'"
proof -
  let ?c = "onCompleted x"
  have ty: "c_type ?c \<notin> {QT_Dump, QT_Drop, QT_CopyTable}"
    using session_type x by (auto simp: task_plain_def)
  have one: "ready = [] \<and> notified a b" if "notify t k s a = (ready, b)" "waitingFile (depManager a) = []"
    "waitingTable (depManager a) = []" for t k s a b ready
    using notify_nobody [OF that(2,3,1)] by (simp add: notified_def)
  show ?thesis
  proof (cases "c_type ?c = QT_Load")
    case True
    then have pend: "pending_tables (c_deps ?c) = []" using x by (auto simp: task_plain_def)
    obtain r1 tq1 where n1: "notify File (load_path (c_deps ?c)) (c_seq ?c) tq = (r1, tq1)" by fastforce
    note o1 = one [OF n1 w]
    then have w1: "waitingFile (depManager tq1) = []" "waitingTable (depManager tq1) = []" by (auto simp: notified_def)
    obtain r2 tq2 where n2: "notify Table_dep (c_table ?c) (c_seq ?c) tq1 = (r2, tq2)" by fastforce
    note o2 = one [OF n2 w1]
    from u True pend n1 n2 o1 o2 show ?thesis
      using notified_trans by (auto simp: updateDependencyRecords_def Let_def)
  next
    case False
    show ?thesis
    proof (cases "c_table ?c = []")
      case True
      with u False ty have "rf = [] \<and> rt = [] \<and> tq' = tq" by (auto simp: updateDependencyRecords_def)
      with w show ?thesis by (simp add: notified_def exI [of _ "depManager tq"])
    next
      case ne: False
      obtain r1 tq1 where n1: "notify Table_dep (c_table ?c) (c_seq ?c) tq = (r1, tq1)" by fastforce
      from u False ne ty one [OF n1 w] n1 show ?thesis by (auto simp: updateDependencyRecords_def Let_def)
    qed
  qed
qed

lemma applyUpdateDeps_plain:
  assumes "waitingFile (depManager tq) = []" "waitingTable (depManager tq) = []" and "task_plain fs x"
    and "applyUpdateDeps fs' (onCompleted x) (tq, d) = (tq', d')"
  shows "notified tq tq' \<and> d' = d"
proof -
  obtain rf rt tq1 where u: "updateDependencyRecords (onCompleted x) tq = (rf, rt, tq1)" by (metis prod_cases3)
  from updateRecords_plain [OF assms(1-3) u] u assms(4) show ?thesis by (simp add: applyUpdateDeps_def)
qed

text \<open>
  What a part of a callback of a task on a table does: it keeps every task in its place, and it announces that table
  at most \<open>n\<close> times and no other.
\<close>

definition callback_part :: "nat \<Rightarrow> files \<Rightarrow> string \<Rightarrow> task_queue \<Rightarrow> task_queue \<Rightarrow> bool" where
  "callback_part n fs t tq tq' \<longleftrightarrow> tq_plain fs tq' \<and> fetchTick tq' = fetchTick tq \<and>
     lastScheduledFile (depManager tq') = lastScheduledFile (depManager tq) \<and>
     lastScheduledTable (depManager tq') = lastScheduledTable (depManager tq) \<and>
     waitingTables tq' = waitingTables tq \<and> barriers tq' = barriers tq \<and> loadBlocked tq' = loadBlocked tq \<and>
     readyToFetch tq' = readyToFetch tq \<and> (\<forall>u. queue_of u tq' = queue_of u tq \<and> loads_of u tq' = loads_of u tq) \<and>
     (\<forall>u. u \<noteq> t \<longrightarrow> newest u (globalIndex tq') = newest u (globalIndex tq) \<and>
        (\<forall>B. index_ok B u (globalIndex tq') = index_ok B u (globalIndex tq))) \<and>
     (\<forall>B. index_ok B t (globalIndex tq) \<and> B + n < 2 ^ 64 \<longrightarrow> index_ok (B + n) t (globalIndex tq')) \<and>
     (n = 0 \<longrightarrow> globalIndex tq' = globalIndex tq)"

lemma callback_part_trans:
  assumes 1: "callback_part n fs t a b" and 2: "callback_part m fs t b c"
  shows "callback_part (n + m) fs t a c"
proof -
  have "index_ok (B + (n + m)) t (globalIndex c)" if "index_ok B t (globalIndex a)" "B + (n + m) < 2 ^ 64" for B
  proof -
    have "index_ok (B + n) t (globalIndex b)" using 1 that unfolding callback_part_def by simp
    moreover have "B + n + m < 2 ^ 64" using that(2) by simp
    ultimately have "index_ok (B + n + m) t (globalIndex c)" using 2 unfolding callback_part_def by blast
    then show ?thesis by (simp add: add.assoc)
  qed
  with 1 2 show ?thesis unfolding callback_part_def by simp
qed

lemma announce_part: "tq_plain fs tq \<Longrightarrow> callback_part 1 fs t tq (announce t tq)"
  using announce_other [of _ t tq] announce_self [of _ t tq]
  by (simp add: callback_part_def tq_plain_def queue_of_def loads_of_def tq_of_def)

lemma notified_part:
  assumes "notified tq tq'" and "tq_plain fs tq"
  shows "callback_part 0 fs t tq tq'"
proof -
  obtain dm where tq': "tq' = tq\<lparr>depManager := dm\<rparr>" "waitingFile dm = []" "waitingTable dm = []"
    "lastScheduledFile dm = lastScheduledFile (depManager tq)" "lastScheduledTable dm = lastScheduledTable (depManager tq)"
    using assms(1) by (auto simp: notified_def)
  have "tq_inv tq'" using assms(2) tq' by (simp add: tq_plain_def tq_inv_def dm_ok_def waiting_items_def um_items_def)
  with assms(2) tq' show ?thesis by (simp add: callback_part_def tq_plain_def tq_of_def queue_of_def loads_of_def)
qed

lemma register_part:
  assumes p: "tq_plain fs tq" and late: "\<forall>c \<in> set (queue_of t tq). s \<le> fst c"
  shows "callback_part 1 fs t tq (registerTableQueue t s tq)"
proof (cases "registered (tq_of t tq)")
  case True
  with p show ?thesis
    by (auto simp: registerTableQueue_def Let_def callback_part_def intro: index_ok_mono)
next
  case False
  let ?q = "tq_of t tq"
  let ?tq1 = "set_tq t (?q\<lparr>registered := True, registerSeq := s\<rparr>) tq"
  have "map (\<lambda>p. if seq p < s then p\<lparr>droppedFlag := True\<rparr> else p) (tqueue ?q) = tqueue ?q"
    using late by (intro map_idI) (auto simp: queue_of_def not_less)
  then have r: "registerTableQueue t s tq = announce t ?tq1"
    using False by (simp add: registerTableQueue_def Let_def)
  have q: "tqueue (tq_of u ?tq1) = tqueue (tq_of u tq)" for u by (simp add: tq_of_set_tq)
  have "tq_inv ?tq1" using p tq_inv_queue [of tq t] by (simp add: tq_plain_def tq_inv_set_tq)
  with p have "tq_plain fs ?tq1" by (simp add: tq_plain_def q)
  moreover have "callback_part 0 fs t tq ?tq1"
    using calculation by (simp add: callback_part_def queue_of_def loads_of_def q) (simp add: set_tq_def)
  ultimately show ?thesis using callback_part_trans [of 0 fs t tq ?tq1 1] announce_part by (simp add: r)
qed

lemma callback_partD: "callback_part n fs t tq tq' \<Longrightarrow> tq_plain fs tq'"
  by (simp add: callback_part_def)

lemma callback_lane:
  assumes p: "tq_plain fs tq" and x: "task_plain fs x"
    and late: "x_type x = QT_Load \<longrightarrow> (\<forall>c \<in> set (queue_of (resolveTableId (x_query x)) tq). x_seq x \<le> fst c)"
    and o: "onCompleted_locked fs' (onCompleted x) (tq, d) = (tq', d')"
  shows "\<exists>n \<le> 2. callback_part n fs (resolveTableId (x_query x)) tq tq' \<and> (concerns (x_query x) = None \<longrightarrow> n = 0)"
proof -
  let ?t = "resolveTableId (x_query x)" and ?c = "onCompleted x"
  have upd: "callback_part 0 fs ?t a b" if "applyUpdateDeps fs' ?c (a, d0) = (b, d1)" "tq_plain fs a" for a b d0 d1
    using applyUpdateDeps_plain [OF _ _ x that(1)] that(2) notified_part by (simp add: tq_plain_def)
  obtain tq2 d2 where a: "applyActions fs' (c_actions ?c) ?c (tq, d) = (tq2, d2)" by fastforce
  have act: "\<exists>n \<le> 1. callback_part n fs ?t tq tq2 \<and> (x_type x \<noteq> QT_Load \<longrightarrow> n = 0)"
  proof (cases "c_actions ?c = [UpdateDeps]")
    case True
    with a upd [OF _ p, of d tq2 d2] show ?thesis by auto
  next
    case False
    with x have l: "x_type x = QT_Load" "c_actions ?c = [RegisterTable, UpdateDeps]" "c_type ?c = QT_Load"
      "c_table ?c = ?t" "c_seq ?c = x_seq x"
      by (auto simp: task_plain_def)
    note r = register_part [OF p, of ?t "x_seq x"]
    let ?tq1 = "registerTableQueue ?t (x_seq x) tq"
    have r1: "callback_part 1 fs ?t tq ?tq1" using r late l(1) by blast
    have "applyUpdateDeps fs' ?c (?tq1, d) = (tq2, d2)"
      using a l by (simp add: applyRegisterTable_def Let_def)
    from callback_part_trans [OF r1 upd [OF this callback_partD [OF r1]]] l(1) show ?thesis by auto
  qed
  then obtain n where n: "n \<le> 1" "callback_part n fs ?t tq tq2" "x_type x \<noteq> QT_Load \<longrightarrow> n = 0" by blast
  have nl: "x_type x \<noteq> QT_Load" "c_queue ?c = None" if "concerns (x_query x) = None"
    using that x session_type [of fs "x_query x"] by (auto simp: task_plain_def barrier_types_def)
  show ?thesis
  proof (cases "c_queue ?c")
    case None
    with o a n nl show ?thesis by (auto simp: onCompleted_locked_def intro!: exI [of _ n])
  next
    case (Some u)
    with x have u: "u = ?t" by (auto simp: task_plain_def)
    have "tq' = announce ?t tq2" using o a Some u by (simp add: onCompleted_locked_def)
    with callback_part_trans [OF n(2) announce_part [OF callback_partD [OF n(2)]]] n(1) nl Some
    show ?thesis by (intro exI [of _ "n + 1"]) auto
  qed
qed

end
