(* ===== verification/Table_Lanes.thy ===== *)
theory Table_Lanes
  imports Table_Tokens
begin

section \<open>The life of a table in a session\<close>

text \<open>
  A table seen as a small state machine: it waits for its LOAD, is free, or has one task with the workers. The
  theory says which states the parts of the model are in, and that submissions, fetches, answers and
  callbacks are its moves; its tasks are answered in the order of their submission, and the registry
  holds the table as the serial run of its answered queries leaves it.
\<close>

subsection \<open>The tasks of a table\<close>

text \<open>The first \<open>n\<close> queries under their numbers, and those on one table.\<close>

definition numbered :: "query list \<Rightarrow> nat \<Rightarrow> task_core list" where
  "numbered qs n = map (\<lambda>i. the_core (of_nat (Suc i)) (qs ! i)) [0..<n]"

definition lane_tasks :: "query list \<Rightarrow> string \<Rightarrow> nat \<Rightarrow> task_core list" where
  "lane_tasks qs t n = filter (on_table t) (numbered qs n)"

definition queries_of :: "task_core list \<Rightarrow> query list" where
  "queries_of cs = map (snd \<circ> snd) cs"

lemma numbered_Suc: "numbered qs (Suc n) = numbered qs n @ [the_core (of_nat (Suc n)) (qs ! n)]"
  by (simp add: numbered_def)

lemma lane_tasks_0 [simp]: "lane_tasks qs t 0 = []"
  by (simp add: lane_tasks_def numbered_def)

lemma lane_tasks_Suc:
  "lane_tasks qs t (Suc n) =
     lane_tasks qs t n @ (if concerns (qs ! n) = Some t then [the_core (of_nat (Suc n)) (qs ! n)] else [])"
  unfolding lane_tasks_def numbered_Suc by (simp add: on_table_def the_core_def)

lemma queries_of_lane:
  "n \<le> length qs \<Longrightarrow> queries_of (lane_tasks qs t n) = filter (\<lambda>q. concerns q = Some t) (take n qs)"
proof (induction n)
  case (Suc n)
  then show ?case by (simp add: lane_tasks_Suc queries_of_def the_core_def take_Suc_conv_app_nth)
qed (simp add: queries_of_def)

lemma lane_nth:
  "k < length (lane_tasks qs t n) \<Longrightarrow>
   \<exists>i < n. lane_tasks qs t n ! k = the_core (of_nat (Suc i)) (qs ! i) \<and> take k (lane_tasks qs t n) = lane_tasks qs t i"
proof (induction n)
  case (Suc n)
  show ?case
  proof (cases "k < length (lane_tasks qs t n)")
    case True
    from Suc.IH [OF this] obtain i where "i < n" "lane_tasks qs t n ! k = the_core (of_nat (Suc i)) (qs ! i)"
      "take k (lane_tasks qs t n) = lane_tasks qs t i" by blast
    with True show ?thesis by (intro exI [of _ i]) (simp add: lane_tasks_Suc nth_append)
  next
    case False
    with Suc.prems have "k = length (lane_tasks qs t n)" "concerns (qs ! n) = Some t"
      by (auto simp: lane_tasks_Suc split: if_splits)
    then show ?thesis by (intro exI [of _ n]) (simp add: lane_tasks_Suc nth_append)
  qed
qed simp

lemma lane_sorted:
  assumes "n < 2 ^ 64"
  shows "sorted_wrt (\<lambda>a b. fst a < fst b) (lane_tasks qs t n)"
proof -
  have "sorted_wrt (\<lambda>i j. (of_nat (Suc i) :: u64) < of_nat (Suc j)) [0..<n]"
  proof (rule sorted_wrt_mono_rel [OF _ sorted_wrt_upt])
    fix i j assume "i \<in> set [0..<n]" "j \<in> set [0..<n]" "i < j"
    with assms have "Suc i < 2 ^ 64" "Suc j < 2 ^ 64" "i < j" by simp_all
    then show "(of_nat (Suc i) :: u64) < of_nat (Suc j)"
      unfolding word_less_nat_alt unat_of_nat by simp
  qed
  then have "sorted_wrt (\<lambda>a b. fst a < fst b) (numbered qs n)"
    by (simp add: numbered_def sorted_wrt_map the_core_def del: of_nat_Suc)
  then show ?thesis unfolding lane_tasks_def by (rule sorted_wrt_filter)
qed

subsection \<open>The life of a table\<close>

text \<open>
  A table waits for its LOAD, is free, has one task in the hands of a worker, or one whose answer is
  known and whose callback is to come. \<open>k\<close> of its tasks \<open>P\<close> are answered; \<open>Q\<close> is its queue, \<open>un\<close> and
  \<open>fl\<close> are its tasks with workers that are not answered or whose callback is to come, \<open>ld\<close> is its queued
  LOAD and \<open>an\<close> the number of its announcements.
\<close>

datatype lane_state = Unloaded | Free | Taken | Answered

definition lane_ok :: "lane_state \<Rightarrow> nat \<Rightarrow> task_core list \<Rightarrow> task_core list \<Rightarrow> task_core multiset \<Rightarrow>
    task_core multiset \<Rightarrow> task_core multiset \<Rightarrow> nat \<Rightarrow> bool" where
  "lane_ok st k P Q un fl ld an \<longleftrightarrow>
     (case st of
        Unloaded \<Rightarrow> k = 0 \<and> P \<noteq> [] \<and> Q = tl P \<and> un = {#} \<and> fl = {#} \<and> ld \<subseteq># {#hd P#} \<and> an = 0
      | Free \<Rightarrow> k \<le> length P \<and> Q = drop k P \<and> un = {#} \<and> fl = {#} \<and> ld = {#} \<and> an \<le> (if P = [] then 0 else 1)
      | Taken \<Rightarrow> k < length P \<and> Q = drop (Suc k) P \<and> un = {#P ! k#} \<and> fl = {#P ! k#} \<and> ld = {#} \<and> an = 0
      | Answered \<Rightarrow> 0 < k \<and> k \<le> length P \<and> Q = drop k P \<and> un = {#} \<and> fl = {#P ! (k - 1)#} \<and> ld = {#} \<and> an = 0)"

lemma lane_facts:
  assumes "lane_ok st k P Q un fl ld an"
  shows "an \<le> 1" and "size fl \<le> 1" and "k \<le> length P"
  using assms by (auto simp: lane_ok_def split: lane_state.splits if_splits)

lemma lane_post:
  "lane_ok st k P Q un fl ld an \<Longrightarrow> P \<noteq> [] \<Longrightarrow> lane_ok st k (P @ [c]) (Q @ [c]) un fl ld an"
  by (auto simp: lane_ok_def nth_append split: lane_state.splits)

lemma lane_load:
  "lane_ok st k [] Q un fl ld an \<Longrightarrow> lane_ok Unloaded 0 [c] Q un fl (ld + {#c#}) an \<and> k = 0"
  by (auto simp: lane_ok_def split: lane_state.splits)

lemma lane_untouched:
  "lane_ok st k P Q un fl ld an \<Longrightarrow> ld' \<subseteq># ld \<Longrightarrow> an' \<le> an \<Longrightarrow> lane_ok st k P Q un fl ld' an'"
  by (auto simp: lane_ok_def split: lane_state.splits if_splits intro: subset_mset.order_trans)

lemma lane_fetch_load:
  assumes "lane_ok st k P Q un fl ld an" and "add_mset c ld' \<subseteq># ld" and "an' \<le> an"
  shows "lane_ok Taken k P Q (un + {#c#}) (fl + {#c#}) ld' an'"
proof (cases st)
  case Unloaded
  with assms(1) have "ld \<subseteq># {#hd P#}" by (simp add: lane_ok_def)
  with assms(2) have "add_mset c ld' \<subseteq># {#hd P#}" by (rule subset_mset.order_trans)
  then have "c = hd P" "ld' = {#}" by (auto simp: insert_subset_eq_iff)
  with assms Unloaded show ?thesis by (auto simp: lane_ok_def hd_conv_nth drop_Suc)
qed (use assms in \<open>auto simp: lane_ok_def\<close>)

lemma lane_fetch_head:
  assumes "lane_ok st k P (c # Q) un fl ld an" and "ld' \<subseteq># ld" and "an' + 1 \<le> an"
  shows "lane_ok Taken k P Q (un + {#c#}) (fl + {#c#}) ld' an'"
proof (cases st)
  case Free
  with assms have d: "drop k P = c # Q" "an' = 0" "un = {#}" "fl = {#}" "ld' = {#}"
    by (auto simp: lane_ok_def split: if_splits)
  then have "k < length P" by (metis drop_all list.distinct(1) not_le)
  moreover from this d have "P ! k = c" "drop (Suc k) P = Q" by (metis Cons_nth_drop_Suc list.inject)+
  ultimately show ?thesis using d by (simp add: lane_ok_def)
qed (use assms in \<open>auto simp: lane_ok_def\<close>)

lemma lane_answer:
  assumes "lane_ok st k P Q (add_mset c un) fl ld an"
  shows "lane_ok Answered (Suc k) P Q un fl ld an \<and> k < length P \<and> P ! k = c"
  using assms by (auto simp: lane_ok_def split: lane_state.splits)

lemma lane_called:
  assumes "lane_ok st k P Q un (add_mset c fl) ld an" and "un \<subseteq># fl" and "an' \<le> 1"
  shows "lane_ok Free k P Q un fl ld an' \<and> k \<le> length P \<and> Q = drop k P \<and> 0 < k \<and> P ! (k - 1) = c"
  using assms by (auto simp: lane_ok_def split: lane_state.splits)

subsection \<open>The invariant of a table\<close>

text \<open>The tasks of the table among some tasks, and the task of a fetch.\<close>

definition on_lane :: "string \<Rightarrow> executable_task multiset \<Rightarrow> task_core multiset" where
  "on_lane t M = filter_mset (on_table t) (image_mset x_core M)"

definition taken :: "executable_task option \<Rightarrow> executable_task multiset" where
  "taken x = (case x of None \<Rightarrow> {#} | Some x \<Rightarrow> {#x#})"

text \<open>
  The tasks of the table are in one of the states above, they are answered in the order of their numbers, and
  the registry has the table as a serial run of its answered queries leaves it. The versions in the index stay below a bound.
\<close>

definition lane_at :: "query list \<Rightarrow> string \<Rightarrow> nat \<Rightarrow> lane_state \<Rightarrow> nat \<Rightarrow> task_queue \<Rightarrow> executable_task multiset \<Rightarrow>
    executable_task multiset \<Rightarrow> bool" where
  "lane_at qs t n st k tq U F \<longleftrightarrow>
     lane_ok st k (lane_tasks qs t n) (queue_of t tq) (on_lane t U) (on_lane t F) (loads_of t tq) (announced t tq) \<and>
     (\<exists>B. index_ok B t (globalIndex tq) \<and> B + 2 * size (on_lane t F) \<le> 3 * unat (fetchTick tq))"

definition answered_on :: "query list \<Rightarrow> string \<Rightarrow> (u64 \<times> query_result res) list \<Rightarrow> u64 list" where
  "answered_on qs t pr = filter (\<lambda>s. concerns (qs ! (unat s - 1)) = Some t) (map fst pr)"

definition serial_view :: "query list \<Rightarrow> world \<Rightarrow> string \<Rightarrow> nat \<Rightarrow> nat \<Rightarrow> world \<Rightarrow> (u64 \<times> query_result res) list \<Rightarrow> bool" where
  "serial_view qs w t n k wd pr \<longleftrightarrow>
     answered_on qs t pr = map fst (take k (lane_tasks qs t n)) \<and>
     table_view t wd = table_view t (fold exec (queries_of (take k (lane_tasks qs t n))) w)"

definition lane_inv :: "query list \<Rightarrow> world \<Rightarrow> nat \<Rightarrow> task_queue \<Rightarrow> executable_task multiset \<Rightarrow>
    executable_task multiset \<Rightarrow> world \<Rightarrow> (u64 \<times> query_result res) list \<Rightarrow> string \<Rightarrow> bool" where
  "lane_inv qs w n tq U F wd pr t \<longleftrightarrow> (\<exists>st k. lane_at qs t n st k tq U F \<and> serial_view qs w t n k wd pr)"

lemma on_lane_add: "on_lane t (add_mset x M) = on_lane t M + (if on_table t (x_core x) then {#x_core x#} else {#})"
  by (simp add: on_lane_def)

lemma on_lane_taken:
  "on_lane t (M + taken x) =
     on_lane t M + (case x of Some y \<Rightarrow> if on_table t (x_core y) then {#x_core y#} else {#} | None \<Rightarrow> {#})"
  by (simp add: taken_def on_lane_def split: option.split)

text \<open>A fetch.\<close>

lemma lane_fetch:
  assumes l: "lane_inv qs w n tq U F wd pr t" and f: "fetch_plain fs tq tq' x" and b: "unat (fetchTick tq) < 2 ^ 62"
  shows "lane_inv qs w n tq' (U + taken x) (F + taken x) wd pr t"
proof -
  obtain st k B where ok: "lane_ok st k (lane_tasks qs t n) (queue_of t tq) (on_lane t U) (on_lane t F) (loads_of t tq) (announced t tq)"
    and v: "serial_view qs w t n k wd pr" and B: "index_ok B t (globalIndex tq)" "B + 2 * size (on_lane t F) \<le> 3 * unat (fetchTick tq)"
    using l unfolding lane_inv_def lane_at_def by blast
  have lt: "Suc B < 2 ^ 64" using B(2) b by simp
  with f lane_facts(1) [OF ok] B(1) have fl: "fetch_lane t tq tq' x"
    and ix: "index_ok (if x = None then B else Suc B) t (globalIndex tq')" unfolding fetch_plain_def by blast+
  have tick: "unat (fetchTick tq') = unat (fetchTick tq) + (if x = None then 0 else 1)"
    using f b by (simp add: fetch_plain_def unat_plus_if_size word_size)
  have "(if x = None then B else Suc B) + 2 * size (on_lane t (F + taken x)) \<le> 3 * unat (fetchTick tq')"
    using B(2) unfolding tick on_lane_taken by (simp split: option.split)
  moreover have "\<exists>st. lane_ok st k (lane_tasks qs t n) (queue_of t tq') (on_lane t (U + taken x)) (on_lane t (F + taken x))
      (loads_of t tq') (announced t tq')"
  proof (cases "\<exists>y. x = Some y \<and> on_table t (x_core y)")
    case False
    then have "untouched t tq tq'" "on_lane t (M + taken x) = on_lane t M" for M
      using fl by (auto simp: fetch_lane_def on_lane_taken split: option.splits if_splits)
    with lane_untouched [OF ok] show ?thesis unfolding untouched_def by auto
  next
    case True
    then obtain y where y: "x = Some y" "on_table t (x_core y)" by blast
    show ?thesis
    proof (cases "x_type y = QT_Load")
      case True
      with fl y have "queue_of t tq' = queue_of t tq" "add_mset (x_core y) (loads_of t tq') \<subseteq># loads_of t tq"
        "announced t tq' \<le> announced t tq" by (simp_all add: fetch_lane_def)
      with lane_fetch_load [OF ok, of "x_core y"] y show ?thesis by (auto simp: on_lane_taken)
    next
      case False
      with fl y have q: "queue_of t tq = x_core y # queue_of t tq'" and "loads_of t tq' \<subseteq># loads_of t tq"
        "announced t tq' + 1 \<le> announced t tq" by (simp_all add: fetch_lane_def)
      with lane_fetch_head [OF ok [unfolded q]] y show ?thesis by (auto simp: on_lane_taken)
    qed
  qed
  ultimately show ?thesis using ix v unfolding lane_inv_def lane_at_def by blast
qed

text \<open>A callback.\<close>

lemma callback_other:
  assumes "callback_part m fs t tq tq'" and "u \<noteq> t \<or> m = 0"
  shows "announced u tq' = announced u tq \<and> index_ok B u (globalIndex tq') = index_ok B u (globalIndex tq)"
  using assms by (auto simp: callback_part_def announced_def)

lemma lane_callback:
  assumes l: "lane_inv qs w n tq U (add_mset x F) wd pr t" and sub: "U \<subseteq># F"
    and cb: "callback_part m fs (resolveTableId (x_query x)) tq tq'" "m \<le> 2"
    and none: "concerns (x_query x) = None \<longrightarrow> m = 0" and x: "session_query fs (x_query x)"
    and b: "unat (fetchTick tq) < 2 ^ 62"
  shows "lane_inv qs w n tq' U F wd pr t"
proof -
  obtain st k B where ok: "lane_ok st k (lane_tasks qs t n) (queue_of t tq) (on_lane t U) (on_lane t (add_mset x F)) (loads_of t tq) (announced t tq)"
    and v: "serial_view qs w t n k wd pr" and B: "index_ok B t (globalIndex tq)" "B + 2 * size (on_lane t (add_mset x F)) \<le> 3 * unat (fetchTick tq)"
    using l unfolding lane_inv_def lane_at_def by blast
  have same: "queue_of t tq' = queue_of t tq" "loads_of t tq' = loads_of t tq" "fetchTick tq' = fetchTick tq"
    "waitingTables tq' = waitingTables tq" using cb by (simp_all add: callback_part_def)
  show ?thesis
  proof (cases "on_table t (x_core x)")
    case False
    then have "concerns (x_query x) \<noteq> Some t" by (simp add: on_table_def x_core_def)
    then have "t \<noteq> resolveTableId (x_query x) \<or> m = 0"
      using none session_table [OF x] by (cases "concerns (x_query x)") auto
    from callback_other [OF cb(1) this] False ok v B show ?thesis
      unfolding lane_inv_def lane_at_def same on_lane_add by auto
  next
    case True
    then have t: "resolveTableId (x_query x) = t" using session_table [OF x] by (simp add: on_table_def x_core_def)
    have F: "on_lane t (add_mset x F) = add_mset (x_core x) (on_lane t F)" using True by (simp add: on_lane_add)
    have "B + m < 2 ^ 64" using B(2) b cb(2) by simp
    then have ix: "index_ok (B + m) t (globalIndex tq')" using cb(1) B(1) unfolding callback_part_def t by blast
    have "announced t tq = 0"
      using lane_called [OF ok [unfolded F] _ lane_facts(1) [OF ok]] ok sub
      by (auto simp: lane_ok_def F split: lane_state.splits)
    then have an: "announced t tq' \<le> 1" using ix same by (simp add: announced_def index_ok_def)
    have "on_lane t U \<subseteq># on_lane t F"
      unfolding on_lane_def by (intro multiset_filter_mono image_mset_subseteq_mono sub)
    from lane_called [OF ok [unfolded F] this an]
    have "lane_ok Free k (lane_tasks qs t n) (queue_of t tq') (on_lane t U) (on_lane t F) (loads_of t tq') (announced t tq')"
      unfolding same by blast
    moreover have "B + m + 2 * size (on_lane t F) \<le> 3 * unat (fetchTick tq')"
      using B(2) cb(2) unfolding F same by simp
    ultimately show ?thesis using ix v unfolding lane_inv_def lane_at_def by blast
  qed
qed

text \<open>An answer.\<close>

definition serial_answer :: "query list \<Rightarrow> world \<Rightarrow> u64 \<times> query_result res \<Rightarrow> bool" where
  "serial_answer qs w a \<longleftrightarrow>
     snd a = snd (execute (qs ! (unat (fst a) - 1)) (fold exec (take (unat (fst a) - 1) qs) w))"

lemma lane_answer_other:
  assumes l: "lane_inv qs w n tq (add_mset x U) F wd pr t" and t: "\<not> on_table t (x_core x)" and c: "submitted_as qs (x_core x)"
    and x: "session_query (files wd) (x_query x)"
  shows "lane_inv qs w n tq U F (exec (x_query x) wd) (pr @ [(x_seq x, r)]) t"
proof -
  have "table_view t (exec (x_query x) wd) = table_view t wd"
    using sq.respects [OF x refl] t by (simp add: on_table_def x_core_def)
  moreover have "answered_on qs t (pr @ [(x_seq x, r)]) = answered_on qs t pr"
    using t c by (auto simp: answered_on_def submitted_as_def x_core_def on_table_def)
  ultimately show ?thesis using l t unfolding lane_inv_def lane_at_def serial_view_def by (simp add: on_lane_add)
qed

lemma serial_files:
  assumes "list_all (session_query (files w)) qs"
  shows "files (fold exec qs w) = files w"
  using sq.fold_sound [OF assms refl] .

lemma queries_of_take: "queries_of (take k cs) = take k (queries_of cs)"
  by (simp add: queries_of_def take_map)

lemma lane_answer_self:
  assumes l: "lane_inv qs w n tq (add_mset x U) F wd pr t" and t: "on_table t (x_core x)"
    and s: "list_all (session_query (files w)) qs" and f: "files wd = files w" and n: "n \<le> length qs" "length qs < 2 ^ 64"
  shows "lane_inv qs w n tq U F (exec (x_query x) wd) (pr @ [(x_seq x, r)]) t" and "serial_answer qs w (x_seq x, snd (execute (x_query x) wd))"
proof -
  let ?P = "lane_tasks qs t n"
  obtain st k where at: "lane_at qs t n st k tq (add_mset x U) F" and v: "serial_view qs w t n k wd pr"
    using l unfolding lane_inv_def by blast
  have "on_lane t (add_mset x U) = add_mset (x_core x) (on_lane t U)" using t by (simp add: on_lane_add)
  with at lane_answer [of st k ?P "queue_of t tq" "x_core x" "on_lane t U"]
  have at': "lane_at qs t n Answered (Suc k) tq U F" and k: "k < length ?P" "?P ! k = x_core x"
    unfolding lane_at_def by auto
  from lane_nth [OF k(1)] obtain i where i: "i < n" "x_core x = the_core (of_nat (Suc i)) (qs ! i)" "take k ?P = lane_tasks qs t i"
    using k(2) by auto
  then have q: "x_query x = qs ! i" "x_seq x = of_nat (Suc i)" by (simp_all add: x_core_def the_core_def)
  have "Suc i < 2 ^ 64" using i(1) n by simp
  then have sq: "unat (x_seq x) = Suc i" unfolding q unat_of_nat by simp
  have qt: "concerns (x_query x) = Some t" using t by (simp add: on_table_def x_core_def)
  have good: "session_query (files w) (x_query x)" using s i(1) n(1) unfolding q list_all_length by simp
  have sub: "list_all (session_query (files w)) (take i qs)"
    using s by (auto simp: list_all_iff dest: in_set_takeD)
  let ?w1 = "fold exec (queries_of (take k ?P)) w"
  have lq: "queries_of (take k ?P) = filter (\<lambda>q. concerns q = Some t) (take i qs)"
    using queries_of_lane [of i qs t] i n unfolding i(3) by simp
  have "list_all (session_query (files w)) (queries_of (take k ?P))" using sub unfolding lq by (auto simp: list_all_iff)
  from serial_files [OF this] have f1: "files ?w1 = files w" .
  have v1: "table_view t wd = table_view t ?w1" using v by (simp add: serial_view_def)
  from sq.consistent [OF good f f1 qt v1]
  have c: "table_view t (exec (x_query x) wd) = table_view t (exec (x_query x) ?w1)"
    "snd (execute (x_query x) wd) = snd (execute (x_query x) ?w1)" by blast+
  have "queries_of (take (Suc k) ?P) = queries_of (take k ?P) @ [x_query x]"
    using k by (simp add: take_Suc_conv_app_nth queries_of_def x_core_def)
  moreover have "answered_on qs t (pr @ [(x_seq x, r)]) = answered_on qs t pr @ [x_seq x]"
    using qt unfolding answered_on_def by (simp add: sq) (simp add: q)
  ultimately have "serial_view qs w t n (Suc k) (exec (x_query x) wd) (pr @ [(x_seq x, r)])"
    using c(1) v k by (simp add: serial_view_def take_Suc_conv_app_nth)
  with at' show "lane_inv qs w n tq U F (exec (x_query x) wd) (pr @ [(x_seq x, r)]) t" unfolding lane_inv_def by blast
  have f2: "files (fold exec (take i qs) w) = files w" by (rule serial_files [OF sub])
  have "table_view t ?w1 = table_view t (fold exec (take i qs) w)"
    using sq.projection [OF sub refl, of t] unfolding lq by simp
  from sq.consistent [OF good f1 f2 qt this] c(2)
  show "serial_answer qs w (x_seq x, snd (execute (x_query x) wd))" by (simp add: serial_answer_def sq) (simp add: q)
qed

text \<open>QUIT, LIST and LISTEN answer the same in every world.\<close>

lemma answer_none:
  assumes "session_query fs q" and "concerns q = None"
  shows "snd (execute q w) = snd (execute q w')"
  using assms by (cases q) (simp_all add: QuitQuery_execute_def ListTableQuery_execute_def ListenQuery_execute_def)

text \<open>A submission.\<close>

lemma lane_submit:
  assumes l: "lane_inv qs w n tq U F wd pr t" and q: "q = qs ! n" and s: "submit_lane t (of_nat (Suc n)) q tq tq'"
    and same: "globalIndex tq' = globalIndex tq" "waitingTables tq' = waitingTables tq" "fetchTick tq' = fetchTick tq"
    and first: "concerns q = Some t \<Longrightarrow> queryType q = QT_Load \<longleftrightarrow> lane_tasks qs t n = []"
  shows "lane_inv qs w (Suc n) tq' U F wd pr t"
proof -
  let ?c = "the_core (of_nat (Suc n)) q"
  obtain st k where ok: "lane_ok st k (lane_tasks qs t n) (queue_of t tq) (on_lane t U) (on_lane t F) (loads_of t tq) (announced t tq)"
    and v: "serial_view qs w t n k wd pr"
    and B: "\<exists>B. index_ok B t (globalIndex tq) \<and> B + 2 * size (on_lane t F) \<le> 3 * unat (fetchTick tq)"
    using l unfolding lane_inv_def lane_at_def by blast
  have P: "lane_tasks qs t (Suc n) = lane_tasks qs t n @ (if concerns q = Some t then [?c] else [])"
    using q by (simp add: lane_tasks_Suc)
  have v': "serial_view qs w t (Suc n) k wd pr" using v lane_facts(3) [OF ok] by (simp add: serial_view_def P)
  have an: "announced t tq' = announced t tq" using same by (simp add: announced_def)
  have "\<exists>st'. lane_ok st' k (lane_tasks qs t (Suc n)) (queue_of t tq') (on_lane t U) (on_lane t F) (loads_of t tq') (announced t tq')"
  proof (cases "concerns q = Some t")
    case False
    with ok s show ?thesis unfolding P an by (auto simp: submit_lane_def)
  next
    case True
    show ?thesis
    proof (cases "queryType q = QT_Load")
      case False
      with first [OF True] have "lane_tasks qs t n \<noteq> []" by simp
      from lane_post [OF ok this, of ?c] True False s show ?thesis unfolding P an by (auto simp: submit_lane_def)
    next
      case load: True
      with first [OF True] have e: "lane_tasks qs t n = []" by simp
      from lane_load [OF ok [unfolded e], of ?c] True load s e show ?thesis unfolding P an by (auto simp: submit_lane_def)
    qed
  qed
  with v' B show ?thesis unfolding lane_inv_def lane_at_def same by blast
qed

text \<open>A table's queue holds later tasks than the one whose callback is to come, so a LOAD drops none.\<close>

lemma lane_late:
  assumes l: "lane_inv qs w n tq U (add_mset x F) wd pr t" and sub: "U \<subseteq># F" and t: "on_table t (x_core x)" and n: "n < 2 ^ 64"
  shows "\<forall>c \<in> set (queue_of t tq). x_seq x \<le> fst c"
proof -
  let ?P = "lane_tasks qs t n"
  obtain st k where ok: "lane_ok st k ?P (queue_of t tq) (on_lane t U) (on_lane t (add_mset x F)) (loads_of t tq) (announced t tq)"
    using l unfolding lane_inv_def lane_at_def by blast
  have F: "on_lane t (add_mset x F) = add_mset (x_core x) (on_lane t F)" using t by (simp add: on_lane_add)
  have "on_lane t U \<subseteq># on_lane t F" unfolding on_lane_def by (intro multiset_filter_mono image_mset_subseteq_mono sub)
  from lane_called [OF ok [unfolded F] this lane_facts(1) [OF ok]]
  have k: "queue_of t tq = drop k ?P" "0 < k" "k \<le> length ?P" "?P ! (k - 1) = x_core x" by blast+
  have "x_seq x \<le> fst (drop k ?P ! j)" if "j < length (drop k ?P)" for j
    using sorted_wrt_nth_less [OF lane_sorted [OF n, of qs t], of "k - 1" "k + j"] k(2-4) that by (simp add: less_imp_le)
  then show ?thesis unfolding k(1) by (metis in_set_conv_nth)
qed

end
