(* ===== verification/Serial_Runs.thy ===== *)
theory Serial_Runs
  imports Table_Lanes
begin

section \<open>Sessions with worker threads and serial runs\<close>

text \<open>
  In sessions that load each table once and before its first use, and neither dump, drop nor copy tables, every
  interleaving of the main thread and the workers gives the answers and the tables of executing the queries one after
  the other in the order they were submitted.
\<close>

subsection \<open>What the workers hold\<close>

fun phase_flight :: "phase \<Rightarrow> executable_task list" where
  "phase_flight (Ran x) = [x]"
| "phase_flight ph = phase_unset ph"

definition hands :: "(phase \<Rightarrow> executable_task list) \<Rightarrow> pool \<Rightarrow> executable_task multiset" where
  "hands f p = mset (local_queue p) + gather f (threads p)"

lemma hands_subset: "hands phase_unset p \<subseteq># hands phase_flight p"
proof -
  have "mset (phase_unset ph) \<subseteq># mset (phase_flight ph)" for ph by (cases ph) simp_all
  then have "gather phase_unset ts \<subseteq># gather phase_flight ts" for ts
    unfolding gather_def by (induction ts) (simp_all add: subset_mset.add_mono)
  then show ?thesis by (simp add: hands_def)
qed

lemma hands_update:
  assumes "i < length (threads p)" and "threads p' = threads p"
  shows "hands f (p'\<lparr>threads := (threads p')[i := ph]\<rparr>) + mset (local_queue p @ f (threads p ! i)) =
    hands f p + mset (local_queue p' @ f ph)"
  using gather_update [OF assms(1), of f ph] assms(2) by (simp add: hands_def)

text \<open>The steps of a worker: nothing the tables see, a fetch, an answer or a callback.\<close>

definition quiet_step :: "pool \<Rightarrow> pool \<Rightarrow> bool" where
  "quiet_step p p' \<longleftrightarrow> taskQueue p' \<in> {taskQueue p, onCompleted_count (taskQueue p)} \<and> world_of p' = world_of p \<and>
     promises p' = promises p \<and> hands phase_unset p' = hands phase_unset p \<and> hands phase_flight p' = hands phase_flight p"

definition fetch_step :: "(gkey list \<Rightarrow> nat) \<Rightarrow> executable_task option \<Rightarrow> pool \<Rightarrow> pool \<Rightarrow> bool" where
  "fetch_step sel x p p' \<longleftrightarrow> fetchNext sel (taskQueue p) = Inr (taskQueue p', x) \<and> world_of p' = world_of p \<and>
     promises p' = promises p \<and> hands phase_unset p' = hands phase_unset p + taken x \<and>
     hands phase_flight p' = hands phase_flight p + taken x"

definition answer_step :: "executable_task \<Rightarrow> pool \<Rightarrow> pool \<Rightarrow> bool" where
  "answer_step x p p' \<longleftrightarrow> taskQueue p' = taskQueue p \<and> world_of p' = fst (run_logic x (world_of p)) \<and>
     promises p' = promises p @ [(x_seq x, snd (run_logic x (world_of p)))] \<and>
     hands phase_unset p = add_mset x (hands phase_unset p') \<and> hands phase_flight p' = hands phase_flight p"

definition callback_step :: "executable_task \<Rightarrow> pool \<Rightarrow> pool \<Rightarrow> bool" where
  "callback_step x p p' \<longleftrightarrow> promises p' = promises p \<and> hands phase_unset p' = hands phase_unset p \<and>
     hands phase_flight p = add_mset x (hands phase_flight p') \<and>
     (\<exists>d. onCompleted_locked (files (world_of p)) (onCompleted x) (taskQueue p, db (world_of p)) = (taskQueue p', d) \<and>
        world_of p' = (world_of p)\<lparr>db := d\<rparr>)"

lemma worker_steps:
  assumes i: "i < length (threads p)" and w: "work sel (threads p ! i) p = Some (ph, p1)" and inv: "tq_inv (taskQueue p)"
    and p': "p' = p1\<lparr>threads := (threads p1)[i := ph]\<rparr>"
  shows "quiet_step p p' \<or> (\<exists>x. fetch_step sel x p p') \<or> (\<exists>x. answer_step x p p') \<or> (\<exists>x. callback_step x p p')"
proof -
  have t: "threads p1 = threads p" using work_okI [OF w inv] by (simp add: work_ok_def)
  have h: "hands f p' + mset (local_queue p @ f (threads p ! i)) = hands f p + mset (local_queue p1 @ f ph)" for f
    using hands_update [OF i t, of f ph] p' by simp
  have same: "hands f p' = hands f p" if "mset (local_queue p1 @ f ph) = mset (local_queue p @ f (threads p ! i))" for f
    using h [of f] unfolding that by simp
  have loc: "quiet_step p p'"
    if l: "take_local xs p = (ph, p1)" and xs: "phase_unset (threads p ! i) = xs" "phase_flight (threads p ! i) = xs" for xs
  proof -
    have "mset (local_queue p1 @ phase_unset ph) = mset (local_queue p @ xs) \<and>
        mset (local_queue p1 @ phase_flight ph) = mset (local_queue p @ xs) \<and>
        taskQueue p1 = taskQueue p \<and> world_of p1 = world_of p \<and> promises p1 = promises p"
    proof (cases "local_queue p @ xs")
      case Nil
      with l show ?thesis by (auto simp: take_local_def)
    next
      case (Cons x q)
      from arg_cong [OF this, of mset] Cons l show ?thesis by (auto simp: take_local_def)
    qed
    with xs p' same [of phase_unset] same [of phase_flight] show ?thesis by (simp add: quiet_step_def)
  qed
  show ?thesis
  proof (cases "threads p ! i")
    case Idle
    show ?thesis
    proof (cases "stop_requested p \<or> local_queue p = []")
      case True
      with Idle w have "p1 = p" "f = phase_unset \<or> f = phase_flight \<Longrightarrow> f ph = []" for f
        by (auto split: if_splits)
      with Idle p' same [of phase_unset] same [of phase_flight] show ?thesis by (simp add: quiet_step_def)
    next
      case False
      with Idle w have "take_local [] p = (ph, p1)" by simp
      from loc [OF this] Idle show ?thesis by simp
    qed
  next
    case (Fetching xs)
    show ?thesis
    proof (cases "FETCH_BATCH_SIZE \<le> length xs \<or> (\<exists>e. fetchNext sel (taskQueue p) = Inl e)")
      case True
      with Fetching w have "taskQueue p1 = taskQueue p" "world_of p1 = world_of p" "promises p1 = promises p"
        "local_queue p1 = local_queue p" "ph = Fetching xs \<or> ph = Merging xs" by (auto split: if_splits)
      moreover from this have "phase_unset ph = xs" "phase_flight ph = xs" by auto
      ultimately show ?thesis
        using Fetching p' same [of phase_unset] same [of phase_flight] by (simp add: quiet_step_def)
    next
      case False
      then obtain tq x where r: "fetchNext sel (taskQueue p) = Inr (tq, x)"
        by (cases "fetchNext sel (taskQueue p)") auto
      with False Fetching w have "p1 = p\<lparr>taskQueue := tq\<rparr>" "phase_unset ph = xs @ (case x of None \<Rightarrow> [] | Some x \<Rightarrow> [x])"
        "phase_flight ph = xs @ (case x of None \<Rightarrow> [] | Some x \<Rightarrow> [x])" by (auto split: option.splits)
      with r p' Fetching h [of phase_unset] h [of phase_flight] have "fetch_step sel x p p'"
        by (cases x) (simp_all add: fetch_step_def taken_def)
      then show ?thesis by blast
    qed
  next
    case (Merging xs)
    with w have "take_local xs p = (ph, p1)" by simp
    from loc [OF this] Merging show ?thesis by simp
  next
    case (Have x)
    with w p' same [of phase_unset] same [of phase_flight] show ?thesis by (auto simp: quiet_step_def)
  next
    case (Locked x)
    with w have "p1 = p\<lparr>world_of := fst (run_logic x (world_of p)), promises := promises p @ [(x_seq x, snd (run_logic x (world_of p)))]\<rparr>"
      "ph = Ran x" by (auto split: prod.splits)
    with Locked p' h [of phase_unset] same [of phase_flight] have "answer_step x p p'" by (simp add: answer_step_def)
    then show ?thesis by blast
  next
    case (Ran x)
    obtain tq d where o: "onCompleted_locked (files (world_of p)) (onCompleted x) (taskQueue p, db (world_of p)) = (tq, d)"
      by fastforce
    with Ran w have "p1 = p\<lparr>taskQueue := tq, world_of := (world_of p)\<lparr>db := d\<rparr>\<rparr>" "ph = Notified x" by auto
    with Ran o p' h [of phase_flight] same [of phase_unset] have "callback_step x p p'" by (simp add: callback_step_def)
    then show ?thesis by blast
  next
    case (Notified x)
    with w p' same [of phase_unset] same [of phase_flight] show ?thesis by (auto simp: quiet_step_def)
  next
    case (Counted x)
    with w p' same [of phase_unset] same [of phase_flight] show ?thesis by (auto simp: quiet_step_def split: option.splits)
  next
    case Stopped
    with w show ?thesis by simp
  qed
qed

subsection \<open>Sessions\<close>

text \<open>
  Every table is loaded once, from a file of its own, before the first query on it; there is no
  DUMP, DROP and COPYTABLE. The lists are the tables and the files loaded so far.
\<close>

fun loads_first :: "string list \<Rightarrow> string list \<Rightarrow> query list \<Rightarrow> bool" where
  "loads_first ts gs [] \<longleftrightarrow> True"
| "loads_first ts gs (q # qs) \<longleftrightarrow>
     (case q of
        LoadTableQuery t f \<Rightarrow> t \<notin> set ts \<and> f \<notin> set gs \<and> loads_first (t # ts) (f # gs) qs
      | _ \<Rightarrow> (case concerns q of None \<Rightarrow> True | Some t \<Rightarrow> t \<in> set ts) \<and> loads_first ts gs qs)"

definition session :: "files \<Rightarrow> query list \<Rightarrow> bool" where
  "session fs qs \<longleftrightarrow> list_all (session_query fs) qs \<and> loads_first [] [] qs"

lemma loads_first_other:
  "queryType q \<noteq> QT_Load \<Longrightarrow> loads_first ts gs (q # qs) \<longleftrightarrow>
     (case concerns q of None \<Rightarrow> True | Some t \<Rightarrow> t \<in> set ts) \<and> loads_first ts gs qs"
  by (cases q) auto

subsection \<open>The invariant of a run\<close>

text \<open>The loads to come find no earlier task on their file and table.\<close>

definition loads_inv :: "query list \<Rightarrow> nat \<Rightarrow> dependency_manager \<Rightarrow> bool" where
  "loads_inv qs n dm \<longleftrightarrow>
     (\<exists>ts gs. loads_first ts gs (drop n qs) \<and> set (um_keys (lastScheduledFile dm)) \<subseteq> set gs \<and>
        set (um_keys (lastScheduledTable dm)) \<subseteq> set ts \<and> (\<forall>t. t \<in> set ts \<longleftrightarrow> lane_tasks qs t n \<noteq> []))"

lemma scheduled_sub_other:
  "queryType q \<noteq> QT_Load \<Longrightarrow> scheduled_sub q dm dm' \<longleftrightarrow>
     set (um_keys (lastScheduledFile dm')) \<subseteq> set (um_keys (lastScheduledFile dm)) \<and>
     set (um_keys (lastScheduledTable dm')) \<subseteq> set (um_keys (lastScheduledTable dm))"
  by (cases q) (simp_all add: scheduled_sub_def)

lemma loads_invI:
  "loads_first ts gs (drop n qs) \<Longrightarrow> set (um_keys (lastScheduledFile dm)) \<subseteq> set gs \<Longrightarrow>
   set (um_keys (lastScheduledTable dm)) \<subseteq> set ts \<Longrightarrow> (\<And>t. t \<in> set ts \<longleftrightarrow> lane_tasks qs t n \<noteq> []) \<Longrightarrow> loads_inv qs n dm"
  unfolding loads_inv_def by blast

lemma loads_inv_submit:
  assumes l: "loads_inv qs n dm" and n: "n < length qs" and s: "session_query fs (qs ! n)"
  shows "unscheduled (qs ! n) dm" and "scheduled_sub (qs ! n) dm dm' \<Longrightarrow> loads_inv qs (Suc n) dm'"
    and "concerns (qs ! n) = Some t \<Longrightarrow> queryType (qs ! n) = QT_Load \<longleftrightarrow> lane_tasks qs t n = []"
proof -
  let ?q = "qs ! n"
  obtain ts gs where f: "loads_first ts gs (?q # drop (Suc n) qs)" and g: "set (um_keys (lastScheduledFile dm)) \<subseteq> set gs"
    and t: "set (um_keys (lastScheduledTable dm)) \<subseteq> set ts" and ts: "\<And>t. t \<in> set ts \<longleftrightarrow> lane_tasks qs t n \<noteq> []"
    using l unfolding loads_inv_def Cons_nth_drop_Suc [OF n, symmetric] by blast
  have "unscheduled ?q dm \<and> (scheduled_sub ?q dm dm' \<longrightarrow> loads_inv qs (Suc n) dm') \<and>
      (concerns ?q = Some t \<longrightarrow> (queryType ?q = QT_Load \<longleftrightarrow> lane_tasks qs t n = []))"
  proof (cases "queryType ?q = QT_Load")
    case True
    then obtain u h where q: "?q = LoadTableQuery u h" using session_load [OF s] by blast
    note f' = f [unfolded q loads_first.simps query.case]
    then have lf: "loads_first (u # ts) (h # gs) (drop (Suc n) qs)" by blast
    have mem: "v \<in> set (u # ts) \<longleftrightarrow> lane_tasks qs v (Suc n) \<noteq> []" for v using ts q by (auto simp: lane_tasks_Suc)
    have li: "loads_inv qs (Suc n) dm'" if "scheduled_sub ?q dm dm'"
    proof (rule loads_invI [OF lf _ _ mem])
      note sub = that [unfolded scheduled_sub_def q query.case]
      show "set (um_keys (lastScheduledFile dm')) \<subseteq> set (h # gs)" using sub g unfolding list.set by blast
      show "set (um_keys (lastScheduledTable dm')) \<subseteq> set (u # ts)" using sub t unfolding list.set by blast
    qed
    have new: "u \<notin> set ts" "h \<notin> set gs" using f' by blast+
    then have "unscheduled ?q dm" using g t unfolding unscheduled_def q query.case by blast
    moreover have "lane_tasks qs u n = []" using ts new by blast
    then have "concerns ?q = Some t \<Longrightarrow> lane_tasks qs t n = []" unfolding q by simp
    ultimately show ?thesis using True li by blast
  next
    case False
    have ff: "(case concerns ?q of None \<Rightarrow> True | Some t \<Rightarrow> t \<in> set ts) \<and> loads_first ts gs (drop (Suc n) qs)"
      using f unfolding loads_first_other [OF False] .
    have on: "v \<in> set ts" if "concerns ?q = Some v" for v using ff that by simp
    have mem: "v \<in> set ts \<longleftrightarrow> lane_tasks qs v (Suc n) \<noteq> []" for v
      using ts [of v] on [of v] unfolding lane_tasks_Suc by (cases "concerns ?q = Some v") simp_all
    have li: "loads_inv qs (Suc n) dm'" if "scheduled_sub ?q dm dm'"
    proof (rule loads_invI [OF conjunct2 [OF ff] _ _ mem])
      note sub = that [unfolded scheduled_sub_other [OF False]]
      show "set (um_keys (lastScheduledFile dm')) \<subseteq> set gs" using sub g by blast
      show "set (um_keys (lastScheduledTable dm')) \<subseteq> set ts" using sub t by blast
    qed
    have "unscheduled ?q dm" using False by (cases ?q) (simp_all add: unscheduled_def)
    moreover have "concerns ?q = Some t \<Longrightarrow> lane_tasks qs t n \<noteq> []" using on ts by blast
    ultimately show ?thesis using False li by blast
  qed
  then show "unscheduled ?q dm" and "scheduled_sub ?q dm dm' \<Longrightarrow> loads_inv qs (Suc n) dm'"
    and "concerns ?q = Some t \<Longrightarrow> queryType ?q = QT_Load \<longleftrightarrow> lane_tasks qs t n = []" by blast+
qed

definition plain_pool :: "files \<Rightarrow> pool \<Rightarrow> bool" where
  "plain_pool fs p \<longleftrightarrow> tq_plain fs (taskQueue p) \<and> (\<forall>x \<in># hands phase_flight p. task_plain fs x) \<and>
     files (world_of p) = fs \<and>
     unat (fetchTick (taskQueue p)) + size (pending (taskQueue p)) \<le> unat (totalSubmitted p)"

definition serial_inv :: "query list \<Rightarrow> world \<Rightarrow> pool \<Rightarrow> bool" where
  "serial_inv qs w p \<longleftrightarrow> plain_pool (files w) p \<and> loads_inv qs (unat (totalSubmitted p)) (depManager (taskQueue p)) \<and>
     (\<forall>t. lane_inv qs w (unat (totalSubmitted p)) (taskQueue p) (hands phase_unset p) (hands phase_flight p) (world_of p) (promises p) t) \<and>
     list_all (serial_answer qs w) (promises p)"

lemma plain_tick: "plain_pool fs p \<Longrightarrow> unat (totalSubmitted p) \<le> length qs \<Longrightarrow> length qs < 2 ^ 62 \<Longrightarrow>
    unat (fetchTick (taskQueue p)) < 2 ^ 62"
  by (simp add: plain_pool_def)

text \<open>Steps that change only counters and flags.\<close>

definition same_lanes :: "task_queue \<Rightarrow> task_queue \<Rightarrow> bool" where
  "same_lanes tq tq' \<longleftrightarrow> tableQs tq' = tableQs tq \<and> loadQueue tq' = loadQueue tq \<and> barriers tq' = barriers tq \<and>
     depManager tq' = depManager tq \<and> globalIndex tq' = globalIndex tq \<and> waitingTables tq' = waitingTables tq \<and>
     fetchTick tq' = fetchTick tq"

lemma same_lanes_inv:
  assumes "same_lanes tq tq'"
  shows "lane_inv qs w n tq' = lane_inv qs w n tq" and "tq_plain fs tq' = tq_plain fs tq" and "pending tq' = pending tq"
    and "fetchTick tq' = fetchTick tq" and "depManager tq' = depManager tq"
proof -
  note s = assms [unfolded same_lanes_def]
  have q: "queue_of t tq' = queue_of t tq" "loads_of t tq' = loads_of t tq" "announced t tq' = announced t tq" for t
    using s by (simp_all add: queue_of_def tq_of_def loads_of_def announced_def)
  show "lane_inv qs w n tq' = lane_inv qs w n tq" using s by (simp add: lane_inv_def lane_at_def q fun_eq_iff)
  show "tq_plain fs tq' = tq_plain fs tq" "pending tq' = pending tq" "fetchTick tq' = fetchTick tq" "depManager tq' = depManager tq"
    using s by (simp_all add: tq_plain_def tq_inv_def tq_of_def pending_def)
qed

lemma same_lanes_simps: "same_lanes tq tq" "same_lanes tq (onCompleted_count tq)" "same_lanes tq (setReady tq)"
  by (simp_all add: same_lanes_def onCompleted_count_def setReady_def)

lemma serial_fetch:
  assumes inv: "serial_inv qs w p" and f: "fetch_step sel x p p'" and same: "totalSubmitted p' = totalSubmitted p"
    and n: "unat (totalSubmitted p) \<le> length qs" and len: "length qs < 2 ^ 62"
  shows "serial_inv qs w p'"
proof -
  have pl: "plain_pool (files w) p" using inv by (simp add: serial_inv_def)
  then have tq: "tq_plain (files w) (taskQueue p)" by (simp add: plain_pool_def)
  note tick = plain_tick [OF pl n len]
  have fn: "fetchNext sel (taskQueue p) = Inr (taskQueue p', x)" using f by (simp add: fetch_step_def)
  note fp = fetchNext_plain [OF fn tq]
  have "tq_inv (taskQueue p)" using tq by (simp add: tq_plain_def)
  from fetchNext_keeps [OF this fn] obtain lost where
    "pending (taskQueue p) = pending (taskQueue p') + lost + fetched_core x" by blast
  from arg_cong [OF this, of size] have "size (pending (taskQueue p')) + (if x = None then 0 else 1) \<le> size (pending (taskQueue p))"
    by (cases x) (simp_all add: fetched_core_def)
  moreover have "unat (fetchTick (taskQueue p')) = unat (fetchTick (taskQueue p)) + (if x = None then 0 else 1)"
    using fp tick by (simp add: fetch_plain_def unat_plus_if_size word_size)
  ultimately have "plain_pool (files w) p'"
    using pl f fp same by (auto simp: plain_pool_def fetch_step_def fetch_plain_def taken_def split: option.splits)
  with inv f same lane_fetch [OF _ fp tick, of qs w] fp show ?thesis
    by (simp add: serial_inv_def fetch_step_def fetch_plain_def)
qed

lemma serial_quiet:
  assumes "serial_inv qs w p" and "quiet_step p p'" and "totalSubmitted p' = totalSubmitted p"
  shows "serial_inv qs w p'"
proof -
  have "same_lanes (taskQueue p) (taskQueue p')" using assms(2) same_lanes_simps by (auto simp: quiet_step_def)
  from same_lanes_inv [OF this] assms show ?thesis by (simp add: serial_inv_def plain_pool_def quiet_step_def)
qed

text \<open>What a callback of a run finds: a task of the session, on a table whose later tasks are queued.\<close>

lemma serial_called:
  assumes inv: "serial_inv qs w p" and c: "callback_step x p p'"
    and n: "unat (totalSubmitted p) \<le> length qs" and len: "length qs < 2 ^ 62"
  shows "task_plain (files w) x"
    and "x_type x = QT_Load \<longrightarrow> (\<forall>c \<in> set (queue_of (resolveTableId (x_query x)) (taskQueue p)). x_seq x \<le> fst c)"
    and "\<exists>m \<le> 2. callback_part m (files w) (resolveTableId (x_query x)) (taskQueue p) (taskQueue p') \<and>
      (concerns (x_query x) = None \<longrightarrow> m = 0)"
proof -
  have pl: "plain_pool (files w) p" using inv by (simp add: serial_inv_def)
  then have tq: "tq_plain (files w) (taskQueue p)" by (simp add: plain_pool_def)
  have U: "hands phase_unset p = hands phase_unset p'" and F: "hands phase_flight p = add_mset x (hands phase_flight p')"
    using c by (simp_all add: callback_step_def)
  show x: "task_plain (files w) x" using pl F by (simp add: plain_pool_def)
  then have sq: "session_query (files w) (x_query x)" by (simp add: task_plain_def)
  have "\<forall>c \<in> set (queue_of (resolveTableId (x_query x)) (taskQueue p)). x_seq x \<le> fst c" if ld: "x_type x = QT_Load"
  proof -
    have "queryType (x_query x) = QT_Load" using ld x by (simp add: task_plain_def)
    then obtain u f where q: "x_query x = LoadTableQuery u f" using session_load [OF sq] by blast
    then have u: "resolveTableId (x_query x) = u" using session_table [OF sq] by simp
    have lane: "lane_inv qs w (unat (totalSubmitted p)) (taskQueue p) (hands phase_unset p') (add_mset x (hands phase_flight p'))
        (world_of p) (promises p) u" using inv U F by (simp add: serial_inv_def)
    have "on_table u (x_core x)" using q by (simp add: on_table_def x_core_def)
    from lane_late [OF lane hands_subset this] n len show ?thesis unfolding u by simp
  qed
  then show late: "x_type x = QT_Load \<longrightarrow> (\<forall>c \<in> set (queue_of (resolveTableId (x_query x)) (taskQueue p)). x_seq x \<le> fst c)" by blast
  obtain d where "onCompleted_locked (files (world_of p)) (onCompleted x) (taskQueue p, db (world_of p)) = (taskQueue p', d)"
    using c by (auto simp: callback_step_def)
  from callback_lane [OF tq x late this] show "\<exists>m \<le> 2. callback_part m (files w) (resolveTableId (x_query x)) (taskQueue p) (taskQueue p') \<and>
      (concerns (x_query x) = None \<longrightarrow> m = 0)" .
qed

lemma serial_callback:
  assumes inv: "serial_inv qs w p" and c: "callback_step x p p'" and same: "totalSubmitted p' = totalSubmitted p"
    and n: "unat (totalSubmitted p) \<le> length qs" and len: "length qs < 2 ^ 62"
  shows "serial_inv qs w p'"
proof -
  let ?U = "hands phase_unset p'" and ?F = "hands phase_flight p'" and ?n = "unat (totalSubmitted p)"
  have pl: "plain_pool (files w) p" using inv by (simp add: serial_inv_def)
  then have tq: "tq_plain (files w) (taskQueue p)" by (simp add: plain_pool_def)
  note tick = plain_tick [OF pl n len]
  have U: "hands phase_unset p = ?U" and F: "hands phase_flight p = add_mset x ?F" using c by (simp_all add: callback_step_def)
  have sub: "?U \<subseteq># ?F" by (rule hands_subset)
  note called = serial_called [OF inv c n len]
  have sq: "session_query (files w) (x_query x)" using called(1) by (simp add: task_plain_def)
  obtain d where o: "onCompleted_locked (files (world_of p)) (onCompleted x) (taskQueue p, db (world_of p)) = (taskQueue p', d)"
    and w': "world_of p' = (world_of p)\<lparr>db := d\<rparr>" using c by (auto simp: callback_step_def)
  have lanes: "lane_inv qs w ?n (taskQueue p) ?U (add_mset x ?F) (world_of p) (promises p) t" for t
    using inv U F by (simp add: serial_inv_def)
  from called(3) obtain m where m: "m \<le> 2"
    "callback_part m (files w) (resolveTableId (x_query x)) (taskQueue p) (taskQueue p')"
    "concerns (x_query x) = None \<longrightarrow> m = 0" by (elim exE conjE)
  have "tables d = tables (db (world_of p))"
    using callback_tables [of "files (world_of p)" "onCompleted x" "taskQueue p" "db (world_of p)"] o by simp
  then have v: "table_view t (world_of p') = table_view t (world_of p)" for t by (simp add: w') (simp add: table_view_def)
  have "lane_inv qs w ?n (taskQueue p') ?U ?F (world_of p) (promises p) t" for t
    by (rule lane_callback [OF lanes sub m(2,1,3) sq tick])
  moreover have "promises p' = promises p" using c by (simp add: callback_step_def)
  ultimately have "lane_inv qs w ?n (taskQueue p') ?U ?F (world_of p') (promises p') t" for t
    unfolding lane_inv_def serial_view_def v by simp
  moreover have "pending (taskQueue p') = pending (taskQueue p)"
    using onCompleted_locked_spec [OF o] tq by (simp add: tq_plain_def)
  then have "plain_pool (files w) p'" using pl m(2) F by (simp add: plain_pool_def callback_part_def same w')
  moreover have "loads_inv qs ?n (depManager (taskQueue p'))"
    using inv m(2) unfolding serial_inv_def loads_inv_def callback_part_def by simp
  ultimately show ?thesis using inv c by (simp add: serial_inv_def same callback_step_def)
qed

lemma serial_answered:
  assumes inv: "serial_inv qs w p" and a: "answer_step x p p'" and same: "totalSubmitted p' = totalSubmitted p"
    and n: "unat (totalSubmitted p) \<le> length qs" and len: "length qs < 2 ^ 62" and s: "list_all (session_query (files w)) qs"
    and core: "submitted_as qs (x_core x)"
  shows "serial_inv qs w p'"
proof -
  let ?U = "hands phase_unset p'" and ?F = "hands phase_flight p'" and ?n = "unat (totalSubmitted p)"
  have pl: "plain_pool (files w) p" using inv by (simp add: serial_inv_def)
  have U: "hands phase_unset p = add_mset x ?U" and F: "hands phase_flight p = ?F" and tq: "taskQueue p' = taskQueue p"
    using a by (simp_all add: answer_step_def)
  have "x \<in># hands phase_flight p" using mset_subset_eqD [OF hands_subset, of x p] U by simp
  then have x: "task_plain (files w) x" using pl by (simp add: plain_pool_def)
  then have sq: "session_query (files w) (x_query x)" and lg: "run_logic x (world_of p) = execute (x_query x) (world_of p)"
    by (simp_all add: task_plain_def run_logic_def)
  have fw: "files (world_of p) = files w" using pl by (simp add: plain_pool_def)
  have w': "world_of p' = exec (x_query x) (world_of p)"
    and pr: "promises p' = promises p @ [(x_seq x, snd (execute (x_query x) (world_of p)))]"
    using a by (simp_all add: answer_step_def lg exec_def)
  have lanes: "lane_inv qs w ?n (taskQueue p) (add_mset x ?U) ?F (world_of p) (promises p) t" for t
    using inv U F by (simp add: serial_inv_def)
  have l2: "length qs < 2 ^ 64" using len by simp
  have new: "lane_inv qs w ?n (taskQueue p) ?U ?F (world_of p') (promises p') t" for t
    using lane_answer_self(1) [OF lanes _ s fw n l2] lane_answer_other [OF lanes _ core] sq fw unfolding w' pr by metis
  have "serial_answer qs w (x_seq x, snd (execute (x_query x) (world_of p)))"
  proof (cases "concerns (x_query x)")
    case None
    have "x_query x = qs ! (unat (x_seq x) - 1)" using core by (simp add: submitted_as_def x_core_def)
    with answer_none [OF sq None] show ?thesis unfolding serial_answer_def by (metis fst_conv snd_conv)
  next
    case (Some t)
    then have "on_table t (x_core x)" by (simp add: on_table_def x_core_def)
    from lane_answer_self(2) [OF lanes this s fw n l2] show ?thesis .
  qed
  moreover have "files (world_of p') = files w" using execute_files [OF sq] fw by (simp add: w' exec_def)
  ultimately show ?thesis using inv new pl F by (simp add: serial_inv_def plain_pool_def pr tq same)
qed

lemma serial_submit:
  assumes inv: "serial_inv qs w p" and m: "main p = Submitting (q # l)" and come: "to_come qs p" and nq: "\<not> quitFlag (taskQueue p)"
    and len: "length qs < 2 ^ 62" and s: "list_all (session_query (files w)) qs"
  shows "serial_inv qs w (submitQuery q (p\<lparr>main := Submitting l\<rparr>))"
proof -
  let ?n = "unat (totalSubmitted p)" and ?p' = "submitQuery q (p\<lparr>main := Submitting l\<rparr>)"
  have pl: "plain_pool (files w) p" using inv by (simp add: serial_inv_def)
  then have tq: "tq_plain (files w) (taskQueue p)" by (simp add: plain_pool_def)
  have d: "q # l = drop ?n qs" using come m by (simp add: to_come_def)
  then have n: "?n < length qs" by (metis drop_all list.distinct(1) not_le)
  with d have q: "q = qs ! ?n" by (simp add: Cons_nth_drop_Suc [symmetric])
  have t: "totalSubmitted p + 1 = of_nat (Suc ?n)" by simp
  have t': "unat (totalSubmitted p + 1) = Suc ?n" using n len by (simp add: unat_plus_if_size word_size)
  have sq: "session_query (files w) q" using s n unfolding q list_all_length by simp
  have loads: "loads_inv qs ?n (depManager (taskQueue p))" using inv by (simp add: serial_inv_def)
  note ld = loads_inv_submit [OF loads n sq [unfolded q], folded q]
  obtain tq' r where reg: "registerTask (prepare q (of_nat (Suc ?n))) (taskQueue p) = (tq', r)" by fastforce
  note rl = registerTask_lane [OF tq sq nq ld(1) reg]
  have "tq_inv (taskQueue p)" using tq by (simp add: tq_plain_def)
  from registerTask_spec [OF reg this] nq have r: "r = None" and pend: "size (pending tq') = Suc (size (pending (taskQueue p)))"
    by simp_all
  have p': "taskQueue ?p' = tq'" "totalSubmitted ?p' = totalSubmitted p + 1" "promises ?p' = promises p"
    "world_of ?p' = world_of p" "hands f ?p' = hands f p" for f
    using reg r unfolding submitQuery_def t [symmetric] by (simp_all add: hands_def Let_def)
  have "lane_inv qs w (Suc ?n) tq' (hands phase_unset p) (hands phase_flight p) (world_of p) (promises p) u" for u
    using inv rl [of u] ld(3) [of u] by (intro lane_submit [OF _ q]) (simp_all add: serial_inv_def)
  moreover have "loads_inv qs (Suc ?n) (depManager tq')" using ld(2) rl by blast
  moreover have "plain_pool (files w) ?p'" using pl rl pend by (simp add: plain_pool_def p' t')
  ultimately show ?thesis using inv by (simp add: serial_inv_def p' t')
qed

lemma serial_new: "session (files w) qs \<Longrightarrow> serial_inv qs w (runtime_new qs k w)"
proof -
  assume s: "session (files w) qs"
  have "gather f (replicate k Idle) = {#}" if "f Idle = []" for f :: "phase \<Rightarrow> executable_task list"
    using that by (induction k) (simp_all add: gather_def)
  then have h: "hands phase_unset (runtime_new qs k w) = {#}" "hands phase_flight (runtime_new qs k w) = {#}"
    by (simp_all add: hands_def runtime_new_def)
  have i: "queue_of t task_queue_new = []" "loads_of t task_queue_new = {#}" "announced t task_queue_new = 0"
    "index_ok 0 t (globalIndex task_queue_new)" for t
    by (simp_all add: queue_of_def loads_of_def announced_def newest_def index_ok_def versions_ok_def latest_def
        task_queue_new_def tq_of_def um_get_def table_queue_new_def gi_new_def)
  have "lane_at qs t 0 Free 0 task_queue_new {#} {#}" for t
    using i unfolding lane_at_def by (auto simp: lane_ok_def on_lane_def intro!: exI [of _ 0])
  moreover have "serial_view qs w t 0 0 w []" for t by (simp add: serial_view_def queries_of_def answered_on_def)
  ultimately have "lane_inv qs w 0 task_queue_new {#} {#} w [] t" for t unfolding lane_inv_def by blast
  moreover have "tq_plain (files w) task_queue_new"
    using task_queue_new_ok(1) by (simp add: tq_plain_def) (simp add: task_queue_new_def dm_new_def tq_of_def um_get_def table_queue_new_def)
  moreover have "loads_inv qs 0 (depManager task_queue_new)"
    using s by (intro loads_invI [of "[]" "[]"]) (simp_all add: session_def task_queue_new_def dm_new_def)
  ultimately show ?thesis
    using h by (simp add: serial_inv_def plain_pool_def runtime_new_def) (simp add: task_queue_new_def)
qed

lemma serial_reach:
  assumes "reach sel broken (runtime_new qs k w) p" and s: "session (files w) qs" and len: "length qs < 2 ^ 62"
  shows "serial_inv qs w p"
  using assms(1)
proof induction
  case start
  show ?case by (rule serial_new [OF s])
next
  case (step p a p')
  have l64: "length qs < 2 ^ 64" using len by simp
  have sq: "list_all (session_query (files w)) qs" using s by (simp add: session_def)
  note orig = origin_ok_reach [OF step.hyps(1) l64]
  then have come: "to_come qs p" by (simp add: origin_ok_def)
  then have n: "unat (totalSubmitted p) \<le> length qs" by (simp add: to_come_def)
  have tq: "tq_inv (taskQueue p)" using pool_inv_reach [OF step.hyps(1) pool_inv_new] by (simp add: pool_inv_def)
  from step.hyps(2) show ?case
  proof (cases rule: act_cases)
    case main
    show ?thesis
    proof (cases "\<exists>q l. main p = Submitting (q # l)")
      case True
      then obtain q l where l: "main p = Submitting (q # l)" by blast
      with before_start_reach [OF step.hyps(1)] have "\<not> quitFlag (taskQueue p)"
        by (simp add: submitting_def before_start_def)
      from serial_submit [OF step.IH l come this len sq] main(2) l show ?thesis by (simp add: main_step_def)
    next
      case False
      from main(2) False consider (quiet) "quiet_step p p'" "totalSubmitted p' = totalSubmitted p"
        | (ready) "p' = startExecution (p\<lparr>main := Waiting\<rparr>)"
        by (auto simp: main_step_def startExecution_def quiet_step_def hands_def split: main_pc.splits list.splits if_splits)
      then show ?thesis
      proof cases
        case quiet
        from serial_quiet [OF step.IH quiet] show ?thesis .
      next
        case ready
        with step.IH same_lanes_inv [OF same_lanes_simps(3)] show ?thesis
          by (simp add: serial_inv_def plain_pool_def startExecution_def hands_def)
      qed
    qed
  next
    case (worker i ph p1)
    have same: "totalSubmitted p' = totalSubmitted p" using work_okI [OF worker(3) tq] worker(4) by (simp add: work_ok_def)
    from worker_steps [OF worker(2,3) tq worker(4)] consider "quiet_step p p'" | x where "fetch_step sel x p p'"
      | x where "answer_step x p p'" | x where "callback_step x p p'" by blast
    then show ?thesis
    proof cases
      case 1
      from serial_quiet [OF step.IH this same] show ?thesis .
    next
      case 2
      from serial_fetch [OF step.IH this same n len] show ?thesis .
    next
      case 3
      then have "x \<in># hands phase_unset p" by (simp add: answer_step_def)
      then have "x_core x \<in># in_bag (abs_bag p)" by (auto simp: hands_def in_bag_def abs_bag_def)
      with orig have "submitted_as qs (x_core x)" by (simp add: origin_ok_def)
      from serial_answered [OF step.IH 3 same n len sq this] show ?thesis .
    next
      case 4
      from serial_callback [OF step.IH this same n len] show ?thesis .
    qed
  qed
qed

subsection \<open>A session with worker threads answers as a serial run\<close>

text \<open>The answers when the queries are executed one after the other, whatever fails.\<close>

fun serial_run :: "query list \<Rightarrow> world \<Rightarrow> query_result res list" where
  "serial_run [] w = []"
| "serial_run (q # qs) w = (let (w', r) = execute q w in r # serial_run qs w')"

lemma serial_run_nth:
  "i < length qs \<Longrightarrow> length (serial_run qs w) = length qs \<and>
     serial_run qs w ! i = snd (execute (qs ! i) (fold exec (take i qs) w))"
proof (induction qs arbitrary: i w)
  case (Cons q qs)
  have "length (serial_run qs w') = length qs" for w' using Cons.IH by (cases qs) auto
  with Cons show ?case by (cases i) (auto simp: split_def Let_def exec_def)
qed simp

lemma session_replies:
  assumes "reach sel broken (runtime_new qs n w) p" and "session (files w) qs" and "length qs < 2 ^ 62"
    and "main p = Collected (Inr as)"
  shows "list_all2 (\<lambda>(q, r) a. result_of broken (Ready r) = Inr a \<or> queryType q = QT_Load \<and> result_of broken Broken = Inr a)
     (zip qs (serial_run qs w)) as"
proof -
  let ?V = "\<lambda>s r. serial_answer qs w (s, r)"
  have V: "?V s v" if "reach sel broken (runtime_new qs n w) p" "(s, v) \<in> set (promises p)" for p s v
    using serial_reach [OF that(1) assms(2,3)] that(2) by (auto simp: serial_inv_def list_all_iff)
  have len: "length qs < 2 ^ 64" using assms(3) by simp
  have "collected p = Some (Inr as)" using assms(4) by (simp add: collected_def)
  then have "length as = length qs \<and> (\<forall>i < length qs. reply_by broken ?V qs i (as ! i))"
    by (rule collected_by [OF assms(1) len]) (rule V)
  then have c: "length as = length qs" "\<And>i. i < length qs \<Longrightarrow> reply_by broken ?V qs i (as ! i)" by blast+
  have "result_of broken (Ready (serial_run qs w ! i)) = Inr (as ! i) \<or>
      queryType (qs ! i) = QT_Load \<and> result_of broken Broken = Inr (as ! i)" if i: "i < length qs" for i
  proof -
    have u: "unat (of_nat (Suc i) :: u64) - 1 = i" using i len unfolding unat_of_nat by simp
    show ?thesis
      using c(2) [OF i] serial_run_nth [OF i, of w] unfolding reply_by_def serial_answer_def fst_conv snd_conv u by auto
  qed
  moreover have "length (serial_run qs w) = length qs" using serial_run_nth [of 0 qs w] by (cases qs) auto
  ultimately show ?thesis using c(1) by (simp add: list_all2_conv_all_nth)
qed

text \<open>
  C4: A \<open>session\<close> loads every table it works on exactly once, before the first query on it and from a file of its own that
  names no other table, and has no DUMP, DROP and COPYTABLE. Whatever the number of workers and their interleaving, the results the main
  thread collects are those of executing the queries one after the other in the order they were submitted, but for
  the LOADs: the result of a LOAD may instead be the report of a broken promise. (\<open>session_exact\<close> excludes this when at most
  16 LOADs come before the first QUIT, LIST and LISTEN.)
\<close>

theorem session_serial:
  assumes "reach sel broken (runtime_new qs n w) p" and "session (files w) qs" and "length qs < 2 ^ 62"
    and "main p = Collected (Inr as)"
  shows "list_all2 (\<lambda>(q, r) a. result_of broken (Ready r) = Inr a \<or> queryType q = QT_Load \<and> result_of broken Broken = Inr a)
     (zip qs (serial_run qs w)) as"
  using session_replies [OF assms] .

theorem session_serial_witness:
  "\<exists>as. main end_pool = Collected (Inr as) \<and>
     list_all2 (\<lambda>(q, r) a. result_of [] (Ready r) = Inr a \<or> queryType q = QT_Load \<and> result_of [] Broken = Inr a)
       (zip demo_queries (serial_run demo_queries demo_files)) as"
proof -
  have "case main end_pool of Collected (Inr as) \<Rightarrow> True | _ \<Rightarrow> False" by code_simp
  then obtain as where m: "main end_pool = Collected (Inr as)" by (auto split: main_pc.splits sum.splits)
  have s: "session (files demo_files) demo_queries" by code_simp
  from session_serial [OF end_reach [unfolded demo_new_def] s _ m] m show ?thesis
    by (simp add: demo_queries_def)
qed

subsection \<open>The order of the tasks of a table\<close>

text \<open>
  C16: In a \<open>session\<close> (which loads every table it works on exactly once, before the first query on it and from a file of
  its own that names no other table, and has no DUMP, DROP and COPYTABLE), at every moment at most one task of a table is with the workers (fetched, and its callback to come), and the tasks of a
  table are answered in the order in which they were submitted. So two reads of a table never run at the same time,
  although the locks would allow it.
\<close>

theorem session_order:
  assumes "reach sel broken (runtime_new qs n w) p" and "session (files w) qs" and "length qs < 2 ^ 62"
  shows "size (on_lane t (hands phase_flight p)) \<le> 1 \<and> sorted_wrt (<) (answered_on qs t (promises p))"
proof -
  let ?n = "unat (totalSubmitted p)"
  obtain st k where at: "lane_at qs t ?n st k (taskQueue p) (hands phase_unset p) (hands phase_flight p)"
    and v: "serial_view qs w t ?n k (world_of p) (promises p)"
    using serial_reach [OF assms] unfolding serial_inv_def lane_inv_def by blast
  have l64: "length qs < 2 ^ 64" using assms(3) by simp
  have "?n \<le> length qs" using origin_ok_reach [OF assms(1) l64] by (simp add: origin_ok_def to_come_def)
  then have "sorted_wrt (\<lambda>a b. fst a < fst b) (take k (lane_tasks qs t ?n))"
    using lane_sorted [of ?n qs t] l64 by (intro sorted_wrt_take) simp
  with v at lane_facts(2) show ?thesis unfolding lane_at_def serial_view_def by (auto simp: sorted_wrt_map)
qed

text \<open>
  C7: When all queries of a \<open>session\<close> are answered, each table is in the state that the serial run of the
  queries leaves it in.
\<close>

theorem session_tables:
  assumes "reach sel broken (runtime_new qs n w) p" and "session (files w) qs" and "length qs < 2 ^ 62"
    and "\<not> submitting p" and "set (indices p) \<subseteq> set (map fst (promises p))"
  shows "map_of (tables (db (world_of p))) t = map_of (tables (db (fold exec qs w))) t"
proof -
  let ?n = "length qs" and ?P = "lane_tasks qs t (length qs)"
  have l64: "?n < 2 ^ 64" using assms(3) by simp
  have tot: "unat (totalSubmitted p) = ?n"
    using origin_ok_reach [OF assms(1) l64] assms(4)
    by (simp add: origin_ok_def to_come_def submitting_def split: main_pc.splits)
  obtain st k where at: "lane_at qs t ?n st k (taskQueue p) (hands phase_unset p) (hands phase_flight p)"
    and v: "serial_view qs w t ?n k (world_of p) (promises p)"
    using serial_reach [OF assms(1-3)] unfolding serial_inv_def lane_inv_def tot by blast
  have k: "k \<le> length ?P" using at lane_facts(3) unfolding lane_at_def by blast
  have "\<not> k < length ?P"
  proof
    assume lt: "k < length ?P"
    from lane_nth [OF this] obtain i where i: "i < ?n" "?P ! k = the_core (of_nat (Suc i)) (qs ! i)" by blast
    let ?s = "of_nat (Suc i) :: u64"
    have s: "unat ?s = Suc i" using i(1) l64 unfolding unat_of_nat by simp
    have "?P ! k \<in> set ?P" using lt by (rule nth_mem)
    then have "on_table t (?P ! k)" unfolding lane_tasks_def set_filter by blast
    then have "concerns (qs ! i) = Some t" unfolding i(2) by (simp add: on_table_def the_core_def)
    moreover have "?s \<in> set (indices p)" unfolding indices_def tot set_map set_upt using i(1) by (intro imageI) simp
    ultimately have "?s \<in> set (answered_on qs t (promises p))"
      using assms(5) s by (auto simp: answered_on_def simp del: of_nat_Suc)
    then have "?s \<in> fst ` set (take k ?P)" using v unfolding serial_view_def by simp
    then obtain c where "c \<in> set (take k ?P)" "?s = fst c" by blast
    then obtain j where j: "j < k" "fst (?P ! j) = ?s" using k by (auto simp: in_set_conv_nth)
    from sorted_wrt_nth_less [OF lane_sorted [OF l64] j(1) lt] j(2) i(2) show False by (simp add: the_core_def)
  qed
  with k have "take k ?P = ?P" by simp
  with v have "table_view t (world_of p) = table_view t (fold exec (filter (\<lambda>q. concerns q = Some t) qs) w)"
    using queries_of_lane [of ?n qs t] unfolding serial_view_def by simp
  also have "\<dots> = table_view t (fold exec qs w)"
    using sq.projection [of "files w" qs w t] assms(2) by (simp add: session_def)
  finally show ?thesis by (simp add: table_view_def)
qed

theorem session_order_witness:
  "size (on_lane ''a'' (hands phase_flight quit_pool)) \<le> 1 \<and> answered_on demo_queries ''a'' (promises quit_pool) = [1, 2] \<and>
     sorted_wrt (<) (answered_on demo_queries ''a'' (promises quit_pool))"
proof (intro conjI)
  have s: "session (files demo_files) demo_queries" by code_simp
  note o = session_order [OF quit_reach [unfolded demo_new_def] s, of "''a''"]
  from o show "size (on_lane ''a'' (hands phase_flight quit_pool)) \<le> 1"
    "sorted_wrt (<) (answered_on demo_queries ''a'' (promises quit_pool))" by (simp_all add: demo_queries_def)
  show "answered_on demo_queries ''a'' (promises quit_pool) = [1, 2]" by code_simp
qed

theorem session_tables_witness:
  "map_of (tables (db (world_of end_pool))) ''a'' = map_of (tables (db (fold exec demo_queries demo_files))) ''a'' \<and>
     map_of (tables (db (world_of end_pool))) ''a'' \<noteq> None"
proof
  have s: "session (files demo_files) demo_queries" by code_simp
  have "\<not> submitting end_pool" "set (indices end_pool) \<subseteq> set (map fst (promises end_pool))" by code_simp+
  from session_tables [OF end_reach [unfolded demo_new_def] s _ this]
  show "map_of (tables (db (world_of end_pool))) ''a'' = map_of (tables (db (fold exec demo_queries demo_files))) ''a''"
    by (simp add: demo_queries_def)
  show "map_of (tables (db (world_of end_pool))) ''a'' \<noteq> None" by code_simp
qed

end
