(* ===== verification/Lost_Table.thy ===== *)
theory Lost_Table
  imports Serial_Runs
begin

section \<open>A table that is never announced again\<close>

text \<open>
  When a fetch finds a LOAD and a table and prefers the LOAD, the table has left the index and its head is
  not announced again until another task of the table completes. A session can come to rest so, with a task in a
  queue, nothing the workers can be handed and the main thread in \<open>waitAll\<close>.
\<close>

subsection \<open>Pools at rest\<close>

definition at_rest :: "pool \<Rightarrow> bool" where
  "at_rest p \<longleftrightarrow> main p = Waiting \<and> quiet (taskQueue p) \<and> local_queue p = [] \<and> \<not> stop_requested p \<and>
     list_all (\<lambda>ph. ph \<in> idle_phases) (threads p) \<and> list_ex (\<lambda>n. future_of p n = Not_ready) (indices p)"

lemma at_rest_waits: "at_rest p \<Longrightarrow> main_step broken p = None"
  by (auto simp: at_rest_def main_step_def list_ex_iff list_all_iff)

lemma idle_unset: "list_all (\<lambda>ph. ph \<in> idle_phases) ts \<Longrightarrow> concat (map phase_unset ts) = []"
  by (induction ts) (auto simp: idle_phases_def)

lemma at_rest_act:
  assumes r: "at_rest p" and a: "act sel broken a p = Some p'"
  shows "at_rest p' \<and> future_of p' n = future_of p n"
  using a
proof (cases rule: act_cases)
  case main
  with at_rest_waits [OF r] show ?thesis by simp
next
  case (worker i ph p1)
  have idle: "list_all (\<lambda>ph. ph \<in> idle_phases) (threads p)" using r by (simp add: at_rest_def)
  then have "threads p ! i \<in> idle_phases" using worker(2) by (simp add: list_all_length)
  with quiet_worker [OF _ _ _ this worker(3)] r have same: "p1 = p" "ph \<in> idle_phases" by (simp_all add: at_rest_def)
  then have idle': "list_all (\<lambda>ph. ph \<in> idle_phases) (threads p')"
    using idle worker(4) by (auto simp: list_all_iff dest!: set_update_subset_insert [THEN subsetD])
  have "unset_tasks p' = unset_tasks p"
    unfolding unset_tasks_def idle_unset [OF idle] idle_unset [OF idle'] using worker(4) same by simp
  then have "future_of p' m = future_of p m" for m using worker(4) same by (simp add: future_of_def)
  with r idle' worker(4) same show ?thesis by (simp add: at_rest_def indices_def)
qed

lemma at_rest_reach: "reach sel broken p0 p \<Longrightarrow> at_rest p0 \<Longrightarrow> at_rest p \<and> future_of p n = future_of p0 n"
  by (induction rule: reach.induct) (use at_rest_act in \<open>auto\<close>)

subsection \<open>A session that comes to rest\<close>

text \<open>When the LIST is handed out both the INSERT and the second LOAD can be fetched; the LOAD is preferred.\<close>

definition lost_queries :: "query list" where
  "lost_queries = [LoadTableQuery ''a'' ''f'', ListTableQuery, ComplexQuery Op_Insert ''a'' [''k'', ''1''] [], LoadTableQuery ''b'' ''g'']"

definition lost_files :: world where
  "lost_files = \<lparr>db = db_new, files = [(''f'', ''a 2'' @ [CHR 0x0A] @ ''KEY c'' @ [CHR 0x0A]), (''g'', ''b 2'' @ [CHR 0x0A] @ ''KEY c'' @ [CHR 0x0A])],
     unwritable = [], out = []\<rparr>"

definition to_rest :: "actor list" where
  "to_rest = replicate 5 Main @ replicate 30 (Worker 0)"

definition rest_pool :: pool where
  "rest_pool = the (run ref_sel [] to_rest (runtime_new lost_queries 2 lost_files))"

lemma rest_facts:
  "run ref_sel [] to_rest (runtime_new lost_queries 2 lost_files) = Some rest_pool \<and> at_rest rest_pool \<and>
   future_of rest_pool 3 = Not_ready \<and> act ref_sel [] (Worker 1) rest_pool \<noteq> None"
proof -
  have "case run ref_sel [] to_rest (runtime_new lost_queries 2 lost_files) of None \<Rightarrow> False
      | Some p \<Rightarrow> at_rest p \<and> future_of p 3 = Not_ready \<and> act ref_sel [] (Worker 1) p \<noteq> None"
    unfolding at_rest_def quiet_def idle_phases_def by code_simp
  then show ?thesis unfolding rest_pool_def by (auto split: option.splits)
qed

lemma rest_reach: "reach ref_sel [] (runtime_new lost_queries 2 lost_files) rest_pool"
  using run_reach [OF reach.start] rest_facts by blast

text \<open>
  C27: A session that loads each table before its use, LOAD a; LIST; INSERT into a; LOAD b, can come to rest
  with two workers: from the state \<open>rest_pool\<close>, which a run of it reaches, no interleaving executes
  the INSERT any more, and the main thread never gets past \<open>waitAll\<close>.
\<close>

theorem lost_table_hangs:
  assumes "reach sel broken rest_pool p"
  shows "session (files lost_files) lost_queries \<and> reach ref_sel [] (runtime_new lost_queries 2 lost_files) rest_pool \<and>
     main p = Waiting \<and> main_step broken p = None \<and> future_of p 3 = Not_ready"
proof -
  have "session (files lost_files) lost_queries" by code_simp
  moreover have "at_rest p" "future_of p 3 = Not_ready" using at_rest_reach [OF assms, of 3] rest_facts by simp_all
  ultimately show ?thesis using rest_reach at_rest_waits [of p broken] by (simp add: at_rest_def)
qed

theorem lost_table_hangs_witness:
  "\<exists>p. act ref_sel [] (Worker 1) rest_pool = Some p \<and> main p = Waiting \<and> main_step [] p = None \<and> future_of p 3 = Not_ready"
proof -
  have "act ref_sel [] (Worker 1) rest_pool \<noteq> None" using rest_facts by blast
  then obtain p where p: "act ref_sel [] (Worker 1) rest_pool = Some p" by blast
  from lost_table_hangs [OF reach.step [OF reach.start p]] p show ?thesis by blast
qed

end
