(* ===== verification/Exact_Fetch.thy ===== *)
theory Exact_Fetch
  imports Table_Tokens
begin

section \<open>Fetches that lose nothing\<close>

text \<open>
  When no table is announced while a LOAD is queued, a fetch has one candidate at most, so it loses no LOAD and
  no announcement, and it hands out a task whenever there is one. This theory has these facts and what else a
  session needs to end: a fetch raises no exception, and a callback announces its table.
\<close>

subsection \<open>Announcements\<close>

lemma upsert_announces: "1 \<le> newest t (upsert (Some t) p tick hs g)"
  by (simp add: newest_def upsert_def pq_push_def Let_def current_def map_of_um_put)

lemma announce_announces: "tqueue (tq_of t tq) \<noteq> [] \<Longrightarrow> 1 \<le> newest t (globalIndex (announce t tq))"
  using upsert_announces [of t] by (cases "tqueue (tq_of t tq)") (simp_all add: announce_index)

lemma tq_of_announce [simp]: "tq_of u (announce t tq) = tq_of u tq"
  by (simp add: tq_of_def)

lemma fold_announce_keeps:
  "tqueue (tq_of u tq) \<noteq> [] \<Longrightarrow> u \<in> set ts \<or> 1 \<le> newest u (globalIndex tq) \<Longrightarrow>
   1 \<le> newest u (globalIndex (fold announce ts tq))"
proof (induction ts arbitrary: tq)
  case (Cons t ts)
  have "u \<in> set ts \<or> 1 \<le> newest u (globalIndex (announce t tq))"
  proof (cases "u = t")
    case True
    with announce_announces Cons.prems(1) show ?thesis by blast
  next
    case False
    with Cons.prems(2) announce_other [OF False, of tq] show ?thesis by simp
  qed
  with Cons.IH [of "announce t tq"] Cons.prems(1) show ?case by simp
qed simp

text \<open>A table with tasks keeps its announcement, in the index or among the blocked tables, unless it is taken.\<close>

lemma take_table_keeps:
  "take_table sel tq = (r, tq') \<Longrightarrow> tqueue (tq_of u tq) \<noteq> [] \<Longrightarrow>
   announced u tq' + (if r = Some u then 1 else 0) = announced u tq"
proof (induction rule: take_table_rule)
  case (none tq g)
  from pick_newest(1) [OF none(1), where u = u] show ?case by (simp add: announced_def)
next
  case (skip tq g t r tq')
  then have "u \<noteq> t" by auto
  with pick_newest(1) [OF skip(1), where u = u] skip(3,4) show ?case by (simp add: announced_def tq_of_def)
next
  case (block tq g t r tq')
  from pick_newest(1) [OF block(1), where u = u] block(4,5) show ?case
    by (simp add: announced_def tq_of_def split: if_splits)
next
  case (take tq g t)
  from pick_newest(1) [OF take(1), where u = u] show ?case by (simp add: announced_def split: if_splits)
qed

text \<open>Tables are blocked only behind a barrier, and the search ends with an empty index.\<close>

lemma take_table_blocks:
  "take_table sel tq = (r, tq') \<Longrightarrow> (barriers tq = [] \<longrightarrow> waitingTables tq' = waitingTables tq) \<and>
     (r = None \<longrightarrow> heap (globalIndex tq') = [])"
proof (induction rule: take_table_rule)
  case (none tq g)
  then show ?case using pick_loop_spec [of sel "latestVersion (globalIndex tq)" "heap (globalIndex tq)"]
    by (fastforce simp: pickBest_def split: prod.splits)
qed (simp_all add: beyond_barrier_def)

subsection \<open>One candidate at most\<close>

lemma fetch_flags [simp]:
  "readyToFetch (count_fetch tq) = readyToFetch tq" "loadBlocked (count_fetch tq) = loadBlocked tq"
  "waitingTables (count_fetch tq) = waitingTables tq" "tq_of u (count_fetch tq) = tq_of u tq"
  "readyToFetch (pop_table t tq) = readyToFetch tq" "loadBlocked (pop_table t tq) = loadBlocked tq"
  by (simp_all add: count_fetch_def pop_table_def set_tq_def tq_of_def Let_def)

text \<open>While a LOAD is queued it is before every barrier and no table is announced.\<close>

definition no_clash :: "task_queue \<Rightarrow> bool" where
  "no_clash tq \<longleftrightarrow>
     (loadQueue tq \<noteq> [] \<longrightarrow> \<not> loadBlocked tq \<and> \<not> beyond_barrier (hd (loadQueue tq)) tq \<and> (\<forall>u. newest u (globalIndex tq) = 0))"

definition blocked_ok :: "task_queue \<Rightarrow> bool" where
  "blocked_ok tq \<longleftrightarrow> (loadBlocked tq \<or> waitingTables tq \<noteq> [] \<longrightarrow> barriers tq \<noteq> [])"

text \<open>What a fetch then keeps: the other tasks, the announcements of the other tables and the registrations.\<close>

definition keeps_table :: "string \<Rightarrow> task_queue \<Rightarrow> task_queue \<Rightarrow> bool" where
  "keeps_table u tq tq' \<longleftrightarrow> registered (tq_of u tq') = registered (tq_of u tq) \<and>
     (queue_of u tq \<noteq> [] \<and> 1 \<le> announced u tq \<longrightarrow> 1 \<le> announced u tq')"

definition fetch_exact :: "task_queue \<Rightarrow> task_queue \<Rightarrow> executable_task option \<Rightarrow> bool" where
  "fetch_exact tq tq' x \<longleftrightarrow>
     pending tq = pending tq' + fetched_core x \<and> (blocked_ok tq \<longrightarrow> blocked_ok tq') \<and>
     (loadQueue tq \<noteq> [] \<longrightarrow> loadBlocked tq' = loadBlocked tq) \<and>
     readyToFetch tq' = readyToFetch tq \<and> set (barriers tq') \<subseteq> set (barriers tq) \<and> loadQueue tq' = tl (loadQueue tq) \<and>
     (if loadQueue tq = [] then \<forall>y. x = Some y \<longrightarrow> x_type y \<noteq> QT_Load
      else \<exists>y. x = Some y \<and> x_core y = core (hd (loadQueue tq)) \<and> (\<forall>u. newest u (globalIndex tq') = 0)) \<and>
     (\<forall>u. (\<forall>y. x = Some y \<longrightarrow> \<not> on_table u (x_core y)) \<longrightarrow> keeps_table u tq tq') \<and>
     (\<forall>u. registered (tq_of u tq') = registered (tq_of u tq))"

lemma head_plain: "tq_plain fs tq \<Longrightarrow> tqueue (tq_of v tq) \<noteq> [] \<Longrightarrow> item_plain fs (head_of v tq)"
  unfolding tq_plain_def list_all_iff head_of_def using hd_in_set by blast

lemma keeps_same: "tableQs tq' = tableQs tq \<Longrightarrow> (queue_of u tq \<noteq> [] \<Longrightarrow> 1 \<le> announced u tq \<Longrightarrow> 1 \<le> announced u tq') \<Longrightarrow>
    keeps_table u tq tq'"
  by (simp add: keeps_table_def tq_of_def)

lemma take_load_none: "loadQueue tq = [] \<Longrightarrow> take_load tq = (None, tq)"
  by (simp add: take_load_def)

lemma getFetched_no_load:
  assumes "getFetched sel tq = (l, t, tq1)" and "loadQueue tq = []"
  shows "l = None" and "take_table sel tq = (t, tq1)"
  using assms by (auto simp: getFetched_def take_load_none split: prod.splits)

lemma take_table_flags:
  "take_table sel tq = (r, tq') \<Longrightarrow> loadBlocked tq' = loadBlocked tq \<and> readyToFetch tq' = readyToFetch tq"
  by (induction rule: take_table_rule) simp_all

lemma getFetched_load:
  assumes g: "getFetched sel tq = (l, t, tq1)" and c: "no_clash tq" and q: "loadQueue tq = i # is"
  shows "l = Some i" and "t = None" and "loadQueue tq1 = is" and "newest u (globalIndex tq1) = 0"
    and "announced u tq1 = announced u tq \<or> queue_of u tq = []"
    and "waitingTables tq1 \<noteq> [] \<longrightarrow> waitingTables tq \<noteq> [] \<or> barriers tq \<noteq> []" and "loadBlocked tq1 = loadBlocked tq"
    and "readyToFetch tq1 = readyToFetch tq"
proof -
  let ?tq0 = "tq\<lparr>loadQueue := is\<rparr>"
  have l: "take_load tq = (Some i, ?tq0)" using c q by (simp add: take_load_def no_clash_def)
  with g have t: "take_table sel ?tq0 = (t, tq1)" and li: "l = Some i" by (auto simp: getFetched_def)
  note tok = take_table_tokens [OF t, where B = 0]
  have n0: "newest v (globalIndex ?tq0) = 0" for v using c q by (simp add: no_clash_def)
  show "l = Some i" by (rule li)
  show tn: "t = None"
  proof (cases t)
    case (Some v)
    with tok [of v] n0 [of v] show ?thesis by simp
  qed simp
  show "loadQueue tq1 = is" using take_table_spec [OF t] by simp
  show "newest u (globalIndex tq1) = 0" using tok [of u] n0 [of u] by simp
  show "announced u tq1 = announced u tq \<or> queue_of u tq = []"
    using take_table_keeps [OF t, of u] tn by (auto simp: queue_of_def tq_of_def announced_def)
  show "waitingTables tq1 \<noteq> [] \<longrightarrow> waitingTables tq \<noteq> [] \<or> barriers tq \<noteq> []" using take_table_blocks [OF t] by auto
  show "loadBlocked tq1 = loadBlocked tq" "readyToFetch tq1 = readyToFetch tq" using take_table_flags [OF t] by simp_all
qed

lemma barrier_exact:
  assumes f: "fetchBarrier tq = Inr (tq', x)" and p: "tq_plain fs tq" and q: "loadQueue tq = []"
  shows "fetch_exact tq tq' x"
proof (cases "barriers tq = [] \<or> running tq > 0")
  case True
  with f have "tq' = tq" "x = None" by (auto simp: fetchBarrier_def split: list.splits)
  with q show ?thesis by (simp add: fetch_exact_def fetched_core_def keeps_table_def)
next
  case False
  then obtain b bs where b: "barriers tq = b # bs" by (cases "barriers tq") auto
  let ?tq1 = "tq\<lparr>barriers := bs, quitFlag := (quitFlag tq \<or> itype b = QT_Quit)\<rparr>"
  let ?tq2 = "fold announce (waitingTables tq) (count_fetch ?tq1)"
  from f b False obtain y where y: "buildExecutableFromScheduled b ?tq1 = Inr y" and x: "x = Some y"
    and tq': "tq' = ?tq2\<lparr>waitingTables := [], loadBlocked := False\<rparr>"
    by (auto simp: fetchBarrier_def Let_def res_simps)
  have "tq_inv tq" using p by (simp add: tq_plain_def)
  from fetchBarrier_ok [OF f this] q have "pending tq = pending tq' + fetched_core x" by (simp add: fetch_ok_def)
  moreover have "itype b \<noteq> QT_Load" using p b by (auto simp: tq_plain_def tq_inv_def barrier_ok_def barrier_types_def)
  then have "x_type y \<noteq> QT_Load" using build_simps [OF y] by simp
  moreover have "keeps_table u tq tq'" for u
  proof (rule keeps_same)
    show "tableQs tq' = tableQs tq" by (simp add: tq')
    assume "queue_of u tq \<noteq> []" "1 \<le> announced u tq"
    moreover have "u \<in> set (waitingTables tq) \<or> count_list (waitingTables tq) u = 0" by (auto simp: count_list_0_iff)
    ultimately have "tqueue (tq_of u (count_fetch ?tq1)) \<noteq> []" "u \<in> set (waitingTables tq) \<or> 1 \<le> newest u (globalIndex (count_fetch ?tq1))"
      by (auto simp: queue_of_def tq_of_def announced_def)
    from fold_announce_keeps [OF this] show "1 \<le> announced u tq'" by (simp add: announced_def tq')
  qed
  ultimately show ?thesis
    using q b x by (auto simp: fetch_exact_def keeps_table_def blocked_ok_def tq')
qed

lemma fetch_load_exact:
  assumes p: "tq_plain fs tq" and c: "no_clash tq" and q: "loadQueue tq = i # is"
    and g: "getFetched sel tq = (l, t, tq1)" and y: "buildExecutableFromScheduled i tq1 = Inr y"
  shows "fetch_exact tq (count_fetch tq1) (Some y)"
proof -
  note gl = getFetched_load [OF g c q]
  note spec = getFetched_spec [OF g]
  have k: "keeps_table u tq (count_fetch tq1)" for u
    using spec gl(5) [of u] by (intro keeps_same) auto
  have "x_core y = core i" using build_simps [OF y] by simp
  with spec gl(1,3,4,6,7,8) q k show ?thesis
    by (auto simp: fetch_exact_def fetched_core_def load_core_def blocked_ok_def keeps_table_def)
qed

lemma fetch_table_exact:
  assumes p: "tq_plain fs tq" and q: "loadQueue tq = []" and t: "take_table sel tq = (Some v, tq1)"
    and y: "buildExecutableFromScheduled (head_of v tq1) tq1 = Inr y"
  shows "fetch_exact tq (count_fetch (pop_table v tq1)) (Some y) \<and> x_type y \<noteq> QT_Load"
proof -
  let ?tq' = "count_fetch (pop_table v tq1)"
  note ts = take_table_spec [OF t]
  have ne: "tqueue (tq_of v tq1) \<noteq> []" using ts by simp
  have inv: "tq_inv tq1" using p ts by (simp add: tq_plain_def tq_inv_def)
  have "list_all (\<lambda>i. item_plain fs i \<and> tableId i = v) (tqueue (tq_of v tq))" using p by (simp add: tq_plain_def)
  then have h: "item_plain fs (head_of v tq1)" "tableId (head_of v tq1) = v" "queued_ok (head_of v tq1)"
    using ne tq_inv_queue [OF inv, of v] ts by (auto simp: head_of_def list_all_iff tq_of_def)
  note b = build_plain [OF y h(1)]
  have on: "on_table v (x_core y)"
    using b h session_type [of fs "squery (head_of v tq1)"] session_table [of fs "squery (head_of v tq1)"]
    by (auto simp: on_table_def core_def item_plain_def queued_ok_def)
  have ty: "x_type y \<noteq> QT_Load" using h(3) build_simps [OF y] by (simp add: queued_ok_def)
  have qs: "tq_of u (pop_table v tq1) = (if u = v then (tq_of v tq)\<lparr>tqueue := tl (tqueue (tq_of v tq))\<rparr> else tq_of u tq)" for u
    using ts by (simp add: pop_table_def Let_def tq_of_set_tq) (simp add: tq_of_def)
  have cf: "announced u (pop_table v tq1) = announced u tq1" for u by (simp add: announced_def)
  have "keeps_table u tq ?tq'" if "\<not> on_table u (x_core y)" for u
  proof -
    have "u \<noteq> v" using that on by blast
    then show ?thesis using take_table_keeps [OF t, of u] by (simp add: keeps_table_def cf qs queue_of_def announced_def)
  qed
  moreover have "pending tq1 = pending tq" using ts by (simp add: pending_def)
  then have "pending tq = pending ?tq' + fetched_core (Some y)"
    using pending_pop_table [OF ne] b by (simp add: fetched_core_def)
  moreover have "blocked_ok tq \<longrightarrow> blocked_ok ?tq'"
    using ts take_table_blocks [OF t] take_table_flags [OF t] by (auto simp: blocked_ok_def)
  ultimately show ?thesis using on ty q ts take_table_flags [OF t] cf qs unfolding fetch_exact_def
    by auto
qed

lemma fetch_exactI:
  assumes f: "fetchNext sel tq = Inr (tq', x)" and p: "tq_plain fs tq" and c: "no_clash tq" and r: "readyToFetch tq"
  shows "fetch_exact tq tq' x"
proof -
  obtain l t tq1 where g: "getFetched sel tq = (l, t, tq1)" by (metis prod_cases3)
  have fl: "fetch_loop sel tq = Inr (tq', x)" using f r by (simp add: fetchNext_def)
  have p1: "tq_plain fs tq1" using getFetched_lane [OF g p] by blast
  show ?thesis
  proof (cases "loadQueue tq")
    case (Cons i "is")
    note gl = getFetched_load [OF g c Cons]
    have i: "item_plain fs i" "load_ok i" using p Cons by (auto simp: tq_plain_def tq_inv_def)
    from fl g gl(1,2) i obtain y where "buildExecutableFromScheduled i tq1 = Inr y" "x = Some y" "tq' = count_fetch tq1"
      by (subst (asm) fetch_loop.simps) (auto simp: judge_plain res_simps prefer_load_def)
    with fetch_load_exact [OF p c Cons g] show ?thesis by simp
  next
    case Nil
    note gn = getFetched_no_load [OF g Nil]
    show ?thesis
    proof (cases t)
      case None
      with fl g gn have "fetchBarrier tq1 = Inr (tq', x)" by (subst (asm) fetch_loop.simps) simp
      moreover have "loadQueue tq1 = []" using getFetched_spec [OF g] gn Nil by simp
      ultimately have e: "fetch_exact tq1 tq' x" using barrier_exact p1 by blast
      note tt = gn(2) [unfolded None]
      have "announced u tq1 = announced u tq \<or> queue_of u tq = []" for u
        using take_table_keeps [OF tt, of u] by (auto simp: queue_of_def)
      moreover have "queue_of u tq1 = queue_of u tq" "registered (tq_of u tq1) = registered (tq_of u tq)" for u
        using take_table_spec [OF tt] by (simp_all add: queue_of_def tq_of_def)
      ultimately have "keeps_table u tq1 tq' \<Longrightarrow> keeps_table u tq tq'" for u unfolding keeps_table_def by metis
      moreover have "pending tq1 = pending tq" "blocked_ok tq \<longrightarrow> blocked_ok tq1"
        using take_table_spec [OF tt] take_table_blocks [OF tt] take_table_flags [OF tt]
        by (auto simp: pending_def blocked_ok_def)
      ultimately show ?thesis
        using e take_table_spec [OF tt] take_table_flags [OF tt] Nil \<open>\<And>u. registered (tq_of u tq1) = registered (tq_of u tq)\<close>
        by (simp add: fetch_exact_def)
    next
      case (Some v)
      note tt = gn(2) [unfolded Some]
      note ts = take_table_spec [OF tt]
      have ne: "tqueue (tq_of v tq1) \<noteq> []" using ts by simp
      have "item_plain fs (head_of v tq1)" by (rule head_plain [OF p1 ne])
      with fl g gn Some obtain y where y: "buildExecutableFromScheduled (head_of v tq1) tq1 = Inr y" "x = Some y"
        "tq' = count_fetch (pop_table v tq1)"
        by (subst (asm) fetch_loop.simps) (auto simp: judge_plain res_simps prefer_load_def)
      with fetch_table_exact [OF p Nil tt y(1)] show ?thesis by simp
    qed
  qed
qed

subsection \<open>A fetch hands out what there is\<close>

lemma fetch_none:
  assumes f: "fetchNext sel tq = Inr (tq', None)" and p: "tq_plain fs tq" and c: "no_clash tq" and r: "readyToFetch tq"
    and b: "blocked_ok tq"
  shows "loadQueue tq = [] \<and> (barriers tq = [] \<or> running tq \<noteq> 0) \<and>
     (barriers tq = [] \<longrightarrow> (\<forall>u. queue_of u tq \<noteq> [] \<longrightarrow> announced u tq = 0))"
proof (intro conjI impI allI)
  show q: "loadQueue tq = []" using fetch_exactI [OF f p c r] by (auto simp: fetch_exact_def split: if_splits)
  have inv: "tq_inv tq" using p by (simp add: tq_plain_def)
  show "barriers tq = [] \<or> running tq \<noteq> 0" using fetchNext_ok [OF f inv r] by (auto simp: fetch_ok_def)
  fix u assume nb: "barriers tq = []" and ne: "queue_of u tq \<noteq> []"
  obtain l t tq1 where g: "getFetched sel tq = (l, t, tq1)" by (metis prod_cases3)
  note gn = getFetched_no_load [OF g q]
  have p1: "tq_plain fs tq1" using getFetched_lane [OF g p] by blast
  have "t = None"
  proof (cases t)
    case (Some v)
    have "tqueue (tq_of v tq1) \<noteq> []" using take_table_spec [OF gn(2)] Some by simp
    then have "item_plain fs (head_of v tq1)" by (rule head_plain [OF p1])
    with f r g gn(1) Some have False
      by (auto simp: fetchNext_def) (subst (asm) fetch_loop.simps, auto simp: judge_plain res_simps prefer_load_def)
    then show ?thesis ..
  qed simp
  then have tt: "take_table sel tq = (None, tq1)" using gn(2) by simp
  have "waitingTables tq1 = []" using take_table_blocks [OF tt] nb b by (simp add: blocked_ok_def)
  moreover have "newest u (globalIndex tq1) = 0" using take_table_blocks [OF tt] by (simp add: newest_def)
  ultimately have "announced u tq1 = 0" by (simp add: announced_def)
  then show "announced u tq = 0" using take_table_keeps [OF tt, of u] ne by (simp add: queue_of_def)
qed

text \<open>Every task, and every exception, comes from the construction of a task for a queued item.\<close>

definition queued_in :: "task_queue \<Rightarrow> scheduled_item \<Rightarrow> bool" where
  "queued_in tq i \<longleftrightarrow> i \<in> set (loadQueue tq) \<union> set (barriers tq) \<or> (\<exists>t. i \<in> set (tqueue (tq_of t tq)))"

lemma fetchBarrier_builds:
  assumes "fetchBarrier tq \<noteq> Inr (tq, None)"
  shows "\<exists>i tqb. queued_in tq i \<and> tableQs tqb = tableQs tq \<and>
     (case fetchBarrier tq of Inl e \<Rightarrow> buildExecutableFromScheduled i tqb = Inl e
      | Inr (_, x) \<Rightarrow> \<exists>y. x = Some y \<and> buildExecutableFromScheduled i tqb = Inr y)"
proof -
  obtain b bs where b: "barriers tq = b # bs" and r: "\<not> running tq > 0"
    using assms by (auto simp: fetchBarrier_def split: list.splits if_splits)
  let ?tq1 = "tq\<lparr>barriers := bs, quitFlag := (quitFlag tq \<or> itype b = QT_Quit)\<rparr>"
  show ?thesis
    using b r by (intro exI [of _ b] exI [of _ ?tq1])
      (cases "buildExecutableFromScheduled b ?tq1"; simp add: fetchBarrier_def queued_in_def)
qed

lemma fetch_builds:
  assumes p: "tq_plain fs tq" and "\<nexists>tq'. fetchNext sel tq = Inr (tq', None)"
  shows "\<exists>i tqb. queued_in tq i \<and> tableQs tqb = tableQs tq \<and>
     (case fetchNext sel tq of Inl e \<Rightarrow> buildExecutableFromScheduled i tqb = Inl e
      | Inr (_, x) \<Rightarrow> \<exists>y. x = Some y \<and> buildExecutableFromScheduled i tqb = Inr y)"
proof -
  obtain l t tq1 where g: "getFetched sel tq = (l, t, tq1)" by (metis prod_cases3)
  have r: "readyToFetch tq" by (rule ccontr) (use assms(2) in \<open>simp add: fetchNext_def\<close>)
  then have fn: "fetchNext sel tq = fetch_loop sel tq" by (simp add: fetchNext_def)
  note spec = getFetched_spec [OF g]
  have p1: "tq_plain fs tq1" using getFetched_lane [OF g p] by blast
  have tq1: "tq_of u tq1 = tq_of u tq" for u using spec by (simp add: tq_of_def)
  have sub: "queued_in tq i" if "queued_in tq1 i" for i
    using that spec tq1 by (cases l) (auto simp: queued_in_def)
  consider (none) "l = None" "t = None" | (load) i where "l = Some i" "prefer_load l (map_option (\<lambda>t. head_of t tq1) t)"
    | (tab) v where "t = Some v" "\<not> prefer_load l (map_option (\<lambda>t. head_of t tq1) t)"
    by (cases l; cases t) (auto simp: prefer_load_def)
  then show ?thesis
  proof cases
    case none
    then have e: "fetch_loop sel tq = fetchBarrier tq1" using g by (subst fetch_loop.simps) simp
    with assms(2) fn have "fetchBarrier tq1 \<noteq> Inr (tq1, None)" by auto
    from fetchBarrier_builds [OF this] obtain i tqb where i: "queued_in tq1 i" "tableQs tqb = tableQs tq1"
      "case fetchBarrier tq1 of Inl e \<Rightarrow> buildExecutableFromScheduled i tqb = Inl e
        | Inr (_, x) \<Rightarrow> \<exists>y. x = Some y \<and> buildExecutableFromScheduled i tqb = Inr y" by blast
    with sub [OF i(1)] spec e fn show ?thesis by (intro exI [of _ i] exI [of _ tqb]) simp
  next
    case load
    have "i \<in> set (loadQueue tq)" using spec load by auto
    then have i: "item_plain fs i" "load_ok i" "queued_in tq i"
      using p by (auto simp: tq_plain_def tq_inv_def list_all_iff queued_in_def)
    have "fetch_loop sel tq = res_bind (buildExecutableFromScheduled i tq1) (\<lambda>x. Inr (count_fetch tq1, Some x))"
      using g load i by (subst fetch_loop.simps) (simp add: judge_plain)
    with i(3) spec fn show ?thesis
      by (intro exI [of _ i] exI [of _ tq1]) (cases "buildExecutableFromScheduled i tq1"; simp)
  next
    case tab
    have ne: "tqueue (tq_of v tq1) \<noteq> []" using spec tab by auto
    then have i: "item_plain fs (head_of v tq1)" by (rule head_plain [OF p1])
    have "head_of v tq1 \<in> set (tqueue (tq_of v tq))" using ne by (simp add: head_of_def tq1)
    then have "queued_in tq (head_of v tq1)" by (auto simp: queued_in_def)
    moreover have "fetch_loop sel tq = res_bind (buildExecutableFromScheduled (head_of v tq1) tq1) (\<lambda>x.
        Inr (count_fetch (pop_table v tq1), Some x))"
      using g tab i by (subst fetch_loop.simps) (simp add: judge_plain prefer_load_def)
    ultimately show ?thesis using spec fn
      by (intro exI [of _ "head_of v tq1"] exI [of _ tq1]) (cases "buildExecutableFromScheduled (head_of v tq1) tq1"; simp)
  qed
qed

subsection \<open>No exception, and callbacks that announce\<close>

text \<open>The LOAD of a table registers it, and every other task on the table announces the table when it completes.\<close>

definition task_live :: "executable_task \<Rightarrow> bool" where
  "task_live x \<longleftrightarrow> (x_type x = QT_Load \<longrightarrow> c_actions (onCompleted x) = [RegisterTable, UpdateDeps]) \<and>
     (case concerns (x_query x) of None \<Rightarrow> True
      | Some t \<Rightarrow> x_type x = QT_Load \<or> t = controlTableId \<or> c_queue (onCompleted x) = Some t)"

definition loads_unregistered :: "task_queue \<Rightarrow> bool" where
  "loads_unregistered tq \<longleftrightarrow> list_all (\<lambda>i. \<not> registered (tq_of (tableId i) tq)) (loadQueue tq)"

lemma build_queued:
  assumes p: "tq_plain fs tq" and u: "loads_unregistered tq" and q: "queued_in tq i" and s: "tableQs tqb = tableQs tq"
  shows "\<exists>y. buildExecutableFromScheduled i tqb = Inr y \<and> task_live y"
proof -
  have inv: "tq_inv tq" using p by (simp add: tq_plain_def)
  have tb: "tq_of t tqb = tq_of t tq" for t using s by (simp add: tq_of_def)
  consider (load) "i \<in> set (loadQueue tq)" | (bar) "i \<in> set (barriers tq)" | (tab) t where "i \<in> set (tqueue (tq_of t tq))"
    using q by (auto simp: queued_in_def)
  then show ?thesis
  proof cases
    case load
    then have i: "itype i = QT_Load" "\<not> registered (tq_of (tableId i) tqb)" "squery i \<noteq> QuitQuery"
      using p u by (auto simp: loads_unregistered_def list_all_iff tb tq_plain_def tq_inv_def load_ok_def item_plain_def)
    then have "classifyActions i tqb = Inr [RegisterTable, UpdateDeps]"
      by (auto simp: classifyActions_def tq_of_def um_get_def split: option.split)
    with i show ?thesis by (auto simp: buildExecutableFromScheduled_def task_live_def split: option.split)
  next
    case bar
    then have i: "itype i \<in> set barrier_types" "item_plain fs i"
      using p by (auto simp: tq_plain_def tq_inv_def barrier_ok_def list_all_iff)
    then have "concerns (squery i) = None" using session_type [of fs "squery i"] by (simp add: item_plain_def)
    with i show ?thesis
      by (auto simp: buildExecutableFromScheduled_def classifyActions_def task_live_def barrier_types_def)
  next
    case tab
    then have i: "item_plain fs i" "tableId i = t" "queued_ok i"
      using p tq_inv_queue [OF inv, of t] by (auto simp: tq_plain_def list_all_iff)
    then have it: "itype i \<notin> {QT_Load, QT_Dump, QT_Drop, QT_CopyTable}" "concerns (squery i) \<noteq> None"
      using session_type [of fs "squery i"] by (auto simp: item_plain_def queued_ok_def)
    then obtain v where v: "concerns (squery i) = Some v" by blast
    then have tv: "t = v" "t \<noteq> []" using session_table [of fs "squery i" v] i by (auto simp: item_plain_def)
    have "um_contains (tableQs tqb) t"
      using tab s by (auto simp: um_contains_def tq_of_def um_get_def table_queue_new_def split: option.splits)
    with i it v tv show ?thesis by (auto simp: buildExecutableFromScheduled_def classifyActions_def task_live_def)
  qed
qed

lemma fetch_total:
  assumes "tq_plain fs tq" and "loads_unregistered tq"
  shows "\<exists>tq' x. fetchNext sel tq = Inr (tq', x) \<and> (\<forall>y. x = Some y \<longrightarrow> task_live y)"
proof (cases "\<exists>tq'. fetchNext sel tq = Inr (tq', None)")
  case False
  from fetch_builds [OF assms(1) False] obtain i tqb where i: "queued_in tq i" "tableQs tqb = tableQs tq"
    "case fetchNext sel tq of Inl e \<Rightarrow> buildExecutableFromScheduled i tqb = Inl e
      | Inr (_, x) \<Rightarrow> \<exists>y. x = Some y \<and> buildExecutableFromScheduled i tqb = Inr y" by blast
  from build_queued [OF assms i(1,2)] i(3) show ?thesis
    by (cases "fetchNext sel tq") (auto split: prod.splits)
qed blast

lemma callback_registered:
  assumes p: "tq_plain fs tq" and x: "task_plain fs x" and ty: "x_type x \<noteq> QT_Load"
    and o: "onCompleted_locked fs' (onCompleted x) (tq, d) = (tq', d')"
  shows "tq_of u tq' = tq_of u tq"
proof -
  obtain tq2 d2 where a: "applyUpdateDeps fs' (onCompleted x) (tq, d) = (tq2, d2)" by fastforce
  have n: "notified tq tq2" using applyUpdateDeps_plain [OF _ _ x a] p by (simp add: tq_plain_def)
  have "c_actions (onCompleted x) = [UpdateDeps]" using x ty by (auto simp: task_plain_def)
  with o a have "tq' = (case c_queue (onCompleted x) of None \<Rightarrow> tq2 | Some t \<Rightarrow> announce t tq2)"
    by (simp add: onCompleted_locked_def)
  with n show ?thesis by (auto simp: notified_def tq_of_def split: option.splits)
qed

lemma registerTable_other: "u \<noteq> t \<Longrightarrow> tq_of u (registerTableQueue t s tq) = tq_of u tq"
  by (simp add: registerTableQueue_def tq_of_set_tq Let_def)

lemma callback_load:
  assumes p: "tq_plain fs tq" and x: "task_plain fs x" "task_live x" and ty: "x_type x = QT_Load"
    and late: "\<forall>c \<in> set (queue_of (resolveTableId (x_query x)) tq). x_seq x \<le> fst c"
    and o: "onCompleted_locked fs' (onCompleted x) (tq, d) = (tq', d')"
  shows "u \<noteq> resolveTableId (x_query x) \<Longrightarrow> tq_of u tq' = tq_of u tq"
    and "u = resolveTableId (x_query x) \<Longrightarrow> queue_of u tq \<noteq> [] \<Longrightarrow> \<not> registered (tq_of u tq) \<Longrightarrow> 1 \<le> newest u (globalIndex tq')"
proof -
  let ?t = "resolveTableId (x_query x)" and ?c = "onCompleted x"
  let ?tq1 = "registerTableQueue ?t (x_seq x) tq"
  have c: "c_table ?c = ?t" "c_type ?c = QT_Load" "c_seq ?c = x_seq x" "c_actions ?c = [RegisterTable, UpdateDeps]"
    "c_queue ?c \<in> {None, Some ?t}"
    using x ty by (auto simp: task_plain_def task_live_def)
  have p1: "tq_plain fs ?tq1" using register_part [OF p late] by (simp add: callback_part_def)
  obtain tq2 d2 where a: "applyUpdateDeps fs' ?c (?tq1, d) = (tq2, d2)" by fastforce
  have n: "notified ?tq1 tq2" using applyUpdateDeps_plain [OF _ _ x(1) a] p1 by (simp add: tq_plain_def)
  have tq': "tq' = (case c_queue ?c of None \<Rightarrow> tq2 | Some t \<Rightarrow> announce t tq2)"
    using o a c by (simp add: onCompleted_locked_def applyRegisterTable_def Let_def)
  have q: "tq_of u tq' = tq_of u ?tq1" "tq_of u tq2 = tq_of u ?tq1" for u
    using n by (auto simp: tq' notified_def tq_of_def split: option.splits)
  show "u \<noteq> ?t \<Longrightarrow> tq_of u tq' = tq_of u tq" using registerTable_other q by simp
  assume u: "u = ?t" "queue_of u tq \<noteq> []" "\<not> registered (tq_of u tq)"
  have "tqueue (tq_of u ?tq1) \<noteq> []"
    using u by (auto simp: registerTableQueue_def tq_of_set_tq queue_of_def Let_def)
  moreover have "1 \<le> newest u (globalIndex ?tq1)"
    using u announce_announces by (simp add: registerTableQueue_def tq_of_set_tq queue_of_def Let_def)
  then have "1 \<le> newest u (globalIndex tq2)" using n by (auto simp: notified_def)
  ultimately show "1 \<le> newest u (globalIndex tq')"
    using announce_announces [of u tq2] q c(5) u(1) by (auto simp: tq')
qed

lemma callback_announces:
  assumes p: "tq_plain fs tq" and x: "task_plain fs x" "task_live x" and t: "on_table t (x_core x)" "t \<noteq> controlTableId"
    and o: "onCompleted_locked fs' (onCompleted x) (tq, d) = (tq', d')" and ne: "queue_of t tq \<noteq> []"
    and ty: "x_type x \<noteq> QT_Load"
  shows "1 \<le> newest t (globalIndex tq')"
proof -
  obtain tq2 d2 where a: "applyUpdateDeps fs' (onCompleted x) (tq, d) = (tq2, d2)" by fastforce
  have "c_actions (onCompleted x) = [UpdateDeps]" using x ty by (auto simp: task_plain_def)
  moreover have "c_queue (onCompleted x) = Some t" using x(2) t ty by (auto simp: task_live_def on_table_def x_core_def)
  ultimately have tq': "tq' = announce t tq2" using o a by (simp add: onCompleted_locked_def)
  have "tq_of t tq' = tq_of t tq" by (rule callback_registered [OF p x(1) ty o])
  then have "tqueue (tq_of t tq2) \<noteq> []" using ne by (simp add: tq' queue_of_def)
  from announce_announces [OF this] show ?thesis by (simp add: tq')
qed

end
