(* ===== verification/Session_Ends.thy ===== *)
theory Session_Ends
  imports Serial_Runs Exact_Fetch
begin

section \<open>Sessions that load first can always end\<close>

text \<open>
  A session whose LOADs fit in one batch and come before the first QUIT, LIST and LISTEN. In every state
  that a run of it can reach no LOAD is lost, no table is forgotten and some thread can bring the run nearer to its end: the
  run can always be continued to the point where the main thread has all its results, and these are exactly the answers of the
  serial run.
\<close>

subsection \<open>Sessions that load first\<close>

definition is_load :: "query \<Rightarrow> bool" where
  "is_load q \<longleftrightarrow> queryType q = QT_Load"

definition early_session :: "files \<Rightarrow> query list \<Rightarrow> bool" where
  "early_session fs qs \<longleftrightarrow> session fs qs \<and> list_all (\<lambda>q. concerns q \<noteq> Some controlTableId) qs \<and>
     length (filter is_load qs) \<le> FETCH_BATCH_SIZE \<and>
     list_all (\<lambda>q. \<not> is_load q) (dropWhile (\<lambda>q. queryType q \<notin> set barrier_types) qs)"

lemma early_order:
  assumes "list_all (\<lambda>q. \<not> P q) (dropWhile Q qs)" and "i < length qs" "P (qs ! i)" and "j < length qs" "\<not> Q (qs ! j)"
  shows "i < j"
proof -
  let ?m = "length (takeWhile Q qs)"
  have "?m \<le> j"
  proof (rule ccontr)
    assume "\<not> ?m \<le> j"
    then have "j < ?m" by simp
    with takeWhile_nth [OF this] nth_mem [OF this] set_takeWhileD [of _ Q qs] assms(5) show False by fastforce
  qed
  moreover have "i < ?m"
  proof (rule ccontr)
    assume "\<not> i < ?m"
    then have "qs ! i \<in> set (dropWhile Q qs)"
      using assms(2) unfolding dropWhile_eq_drop by (auto simp: in_set_conv_nth intro!: exI [of _ "i - ?m"])
    with assms(1,3) show False by (auto simp: list_all_iff)
  qed
  ultimately show ?thesis by simp
qed

text \<open>The LOADs among the tasks of a run.\<close>

definition load_tasks :: "task_core multiset \<Rightarrow> task_core multiset" where
  "load_tasks M = filter_mset (\<lambda>c. fst (snd c) = QT_Load) M"

lemma submitted_asD:
  "submitted_as qs c \<Longrightarrow> 1 \<le> unat (fst c) \<and> unat (fst c) \<le> length qs \<and> snd (snd c) = qs ! (unat (fst c) - 1) \<and>
     fst (snd c) = queryType (qs ! (unat (fst c) - 1))"
  by (cases c) (auto simp: submitted_as_def)

lemma count_le_distinct: "(\<And>x. count (mset xs) x \<le> 1) \<Longrightarrow> distinct xs"
proof (induction xs)
  case (Cons a xs)
  have "count (mset xs) x \<le> count (mset (a # xs)) x" for x by simp
  then have "count (mset xs) x \<le> 1" for x using Cons.prems order_trans by blast
  moreover have "count (mset xs) a = 0" using Cons.prems [of a] by simp
  ultimately show ?case using Cons.IH by (simp add: count_eq_zero_iff)
qed simp

lemma load_count:
  assumes "reach sel broken (runtime_new qs n w) p" and len: "length qs < 2 ^ 64"
  shows "size (load_tasks (in_bag (abs_bag p))) \<le> length (filter is_load qs)"
proof -
  obtain xs where xs: "mset xs = in_bag (abs_bag p)" using ex_mset by blast
  let ?ys = "filter (\<lambda>c. fst (snd c) = QT_Load) xs" and ?f = "\<lambda>c :: task_core. unat (fst c) - 1"
  have sub: "submitted_as qs c" if "c \<in> set xs" for c
    using that origin_ok_reach [OF assms] xs by (simp add: origin_ok_def flip: set_mset_mset)
  have "count (mset (map fst xs)) s \<le> 1" for s
  proof -
    have "count (mset (map fst xs)) s \<le> count (bag_seqs (abs_bag p)) s"
      by (simp add: xs bag_seqs_def in_bag_def)
    also have "\<dots> \<le> (if 1 \<le> s \<and> s \<le> b_next (abs_bag p) then 1 else 0)" using bag_ok_reach [OF assms] by (simp add: bag_ok_def)
    finally show ?thesis by (simp split: if_splits)
  qed
  then have d: "distinct (map fst xs)" by (rule count_le_distinct)
  have inj: "inj_on ?f (set ?ys)"
  proof (rule inj_onI)
    fix a b assume ab: "a \<in> set ?ys" "b \<in> set ?ys" "?f a = ?f b"
    then have "a \<in> set xs" "b \<in> set xs" by simp_all
    moreover from this have "1 \<le> unat (fst a)" "1 \<le> unat (fst b)" using submitted_asD sub by blast+
    with ab(3) have "unat (fst a) = unat (fst b)" by linarith
    then have "fst a = fst b" by (simp add: word_unat_eq_iff)
    ultimately show "a = b" using d by (simp add: distinct_map inj_on_def)
  qed
  have "?f ` set ?ys \<subseteq> {i. i < length qs \<and> is_load (qs ! i)}"
    using submitted_asD [OF sub] by (auto simp: is_load_def) fastforce+
  then have "card (?f ` set ?ys) \<le> card {i. i < length qs \<and> is_load (qs ! i)}" by (intro card_mono) simp_all
  moreover have "card (?f ` set ?ys) = length ?ys"
    using card_image [OF inj] distinct_card [of ?ys] d by (simp add: distinct_map)
  moreover have "length ?ys = size (load_tasks (in_bag (abs_bag p)))"
    unfolding load_tasks_def xs [symmetric] by (simp flip: size_mset)
  ultimately show ?thesis by (simp add: length_filter_conv_card)
qed

text \<open>A LOAD that waits is before every barrier that waits.\<close>

lemma load_before_barriers:
  assumes r: "reach sel broken (runtime_new qs n w) p" and e: "early_session (files w) qs" and len: "length qs < 2 ^ 64"
    and i: "i \<in> set (loadQueue (taskQueue p))"
  shows "\<not> beyond_barrier i (taskQueue p)"
proof
  assume "beyond_barrier i (taskQueue p)"
  then obtain b where b: "b \<in> set (barriers (taskQueue p))" and lt: "seq b < seq i"
    unfolding beyond_barrier_def using hd_in_set by blast
  have inv: "tq_inv (taskQueue p)" using pool_inv_reach [OF r pool_inv_new] by (simp add: pool_inv_def)
  have sub: "submitted_as qs (core j)" if "j \<in> {i, b}" for j
  proof -
    have "core j \<in># in_bag (abs_bag p)" using that i b by (auto simp: in_bag_def abs_bag_def pending_def)
    then show ?thesis using origin_ok_reach [OF r len] by (simp add: origin_ok_def)
  qed
  have ty: "itype i = QT_Load" "itype b \<in> set barrier_types"
    using inv i b by (auto simp: tq_inv_def list_all_iff load_ok_def barrier_ok_def)
  note si = submitted_asD [OF sub [of i]] and sb = submitted_asD [OF sub [of b]]
  have "unat (seq i) - 1 < unat (seq b) - 1"
  proof (rule early_order)
    show "list_all (\<lambda>q. \<not> is_load q) (dropWhile (\<lambda>q. queryType q \<notin> set barrier_types) qs)"
      using e by (simp add: early_session_def)
  qed (use si sb ty in \<open>auto simp: core_def is_load_def\<close>)
  with lt show False by (simp add: word_less_nat_alt)
qed

subsection \<open>Submissions\<close>

text \<open>Before the workers may fetch nothing is registered, announced or blocked, and every used table has its LOAD queued.\<close>

definition fresh :: "query list \<Rightarrow> nat \<Rightarrow> task_queue \<Rightarrow> bool" where
  "fresh qs n tq \<longleftrightarrow> size (pending tq) = n \<and> waitingTables tq = [] \<and> \<not> loadBlocked tq \<and>
     (\<forall>t. \<not> registered (tq_of t tq) \<and> newest t (globalIndex tq) = 0 \<and> (lane_tasks qs t n \<noteq> [] \<longrightarrow> loads_of t tq \<noteq> {#}))"

lemma register_keeps:
  "registered (tq_of u (fst (registerTask q tq))) = registered (tq_of u tq)"
  "loadBlocked (fst (registerTask q tq)) = loadBlocked tq"
proof -
  have e: "registered (tq_of u (enqueue i tq')) = registered (tq_of u tq')" "loadBlocked (enqueue i tq') = loadBlocked tq'" for i tq'
    by (simp_all add: enqueue_def tq_of_set_tq Let_def) (simp add: set_tq_def)
  show "registered (tq_of u (fst (registerTask q tq))) = registered (tq_of u tq)"
    "loadBlocked (fst (registerTask q tq)) = loadBlocked tq"
    by (simp_all add: registerTask_def Let_def split_def e) (simp_all add: tq_of_def)
qed

lemma fresh_submit:
  assumes f: "fresh qs n tq" and inv: "tq_plain fs tq" and q: "session_query fs (qs ! n)" and nq: "\<not> quitFlag tq"
    and l: "loads_inv qs n (depManager tq)" and n: "n < length qs"
  shows "fresh qs (Suc n) (fst (registerTask (prepare (qs ! n) (of_nat (Suc n))) tq))"
proof -
  let ?q = "qs ! n"
  obtain tq' r where reg: "registerTask (prepare ?q (of_nat (Suc n))) tq = (tq', r)" by fastforce
  note rl = registerTask_lane [OF inv q nq loads_inv_submit(1) [OF l n q] reg]
  have "size (pending tq') = Suc (size (pending tq))"
    using registerTask_spec [OF reg] inv nq by (simp add: tq_plain_def)
  moreover have "loads_of t tq' \<noteq> {#}" if "lane_tasks qs t (Suc n) \<noteq> []" for t
  proof (cases "lane_tasks qs t n = []")
    case True
    with that have "concerns ?q = Some t" by (auto simp: lane_tasks_Suc split: if_splits)
    with loads_inv_submit(3) [OF l n q this] True rl [of t] show ?thesis by (simp add: submit_lane_def)
  next
    case False
    with f rl [of t] show ?thesis by (simp add: submit_lane_def fresh_def)
  qed
  ultimately show ?thesis
    using f rl register_keeps(1) [of _ "prepare ?q (of_nat (Suc n))" tq] register_keeps(2) [of "prepare ?q (of_nat (Suc n))" tq] reg
    by (simp add: fresh_def del: of_nat_Suc)
qed

lemma fresh_reach:
  assumes "reach sel broken (runtime_new qs k w) p" and s: "session (files w) qs" and len: "length qs < 2 ^ 62" and "submitting p"
  shows "fresh qs (unat (totalSubmitted p)) (taskQueue p) \<and> \<not> terminated p"
  using assms(1,4)
proof induction
  case start
  show ?case
    by (simp add: fresh_def runtime_new_def task_queue_new_def pending_def queue_cores_def waiting_items_def um_items_def dm_new_def
        tq_of_def um_get_def table_queue_new_def newest_def gi_new_def)
next
  case (step p a p')
  have l64: "length qs < 2 ^ 64" using len by simp
  from step.hyps(2) show ?case
  proof (cases rule: act_cases)
    case main
    with step.prems obtain q l where l: "main p = Submitting (q # l)" and p': "p' = submitQuery q (p\<lparr>main := Submitting l\<rparr>)"
      by (auto simp: main_step_def submitting_def startExecution_def split: main_pc.splits list.splits if_splits)
    then have sp: "submitting p" by (simp add: submitting_def)
    let ?n = "unat (totalSubmitted p)"
    have "to_come qs p" using origin_ok_reach [OF step.hyps(1) l64] by (simp add: origin_ok_def)
    then have d: "q # l = drop ?n qs" using l by (simp add: to_come_def)
    then have n: "?n < length qs" by (metis drop_all list.distinct(1) not_le)
    with d have q: "q = qs ! ?n" by (simp add: Cons_nth_drop_Suc [symmetric])
    have t: "totalSubmitted p + 1 = of_nat (Suc ?n)" by simp
    have t': "unat (totalSubmitted p + 1) = Suc ?n" using n len by (simp add: unat_plus_if_size word_size)
    have sq: "session_query (files w) (qs ! ?n)" using s n by (simp add: session_def list_all_length)
    have nq: "\<not> quitFlag (taskQueue p)" using before_start_reach [OF step.hyps(1) sp] by (simp add: before_start_def)
    have inv: "serial_inv qs w p" by (rule serial_reach [OF step.hyps(1) s len])
    from fresh_submit [OF conjunct1 [OF step.IH [OF sp]] _ sq nq _ n] inv
    have "fresh qs (Suc ?n) (fst (registerTask (prepare q (of_nat (Suc ?n))) (taskQueue p)))"
      by (simp add: serial_inv_def plain_pool_def q)
    with step.IH [OF sp] t' show ?thesis unfolding p' submitQuery_def t [symmetric] by (simp add: split_def Let_def)
  next
    case (worker i ph p1)
    have "tq_inv (taskQueue p)" using pool_inv_reach [OF step.hyps(1) pool_inv_new] by (simp add: pool_inv_def)
    from work_okI [OF worker(3) this] worker(4) step.prems have sp: "submitting p" by (simp add: work_ok_def submitting_def)
    from before_start_worker [OF conjunct1 [OF before_start_reach [OF step.hyps(1) sp]] worker(2,3)] worker(4) step.IH [OF sp]
    show ?thesis by simp
  qed
qed

subsection \<open>No table is forgotten\<close>

text \<open>
  A table has a task with the workers, or all its queries are answered, or the head of its queue is announced, or its
  LOAD is queued.
\<close>

definition table_live :: "query list \<Rightarrow> pool \<Rightarrow> string \<Rightarrow> bool" where
  "table_live qs p t \<longleftrightarrow> on_lane t (hands phase_flight p) \<noteq> {#} \<or>
     length (answered_on qs t (promises p)) = length (lane_tasks qs t (unat (totalSubmitted p))) \<or>
     1 \<le> announced t (taskQueue p) \<and> queue_of t (taskQueue p) \<noteq> [] \<or> loads_of t (taskQueue p) \<noteq> {#}"

definition unloaded :: "pool \<Rightarrow> string \<Rightarrow> bool" where
  "unloaded p t \<longleftrightarrow> registered (tq_of t (taskQueue p)) \<longrightarrow> loads_of t (taskQueue p) = {#} \<and>
     (\<forall>x \<in># hands phase_flight p. x_type x = QT_Load \<longrightarrow> \<not> on_table t (x_core x))"

definition in_hand :: "executable_task \<Rightarrow> bool" where
  "in_hand x \<longleftrightarrow> task_live x \<and> concerns (x_query x) \<noteq> Some controlTableId"

definition lanes_live :: "query list \<Rightarrow> pool \<Rightarrow> bool" where
  "lanes_live qs p \<longleftrightarrow> readyToFetch (taskQueue p) \<and> blocked_ok (taskQueue p) \<and> (\<forall>x \<in># hands phase_flight p. in_hand x) \<and>
     (\<forall>t. unloaded p t \<and> table_live qs p t) \<and>
     size (pending (taskQueue p)) + size (hands phase_unset p) + length (promises p) = unat (totalSubmitted p)"

lemma filter_mset_mem: "x \<in># M \<Longrightarrow> P x \<Longrightarrow> filter_mset P M \<noteq> {#}"
  by (metis count_empty count_filter_mset not_in_iff)

lemma on_lane_mem: "x \<in># M \<Longrightarrow> on_table t (x_core x) \<Longrightarrow> on_lane t M \<noteq> {#}"
  unfolding on_lane_def by (intro filter_mset_mem [of "x_core x"]) simp_all

lemma no_loads: "tq_plain fs tq \<Longrightarrow> loadQueue tq = [] \<longleftrightarrow> (\<forall>t. loads_of t tq = {#})"
proof
  assume p: "tq_plain fs tq" and l: "\<forall>t. loads_of t tq = {#}"
  show "loadQueue tq = []"
  proof (cases "loadQueue tq")
    case (Cons i "is")
    then have i: "item_plain fs i" "itype i = QT_Load" using p by (auto simp: tq_plain_def tq_inv_def load_ok_def)
    then obtain t f where "squery i = LoadTableQuery t f" using session_load [of fs "squery i"] by (auto simp: item_plain_def)
    then have "loads_of t tq \<noteq> {#}" using Cons by (simp add: loads_of_def on_table_def core_def)
    with l show ?thesis by blast
  qed simp
qed (simp add: loads_of_def)

lemma live_unregistered:
  assumes p: "tq_plain fs (taskQueue p)" and l: "lanes_live qs p"
  shows "loads_unregistered (taskQueue p)"
  unfolding loads_unregistered_def list_all_iff
proof
  fix i assume "i \<in> set (loadQueue (taskQueue p))"
  moreover from this have i: "item_plain fs i" "itype i = QT_Load"
    using p by (auto simp: tq_plain_def tq_inv_def load_ok_def list_all_iff)
  then obtain t f where q: "squery i = LoadTableQuery t f" using session_load [of fs "squery i"] by (auto simp: item_plain_def)
  with i session_table [of fs "squery i" t] have "tableId i = t" by (simp add: item_plain_def)
  moreover have "on_table t (core i)" using q by (simp add: on_table_def core_def)
  ultimately have "loads_of (tableId i) (taskQueue p) \<noteq> {#}" unfolding loads_of_def by (intro filter_mset_mem [of "core i"]) simp_all
  with l show "\<not> registered (tq_of (tableId i) (taskQueue p))" by (auto simp: lanes_live_def unloaded_def)
qed

text \<open>Steps that the tables do not see, and answers.\<close>

lemma same_tables:
  assumes "same_lanes tq tq'"
  shows "tq_of t tq' = tq_of t tq" "loads_of t tq' = loads_of t tq" "queue_of t tq' = queue_of t tq" "announced t tq' = announced t tq"
  using assms by (simp_all add: same_lanes_def tq_of_def loads_of_def queue_of_def announced_def)

lemma live_quiet:
  assumes l: "lanes_live qs p" and q: "quiet_step p p'" and same: "totalSubmitted p' = totalSubmitted p"
  shows "lanes_live qs p'"
proof -
  have s: "same_lanes (taskQueue p) (taskQueue p')" using q same_lanes_simps by (auto simp: quiet_step_def)
  have "readyToFetch (taskQueue p') = readyToFetch (taskQueue p)" "loadBlocked (taskQueue p') = loadBlocked (taskQueue p)"
    using q by (auto simp: quiet_step_def onCompleted_count_def)
  with l q s same_tables [OF s] same_lanes_inv(3) [OF s] same show ?thesis
    by (simp add: lanes_live_def unloaded_def table_live_def quiet_step_def blocked_ok_def same_lanes_def)
qed

lemma live_answer:
  assumes l: "lanes_live qs p" and a: "answer_step x p p'" and same: "totalSubmitted p' = totalSubmitted p"
    and core: "submitted_as qs (x_core x)"
  shows "lanes_live qs p'"
proof -
  have h: "hands phase_flight p' = hands phase_flight p" "hands phase_unset p = add_mset x (hands phase_unset p')"
    "taskQueue p' = taskQueue p" and pr: "map fst (promises p') = map fst (promises p) @ [x_seq x]"
    using a by (simp_all add: answer_step_def)
  have "x \<in># hands phase_flight p" using mset_subset_eqD [OF hands_subset, of x p] h by simp
  then have on: "on_lane t (hands phase_flight p) \<noteq> {#}" if "on_table t (x_core x)" for t
    using that by (rule on_lane_mem)
  have off: "answered_on qs t (promises p') = answered_on qs t (promises p)" if "\<not> on_table t (x_core x)" for t
    using that submitted_asD [OF core] unfolding answered_on_def pr by (simp add: on_table_def x_core_def)
  have "table_live qs p' t" for t
    using l h same on [of t] off [of t] by (cases "on_table t (x_core x)") (simp_all add: lanes_live_def table_live_def)
  moreover have "length (promises p') = Suc (length (promises p))" using a by (simp add: answer_step_def)
  ultimately show ?thesis using l h same by (simp add: lanes_live_def unloaded_def)
qed

text \<open>A fetch.\<close>

lemma serial_fetch_lane:
  assumes inv: "serial_inv qs w p" and f: "fetchNext sel (taskQueue p) = Inr (tq', x)"
    and n: "unat (totalSubmitted p) \<le> length qs" and len: "length qs < 2 ^ 62"
  shows "fetch_lane t (taskQueue p) tq' x"
proof -
  have pl: "plain_pool (files w) p" using inv by (simp add: serial_inv_def)
  then have "tq_plain (files w) (taskQueue p)" by (simp add: plain_pool_def)
  note fp = fetchNext_plain [OF f this]
  obtain st k B where ok: "lane_ok st k (lane_tasks qs t (unat (totalSubmitted p))) (queue_of t (taskQueue p)) (on_lane t (hands phase_unset p))
      (on_lane t (hands phase_flight p)) (loads_of t (taskQueue p)) (announced t (taskQueue p))"
    and B: "index_ok B t (globalIndex (taskQueue p))" "B + 2 * size (on_lane t (hands phase_flight p)) \<le> 3 * unat (fetchTick (taskQueue p))"
    using inv unfolding serial_inv_def lane_inv_def lane_at_def by blast
  have "Suc B < 2 ^ 64" using B(2) plain_tick [OF pl n len] by simp
  with fp lane_facts(1) [OF ok] B(1) show ?thesis unfolding fetch_plain_def by blast
qed

lemma fetch_loads:
  assumes "fetch_exact tq tq' x" and "\<nexists>y. x = Some y \<and> on_table t (x_core y)"
  shows "loads_of t tq' = loads_of t tq"
  using assms by (cases "loadQueue tq") (auto simp: fetch_exact_def loads_of_def)

lemma live_fetch:
  assumes inv: "serial_inv qs w p" and l: "lanes_live qs p" and f: "fetch_step sel x p p'" and c: "no_clash (taskQueue p)"
    and same: "totalSubmitted p' = totalSubmitted p" and n: "unat (totalSubmitted p) \<le> length qs" and len: "length qs < 2 ^ 62"
    and orig: "origin_ok qs p'" and names: "list_all (\<lambda>q. concerns q \<noteq> Some controlTableId) qs"
  shows "lanes_live qs p'"
proof -
  let ?tq = "taskQueue p" and ?tq' = "taskQueue p'"
  have fn: "fetchNext sel ?tq = Inr (?tq', x)" and U: "hands phase_unset p' = hands phase_unset p + taken x"
    and F: "hands phase_flight p' = hands phase_flight p + taken x" and pr: "promises p' = promises p"
    using f by (simp_all add: fetch_step_def)
  have tq: "tq_plain (files w) ?tq" using inv by (simp add: serial_inv_def plain_pool_def)
  have "readyToFetch ?tq" using l by (simp add: lanes_live_def)
  from fetch_exactI [OF fn tq c this] have e: "fetch_exact ?tq ?tq' x" .
  have lane: "fetch_lane t ?tq ?tq' x" for t by (rule serial_fetch_lane [OF inv fn n len])
  have "table_live qs p' t" for t
  proof (cases "\<exists>y. x = Some y \<and> on_table t (x_core y)")
    case True
    then show ?thesis by (auto simp: table_live_def F on_lane_taken)
  next
    case False
    then have "untouched t ?tq ?tq'" "on_lane t (hands phase_flight p') = on_lane t (hands phase_flight p)"
      using lane [of t] by (auto simp: fetch_lane_def F on_lane_taken split: option.splits if_splits)
    moreover have "keeps_table t ?tq ?tq'" using e False by (auto simp: fetch_exact_def)
    moreover have "table_live qs p t" using l by (simp add: lanes_live_def)
    ultimately show ?thesis
      using fetch_loads [OF e False] by (auto simp: table_live_def untouched_def keeps_table_def pr same)
  qed
  moreover have "unloaded p' t" for t
    unfolding unloaded_def
  proof (intro impI)
    assume "registered (tq_of t ?tq')"
    then have "registered (tq_of t ?tq)" using e by (simp add: fetch_exact_def)
    with l have none: "loads_of t ?tq = {#}" and no: "\<forall>x \<in># hands phase_flight p. x_type x = QT_Load \<longrightarrow> \<not> on_table t (x_core x)"
      by (simp_all add: lanes_live_def unloaded_def)
    have "\<not> on_table t (x_core y)" if "x = Some y" "x_type y = QT_Load" for y
      using e none that by (cases "loadQueue ?tq") (auto simp: fetch_exact_def loads_of_def split: if_splits)
    with no have "\<forall>x \<in># hands phase_flight p'. x_type x = QT_Load \<longrightarrow> \<not> on_table t (x_core x)"
      by (auto simp: F taken_def split: option.splits)
    moreover have "loads_of t ?tq' = {#}"
      using e none by (cases "loadQueue ?tq") (auto simp: fetch_exact_def loads_of_def split: if_splits)
    ultimately show "loads_of t ?tq' = {#} \<and> (\<forall>x \<in># hands phase_flight p'. x_type x = QT_Load \<longrightarrow> \<not> on_table t (x_core x))"
      by blast
  qed
  moreover have "in_hand y" if "x = Some y" for y
  proof -
    have "task_live y" using fetch_total [OF tq live_unregistered [OF tq l], of sel] fn that by auto
    moreover have "x_core y \<in># in_bag (abs_bag p')"
      using U that by (auto simp: in_bag_def abs_bag_def hands_def taken_def)
    then have "submitted_as qs (x_core y)" using orig by (simp add: origin_ok_def)
    then have "x_query y \<in> set qs" using submitted_asD by (fastforce simp: x_core_def)
    ultimately show ?thesis using names by (simp add: in_hand_def list_all_iff)
  qed
  then have "\<forall>x \<in># hands phase_flight p'. in_hand x"
    using l by (auto simp: F taken_def lanes_live_def split: option.splits)
  moreover have "size (pending ?tq') + size (hands phase_unset p') = size (pending ?tq) + size (hands phase_unset p)"
  proof -
    have "pending ?tq = pending ?tq' + fetched_core x" using e by (simp add: fetch_exact_def)
    then show ?thesis by (cases x) (simp_all add: U fetched_core_def taken_def)
  qed
  ultimately show ?thesis using l e by (simp add: lanes_live_def same pr fetch_exact_def)
qed

text \<open>A callback.\<close>

lemma serial_free:
  assumes inv: "serial_inv qs w p" and c: "callback_step x p p'" and t: "on_table t (x_core x)"
  shows "loads_of t (taskQueue p) = {#} \<and> on_lane t (hands phase_flight p') = {#} \<and>
     (let k = length (answered_on qs t (promises p)); P = lane_tasks qs t (unat (totalSubmitted p))
      in k \<le> length P \<and> queue_of t (taskQueue p) = drop k P)"
proof -
  let ?P = "lane_tasks qs t (unat (totalSubmitted p))"
  have U: "hands phase_unset p = hands phase_unset p'" and F: "hands phase_flight p = add_mset x (hands phase_flight p')"
    using c by (simp_all add: callback_step_def)
  have F': "on_lane t (hands phase_flight p) = add_mset (x_core x) (on_lane t (hands phase_flight p'))"
    using t by (simp add: F on_lane_add)
  have li: "lane_inv qs w (unat (totalSubmitted p)) (taskQueue p) (hands phase_unset p) (hands phase_flight p) (world_of p) (promises p) t"
    using inv by (simp add: serial_inv_def)
  obtain st k where ok: "lane_ok st k ?P (queue_of t (taskQueue p)) (on_lane t (hands phase_unset p'))
      (add_mset (x_core x) (on_lane t (hands phase_flight p'))) (loads_of t (taskQueue p)) (announced t (taskQueue p))"
    and v: "serial_view qs w t (unat (totalSubmitted p)) k (world_of p) (promises p)"
    using li unfolding lane_inv_def lane_at_def U F' by blast
  have "on_lane t (hands phase_unset p') \<subseteq># on_lane t (hands phase_flight p')"
    unfolding on_lane_def by (intro multiset_filter_mono image_mset_subseteq_mono hands_subset)
  from lane_called [OF ok this lane_facts(1) [OF ok]]
  have free: "lane_ok Free k ?P (queue_of t (taskQueue p)) (on_lane t (hands phase_unset p')) (on_lane t (hands phase_flight p'))
      (loads_of t (taskQueue p)) (announced t (taskQueue p))" and k: "k \<le> length ?P" "queue_of t (taskQueue p) = drop k ?P" by blast+
  have "length (answered_on qs t (promises p)) = k" using v k(1) by (simp add: serial_view_def)
  with free k show ?thesis by (simp add: lane_ok_def Let_def)
qed

lemma live_callback:
  assumes inv: "serial_inv qs w p" and l: "lanes_live qs p" and c: "callback_step x p p'"
    and same: "totalSubmitted p' = totalSubmitted p" and n: "unat (totalSubmitted p) \<le> length qs" and len: "length qs < 2 ^ 62"
  shows "lanes_live qs p'"
proof -
  let ?tq = "taskQueue p" and ?tq' = "taskQueue p'" and ?t = "resolveTableId (x_query x)"
  have U: "hands phase_unset p' = hands phase_unset p" and F: "hands phase_flight p = add_mset x (hands phase_flight p')"
    and pr: "promises p' = promises p" using c by (simp_all add: callback_step_def)
  have tq: "tq_plain (files w) ?tq" using inv by (simp add: serial_inv_def plain_pool_def)
  note called = serial_called [OF inv c n len]
  from called(3) obtain m where m: "callback_part m (files w) ?t ?tq ?tq'" "concerns (x_query x) = None \<longrightarrow> m = 0" by (elim exE conjE)
  obtain d where o: "onCompleted_locked (files (world_of p)) (onCompleted x) (?tq, db (world_of p)) = (?tq', d)"
    using c by (auto simp: callback_step_def)
  have x: "in_hand x" "session_query (files w) (x_query x)" using l F called(1) by (simp_all add: lanes_live_def task_plain_def)
  have q: "queue_of u ?tq' = queue_of u ?tq" "loads_of u ?tq' = loads_of u ?tq" for u using m(1) by (simp_all add: callback_part_def)
  have lv: "unloaded p u" "table_live qs p u" for u using l by (simp_all add: lanes_live_def)
  have "unloaded p' u \<and> table_live qs p' u" for u
  proof (cases "on_table u (x_core x)")
    case True
    then have u: "?t = u" "u \<noteq> controlTableId"
      using session_table [OF x(2)] x(1) by (auto simp: on_table_def x_core_def in_hand_def)
    note free = serial_free [OF inv c True, unfolded Let_def]
    have "unloaded p' u"
      using free on_lane_mem [of _ "hands phase_flight p'" u] by (auto simp: unloaded_def q)
    moreover have "1 \<le> newest u (globalIndex ?tq')" if ne: "queue_of u ?tq \<noteq> []"
    proof (cases "x_type x = QT_Load")
      case ld: True
      then have "\<not> registered (tq_of u ?tq)" using lv(1) [of u] True F by (auto simp: unloaded_def)
      from callback_load(2) [OF tq called(1) _ ld _ o u(1) [symmetric] ne this] x(1) called(2) ld show ?thesis
        by (simp add: in_hand_def)
    next
      case False
      from callback_announces [OF tq called(1) _ True u(2) o ne False] x(1) show ?thesis by (simp add: in_hand_def)
    qed
    then have "table_live qs p' u" using free by (cases "queue_of u ?tq = []") (simp_all add: table_live_def q pr same announced_def)
    ultimately show ?thesis ..
  next
    case False
    then have "u \<noteq> ?t \<or> m = 0" using m(2) session_table [OF x(2)]
      by (cases "concerns (x_query x)") (auto simp: on_table_def x_core_def)
    from callback_other [OF m(1) this] have "announced u ?tq' = announced u ?tq" by blast
    moreover have "registered (tq_of u ?tq') = registered (tq_of u ?tq)"
    proof (cases "x_type x = QT_Load")
      case True
      then obtain v f where "x_query x = LoadTableQuery v f"
        using session_load [OF x(2)] called(1) by (auto simp: task_plain_def)
      with False x(2) have "u \<noteq> ?t" using session_table [OF x(2), of v] by (auto simp: on_table_def x_core_def)
      from callback_load(1) [OF tq called(1) _ True _ o this] x(1) called(2) True show ?thesis by (simp add: in_hand_def)
    next
      case no: False
      from callback_registered [OF tq called(1) no o] show ?thesis by simp
    qed
    moreover have "on_lane u (hands phase_flight p') = on_lane u (hands phase_flight p)" using False by (simp add: F on_lane_add)
    ultimately show ?thesis using lv [of u] by (auto simp: unloaded_def table_live_def q pr same F)
  qed
  moreover have "pending ?tq' = pending ?tq" using onCompleted_locked_spec [OF o] tq by (simp add: tq_plain_def)
  moreover have "readyToFetch ?tq' = readyToFetch ?tq" "blocked_ok ?tq' = blocked_ok ?tq"
    using m(1) by (simp_all add: callback_part_def blocked_ok_def)
  ultimately show ?thesis using l by (simp add: lanes_live_def U F pr same)
qed

subsection \<open>The LOADs come first\<close>

text \<open>While a LOAD is queued the workers only collect LOADs, and nothing is announced.\<close>

fun calm_phase :: "phase \<Rightarrow> bool" where
  "calm_phase Idle = True"
| "calm_phase (Fetching xs) = list_all (\<lambda>x. x_type x = QT_Load) xs"
| "calm_phase (Merging xs) = (xs = [])"
| "calm_phase _ = False"

definition calm :: "pool \<Rightarrow> bool" where
  "calm p \<longleftrightarrow> local_queue p = [] \<and> list_all calm_phase (threads p) \<and> \<not> loadBlocked (taskQueue p) \<and>
     (\<forall>u. newest u (globalIndex (taskQueue p)) = 0)"

definition live_inv :: "query list \<Rightarrow> pool \<Rightarrow> bool" where
  "live_inv qs p \<longleftrightarrow> lanes_live qs p \<and> \<not> terminated p \<and> \<not> stop_requested p \<and> Stopped \<notin> set (threads p) \<and>
     (loadQueue (taskQueue p) \<noteq> [] \<longrightarrow> calm p)"

lemma idle_hands:
  assumes "local_queue p = []" and "list_all (\<lambda>ph. ph \<in> idle_phases) (threads p)"
  shows "hands phase_unset p = {#} \<and> hands phase_flight p = {#} \<and> live_tasks p = 0"
proof -
  have "gather phase_unset ts = {#} \<and> gather phase_flight ts = {#} \<and> gather phase_live ts = {#}"
    if "list_all (\<lambda>ph. ph \<in> idle_phases) ts" for ts
    using that by (induction ts) (auto simp: gather_def idle_phases_def)
  with assms show ?thesis by (simp add: hands_def live_tasks_def)
qed

lemma live_start:
  assumes f: "fresh qs (unat (totalSubmitted p)) (taskQueue p)" and b: "before_start p" and t: "\<not> terminated p"
  shows "live_inv qs (startExecution (p\<lparr>main := Waiting\<rparr>))"
proof -
  let ?p' = "startExecution (p\<lparr>main := Waiting\<rparr>)"
  have ph: "list_all (\<lambda>ph. ph \<in> {Idle, Fetching [], Merging []}) (threads p)" using b by (simp add: before_start_def)
  then have h: "hands phase_unset ?p' = {#}" "hands phase_flight ?p' = {#}"
    using b idle_hands [of ?p'] by (simp_all add: startExecution_def before_start_def idle_phases_def)
  have s: "same_lanes (taskQueue p) (taskQueue ?p')" using same_lanes_simps(3) by (simp add: startExecution_def)
  note same = same_tables [OF s] same_lanes_inv(3) [OF s]
  have tq: "readyToFetch (taskQueue ?p')" "loadBlocked (taskQueue ?p') = loadBlocked (taskQueue p)"
    "waitingTables (taskQueue ?p') = waitingTables (taskQueue p)" "globalIndex (taskQueue ?p') = globalIndex (taskQueue p)"
    by (simp_all add: startExecution_def setReady_def)
  have p': "promises ?p' = []" "totalSubmitted ?p' = totalSubmitted p" "local_queue ?p' = []" "threads ?p' = threads p"
    "terminated ?p' = terminated p" "\<not> stop_requested ?p'"
    using b by (simp_all add: startExecution_def before_start_def)
  have "table_live qs ?p' u" for u
    using f by (cases "lane_tasks qs u (unat (totalSubmitted p)) = []") (simp_all add: table_live_def p' same fresh_def answered_on_def)
  then have "lanes_live qs ?p'"
    using f by (simp add: lanes_live_def h tq p' same unloaded_def fresh_def blocked_ok_def)
  moreover have "calm ?p'" using f ph by (auto simp: calm_def p' tq fresh_def list_all_iff)
  moreover have "Stopped \<notin> set (threads p)" using ph by (auto simp: list_all_iff)
  ultimately show ?thesis using t by (simp add: live_inv_def p')
qed

lemma live_clash:
  assumes r: "reach sel broken (runtime_new qs n w) p" and e: "early_session (files w) qs" and len: "length qs < 2 ^ 64"
    and l: "live_inv qs p"
  shows "no_clash (taskQueue p)"
  using l load_before_barriers [OF r e len, of "hd (loadQueue (taskQueue p))"]
  by (auto simp: no_clash_def live_inv_def calm_def)

text \<open>A batch of LOADs is never full while another LOAD is queued.\<close>

lemma loads_fit:
  assumes r: "reach sel broken (runtime_new qs n w) p" and e: "early_session (files w) qs" and len: "length qs < 2 ^ 64"
    and q: "loadQueue (taskQueue p) \<noteq> []" and i: "i < length (threads p)" "threads p ! i = Fetching xs"
    and xs: "list_all (\<lambda>x. x_type x = QT_Load) xs"
  shows "length xs < FETCH_BATCH_SIZE"
proof -
  have "tq_inv (taskQueue p)" using pool_inv_reach [OF r pool_inv_new] by (simp add: pool_inv_def)
  then have ld: "list_all load_ok (loadQueue (taskQueue p))" by (simp add: tq_inv_def)
  have "core (hd (loadQueue (taskQueue p))) \<in># load_tasks (pending (taskQueue p))"
    using q hd_in_set [OF q] ld by (auto simp: load_tasks_def pending_def list_all_iff load_ok_def core_def)
  then have "1 \<le> size (load_tasks (pending (taskQueue p)))" by (metis One_nat_def Suc_leI nonempty_has_size empty_iff set_mset_empty)
  moreover have "mset (map x_core xs) \<subseteq># image_mset x_core (gather phase_unset (threads p))"
    using image_mset_subseteq_mono [OF gather_mem [OF i(1), of phase_unset], of x_core] i(2) by simp
  then have "load_tasks (mset (map x_core xs)) \<subseteq># load_tasks (image_mset x_core (gather phase_unset (threads p)))"
    unfolding load_tasks_def by (rule multiset_filter_mono)
  from size_mset_mono [OF this] have "size (load_tasks (mset (map x_core xs))) \<le> size (load_tasks (image_mset x_core (gather phase_unset (threads p))))" .
  moreover have "load_tasks (mset (map x_core xs)) = mset (map x_core xs)"
    using xs unfolding load_tasks_def by (induction xs) (simp_all add: x_core_def)
  moreover have "size (load_tasks (in_bag (abs_bag p))) \<le> FETCH_BATCH_SIZE"
    using load_count [OF r len] e by (simp add: early_session_def)
  ultimately show ?thesis by (simp add: in_bag_def abs_bag_def load_tasks_def)
qed

subsection \<open>The invariant\<close>

text \<open>No step of a worker ends the program, and none stops while nobody asks for it.\<close>

lemma worker_flags:
  assumes "work sel ph p = Some (ph', p')" and "\<exists>tq x. fetchNext sel (taskQueue p) = Inr (tq, x)"
  shows "terminated p' = terminated p \<and> stop_requested p' = stop_requested p \<and> (\<not> stop_requested p \<longrightarrow> ph' \<noteq> Stopped)"
  using assms by (cases ph) (auto simp: take_local_def split: if_splits list.splits option.splits prod.splits)

lemma calm_worker:
  assumes c: "calm p" and i: "i < length (threads p)" and w: "work sel (threads p ! i) p = Some (ph, p1)"
    and stop: "\<not> stop_requested p" and fit: "\<And>xs. threads p ! i = Fetching xs \<Longrightarrow> length xs < FETCH_BATCH_SIZE"
    and ld: "\<exists>tq y. fetchNext sel (taskQueue p) = Inr (tq, Some y) \<and> x_type y = QT_Load \<and> loadBlocked tq = loadBlocked (taskQueue p) \<and>
      (\<forall>u. newest u (globalIndex tq) = 0)"
  shows "calm (p1\<lparr>threads := (threads p1)[i := ph]\<rparr>)"
proof -
  have all: "list_all calm_phase ((threads p)[i := ph'])" if "calm_phase ph'" for ph'
    using c that by (auto simp: calm_def list_all_iff dest!: set_update_subset_insert [THEN subsetD])
  have "calm_phase (threads p ! i)" using c i by (simp add: calm_def list_all_length)
  then consider "threads p ! i = Idle" | xs where "threads p ! i = Fetching xs" "list_all (\<lambda>x. x_type x = QT_Load) xs"
    | "threads p ! i = Merging []" by (cases "threads p ! i") auto
  then show ?thesis
  proof cases
    case 1
    with w c stop have "p1 = p" "ph = Fetching []" by (auto simp: calm_def)
    with c all [of ph] show ?thesis by (simp add: calm_def)
  next
    case 2
    from ld obtain tq y where y: "fetchNext sel (taskQueue p) = Inr (tq, Some y)" "x_type y = QT_Load"
      "loadBlocked tq = loadBlocked (taskQueue p)" "\<forall>u. newest u (globalIndex tq) = 0" by blast
    with w 2 fit [OF 2(1)] have "p1 = p\<lparr>taskQueue := tq\<rparr>" "ph = Fetching (xs @ [y])" by auto
    with c y 2(2) all [of ph] show ?thesis by (simp add: calm_def)
  next
    case 3
    with w c have "p1 = p" "ph = Idle" by (auto simp: calm_def take_local_def)
    with c all [of ph] show ?thesis by (simp add: calm_def)
  qed
qed

lemma lanes_worker:
  assumes r: "reach sel broken (runtime_new qs n w) p" and e: "early_session (files w) qs" and len: "length qs < 2 ^ 62"
    and lanes: "lanes_live qs p" and c: "no_clash (taskQueue p)"
    and i: "i < length (threads p)" and wk: "work sel (threads p ! i) p = Some (ph, p1)"
    and p': "p' = p1\<lparr>threads := (threads p1)[i := ph]\<rparr>" and r': "reach sel broken (runtime_new qs n w) p'"
  shows "lanes_live qs p' \<and> (loadQueue (taskQueue p) = [] \<longrightarrow> loadQueue (taskQueue p') = [])"
    and "\<exists>tq x. fetchNext sel (taskQueue p) = Inr (tq, x)" and "tq_plain (files w) (taskQueue p)"
proof -
  let ?tq = "taskQueue p" and ?tq' = "taskQueue p'"
  have l64: "length qs < 2 ^ 64" using len by simp
  have s: "session (files w) qs" and names: "list_all (\<lambda>q. concerns q \<noteq> Some controlTableId) qs" using e by (simp_all add: early_session_def)
  have inv: "serial_inv qs w p" and inv': "serial_inv qs w p'" by (rule serial_reach [OF r s len], rule serial_reach [OF r' s len])
  then show tq: "tq_plain (files w) ?tq" by (simp add: serial_inv_def plain_pool_def)
  have tq': "tq_plain (files w) ?tq'" using inv' by (simp add: serial_inv_def plain_pool_def)
  have ti: "tq_inv ?tq" using tq by (simp add: tq_plain_def)
  have same: "totalSubmitted p' = totalSubmitted p" using work_okI [OF wk ti] by (simp add: work_ok_def p')
  have n: "unat (totalSubmitted p) \<le> length qs" using origin_ok_reach [OF r l64] by (simp add: origin_ok_def to_come_def)
  have rdy: "readyToFetch ?tq" using lanes by (simp add: lanes_live_def)
  show "\<exists>tq x. fetchNext sel ?tq = Inr (tq, x)" using fetch_total [OF tq live_unregistered [OF tq lanes], of sel] by blast
  from worker_steps [OF i wk ti p'] show "lanes_live qs p' \<and> (loadQueue ?tq = [] \<longrightarrow> loadQueue ?tq' = [])"
  proof (elim disjE exE)
    assume q: "quiet_step p p'"
    then have "same_lanes ?tq ?tq'" using same_lanes_simps by (auto simp: quiet_step_def)
    with live_quiet [OF lanes q same] show ?thesis by (simp add: same_lanes_def)
  next
    fix x assume f: "fetch_step sel x p p'"
    then have "fetchNext sel ?tq = Inr (?tq', x)" by (simp add: fetch_step_def)
    note fetch_exactI [OF this tq c rdy]
    with live_fetch [OF inv lanes f c same n len origin_ok_reach [OF r' l64] names] show ?thesis by (simp add: fetch_exact_def)
  next
    fix x assume a: "answer_step x p p'"
    then have "x_core x \<in># in_bag (abs_bag p)" by (auto simp: answer_step_def hands_def in_bag_def abs_bag_def)
    then have "submitted_as qs (x_core x)" using origin_ok_reach [OF r l64] by (simp add: origin_ok_def)
    from live_answer [OF lanes a same this] a show ?thesis by (simp add: answer_step_def)
  next
    fix x assume cb: "callback_step x p p'"
    from serial_called(3) [OF inv cb n len] have "loads_of t ?tq' = loads_of t ?tq" for t by (auto simp: callback_part_def)
    with live_callback [OF inv lanes cb same n len] no_loads [OF tq] no_loads [OF tq'] show ?thesis by simp
  qed
qed

lemma live_worker:
  assumes r: "reach sel broken (runtime_new qs n w) p" and e: "early_session (files w) qs" and len: "length qs < 2 ^ 62"
    and l: "live_inv qs p" and i: "i < length (threads p)" and wk: "work sel (threads p ! i) p = Some (ph, p1)"
    and p': "p' = p1\<lparr>threads := (threads p1)[i := ph]\<rparr>" and r': "reach sel broken (runtime_new qs n w) p'"
  shows "live_inv qs p'"
proof -
  let ?tq = "taskQueue p" and ?tq' = "taskQueue p'"
  have l64: "length qs < 2 ^ 64" using len by simp
  have lanes: "lanes_live qs p" and stop: "\<not> stop_requested p" "\<not> terminated p" "Stopped \<notin> set (threads p)"
    and calm: "loadQueue ?tq \<noteq> [] \<Longrightarrow> calm p" using l by (simp_all add: live_inv_def)
  have rdy: "readyToFetch ?tq" using lanes by (simp add: lanes_live_def)
  have c: "no_clash ?tq" by (rule live_clash [OF r e l64 l])
  note step = lanes_worker [OF r e len lanes c i wk p' r']
  note tq = step(3) and total = step(2)
  have ti: "tq_inv ?tq" using tq by (simp add: tq_plain_def)
  have thr: "threads p1 = threads p" using work_okI [OF wk ti] by (simp add: work_ok_def)
  note flags = worker_flags [OF wk total]
  have "calm p'" if "loadQueue ?tq' \<noteq> []"
  proof -
    have q: "loadQueue ?tq \<noteq> []" using that step(1) by blast
    note cp = calm [OF q]
    obtain tq1 x where f: "fetchNext sel ?tq = Inr (tq1, x)" using total by blast
    note ex = fetch_exactI [OF f tq c rdy]
    then obtain y where y: "x = Some y" "x_core y = core (hd (loadQueue ?tq))" "\<forall>u. newest u (globalIndex tq1) = 0"
      "loadBlocked tq1 = loadBlocked ?tq" using q by (auto simp: fetch_exact_def)
    have "itype (hd (loadQueue ?tq)) = QT_Load" using ti hd_in_set [OF q] by (auto simp: tq_inv_def list_all_iff load_ok_def)
    then have "x_type y = QT_Load" using y(2) by (simp add: x_core_def core_def)
    moreover have "length xs < FETCH_BATCH_SIZE" if "threads p ! i = Fetching xs" for xs
      using loads_fit [OF r e l64 q i that] cp i that by (metis calm_def calm_phase.simps(2) list_all_length)
    ultimately show ?thesis unfolding p' using f y by (intro calm_worker [OF cp i wk stop(1)]) auto
  qed
  moreover have "Stopped \<notin> set (threads p')"
    using stop(1,3) flags thr by (auto simp: p' dest!: set_update_subset_insert [THEN subsetD])
  ultimately show ?thesis using stop flags step(1) by (simp add: live_inv_def p')
qed

lemma live_reach:
  assumes "reach sel broken (runtime_new qs n w) p" and e: "early_session (files w) qs" and len: "length qs < 2 ^ 62"
    and "main p = Waiting"
  shows "live_inv qs p"
  using assms(1,4)
proof induction
  case start
  then show ?case by (simp add: runtime_new_def)
next
  case (step p a p')
  have s: "session (files w) qs" using e by (simp add: early_session_def)
  from step.hyps(2) show ?case
  proof (cases rule: act_cases)
    case main
    with step.prems have sub: "main p = Submitting []" and p': "p' = startExecution (p\<lparr>main := Waiting\<rparr>)"
      by (auto simp: main_step_def submitQuery_def Let_def split: main_pc.splits list.splits if_splits prod.splits)
    then have sp: "submitting p" by (simp add: submitting_def)
    from fresh_reach [OF step.hyps(1) s len sp] before_start_reach [OF step.hyps(1) sp] show ?thesis
      unfolding p' by (intro live_start) simp_all
  next
    case (worker i ph p1)
    have "tq_inv (taskQueue p)" using pool_inv_reach [OF step.hyps(1) pool_inv_new] by (simp add: pool_inv_def)
    from work_okI [OF worker(3) this] worker(4) step.prems have "main p = Waiting" by (simp add: work_ok_def)
    from live_worker [OF step.hyps(1) e len step.IH [OF this] worker(2,3,4) reach.step [OF step.hyps]] show ?thesis .
  qed
qed

subsection \<open>No promise is broken\<close>

text \<open>Every submitted number is in its place, so each query is waiting, with a worker, or answered.\<close>

lemma all_seqs:
  assumes r: "reach sel broken (runtime_new qs n w) p" and len: "length qs < 2 ^ 64"
    and size: "size (bag_seqs (abs_bag p)) = unat (totalSubmitted p)"
  shows "set (indices p) \<subseteq> set_mset (bag_seqs (abs_bag p))"
proof -
  let ?N = "unat (totalSubmitted p)"
  obtain xs where xs: "mset xs = bag_seqs (abs_bag p)" using ex_mset by blast
  have le: "count (mset xs) s \<le> (if 1 \<le> s \<and> s \<le> totalSubmitted p then 1 else 0)" for s
    using bag_ok_reach [OF r len] by (simp add: xs bag_ok_def abs_bag_def)
  then have d: "distinct xs" by (intro count_le_distinct order_trans [OF le]) simp
  have "s \<in> set (indices p)" if "s \<in> set xs" for s
  proof -
    have "0 < count (mset xs) s" using that by simp
    with le [of s] have "1 \<le> s \<and> s \<le> totalSubmitted p" by (auto split: if_splits)
    then have "1 \<le> unat s" "unat s \<le> ?N" by (simp_all add: word_le_nat_alt)
    then have "unat s \<in> {1..<Suc ?N}" by simp
    then have "of_nat (unat s) \<in> (of_nat :: nat \<Rightarrow> u64) ` {1..<Suc ?N}" by (rule imageI)
    then show ?thesis by (simp only: indices_def set_map set_upt) simp
  qed
  then have "set xs \<subseteq> set (indices p)" by blast
  moreover have "card (set (indices p)) \<le> card (set xs)"
  proof -
    have "card (set (indices p)) \<le> ?N" using card_length [of "indices p"] by (simp add: indices_def del: upt_Suc)
    also have "?N = length xs" using size by (simp flip: xs)
    finally show ?thesis using d by (simp add: distinct_card)
  qed
  ultimately have "set xs = set (indices p)" by (intro card_seteq) simp_all
  then show ?thesis by (simp flip: xs)
qed

lemma waiting_future:
  assumes r: "reach sel broken (runtime_new qs n w) p" and e: "early_session (files w) qs" and len: "length qs < 2 ^ 62"
    and m: "main p = Waiting" and s: "s \<in> set (indices p)"
  shows "future_of p s \<noteq> Broken"
proof -
  have l64: "length qs < 2 ^ 64" using len by simp
  have "lanes_live qs p" using live_reach [OF r e len m] by (simp add: live_inv_def)
  then have "size (bag_seqs (abs_bag p)) = unat (totalSubmitted p)"
    by (simp add: lanes_live_def bag_seqs_def abs_bag_def hands_def)
  from all_seqs [OF r l64 this] s have "s \<in># bag_seqs (abs_bag p)" by blast
  then have "s \<in> set (map fst (promises p)) \<or> s \<in># image_mset fst (pending (taskQueue p)) \<or>
      s \<in> x_seq ` (set (local_queue p) \<union> set_mset (gather phase_unset (threads p)))"
    by (auto simp: bag_seqs_def abs_bag_def multiset.map_comp o_def)
  then have "s \<in> set (map fst (promises p)) \<or> s \<in> set (map x_seq (unset_tasks p) @ queued_seqs (taskQueue p))"
    unfolding pending_queued by (auto simp: unset_tasks_def gather_def)
  then show ?thesis by (auto simp: future_of_def map_of_eq_None_iff split: option.splits)
qed

lemma res_map_cong: "list_all2 (\<lambda>x y. f x = g y) xs ys \<Longrightarrow> res_map f xs = res_map g ys"
  by (induction rule: list_all2_induct) simp_all

lemma early_results:
  assumes r: "reach sel broken (runtime_new qs n w) p" and e: "early_session (files w) qs" and len: "length qs < 2 ^ 62"
    and m: "main p = Waiting" and rdy: "list_all (\<lambda>n. future_of p n \<noteq> Not_ready) (indices p)"
  shows "getResultsInOrder broken p = res_map (\<lambda>r. result_of broken (Ready r)) (serial_run qs w)"
proof -
  have l64: "length qs < 2 ^ 64" using len by simp
  have s: "session (files w) qs" using e by (simp add: early_session_def)
  have t: "unat (totalSubmitted p) = length qs"
    using origin_ok_reach [OF r l64] m by (simp add: origin_ok_def to_come_def)
  then have ix: "length (indices p) = length qs" "\<And>i. i < length qs \<Longrightarrow> indices p ! i = of_nat (Suc i)"
    by (simp_all add: indices_def del: upt_Suc)
  have sl: "length (serial_run qs w) = length qs" using serial_run_nth [of 0 qs w] by (cases qs) auto
  have "future_of p (indices p ! i) = Ready (serial_run qs w ! i)" if i: "i < length qs" for i
  proof -
    let ?s = "indices p ! i"
    have mem: "?s \<in> set (indices p)" using i ix(1) by (intro nth_mem) simp
    have "future_of p ?s \<noteq> Not_ready" using rdy mem by (simp add: list_all_iff)
    with waiting_future [OF r e len m mem] obtain v where v: "map_of (promises p) ?s = Some v" "future_of p ?s = Ready v"
      by (auto simp: future_of_def split: option.splits if_splits)
    have "serial_answer qs w (?s, v)"
      using serial_reach [OF r s len] map_of_SomeD [OF v(1)] by (auto simp: serial_inv_def list_all_iff)
    moreover have "unat ?s - 1 = i" using i l64 unfolding ix(2) [OF i] unat_of_nat by simp
    ultimately have "v = serial_run qs w ! i" using serial_run_nth [OF i, of w] by (simp add: serial_answer_def)
    with v(2) show ?thesis by simp
  qed
  then have "list_all2 (\<lambda>n r. result_of broken (future_of p n) = result_of broken (Ready r)) (indices p) (serial_run qs w)"
    using ix(1) sl by (simp add: list_all2_conv_all_nth)
  from res_map_cong [OF this] show ?thesis by (simp add: getResultsInOrder_def)
qed

subsection \<open>The work that is left\<close>

text \<open>How much is left to do: tasks count more the further they are from their end.\<close>

fun phase_work :: "phase \<Rightarrow> nat" where
  "phase_work (Fetching xs) = (if xs = [] then 0 else 8 * length xs + 1)"
| "phase_work (Merging xs) = 8 * length xs"
| "phase_work (Have x) = 6"
| "phase_work (Locked x) = 5"
| "phase_work (Ran x) = 4"
| "phase_work (Notified x) = 3"
| "phase_work (Counted x) = 2"
| "phase_work _ = 0"

definition queued_work :: "pool \<Rightarrow> nat" where
  "queued_work p = 10 * size (pending (taskQueue p)) + 7 * length (local_queue p)"

definition left_work :: "pool \<Rightarrow> nat" where
  "left_work p = queued_work p + sum_list (map phase_work (threads p))"

lemma take_local_work:
  assumes "take_local xs p = (ph, p')"
  shows "queued_work p' + phase_work ph + (if local_queue p @ xs = [] then 0 else 1) \<le> queued_work p + 8 * length xs \<and>
    (local_queue p @ xs = [] \<longrightarrow> ph = Idle \<and> p' = p)"
proof (cases "local_queue p @ xs")
  case Nil
  with assms show ?thesis by (simp add: take_local_def)
next
  case (Cons x q)
  from arg_cong [OF this, of length] have "length (local_queue p) + length xs = Suc (length q)" by simp
  with Cons assms show ?thesis by (auto simp: take_local_def queued_work_def)
qed

text \<open>A worker that does not only go round has less to do after its step.\<close>

definition goes_round :: "phase \<Rightarrow> pool \<Rightarrow> phase \<Rightarrow> pool \<Rightarrow> bool" where
  "goes_round ph p ph' p' \<longleftrightarrow> ph \<in> idle_phases \<and> ph' \<in> idle_phases \<and> queued_work p' \<le> queued_work p \<and>
     local_queue p' = local_queue p \<and> (ph \<noteq> Fetching [] \<longrightarrow> p' = p \<and> local_queue p = []) \<and>
     ph' = (if ph = Idle then Fetching [] else if ph = Fetching [] then Merging [] else Idle)"

lemma worker_work:
  assumes w: "work sel ph p = Some (ph', p')" and inv: "tq_inv (taskQueue p)" and stop: "\<not> stop_requested p"
    and total: "\<exists>tq x. fetchNext sel (taskQueue p) = Inr (tq, x)"
  shows "queued_work p' + phase_work ph' < queued_work p + phase_work ph \<or> goes_round ph p ph' p'"
proof (cases ph)
  case Idle
  show ?thesis
  proof (cases "local_queue p = []")
    case True
    with Idle w stop show ?thesis by (auto simp: goes_round_def idle_phases_def)
  next
    case False
    with Idle w stop have "take_local [] p = (ph', p')" by simp
    from take_local_work [OF this] False Idle show ?thesis by simp
  qed
next
  case (Fetching xs)
  show ?thesis
  proof (cases "FETCH_BATCH_SIZE \<le> length xs")
    case True
    with Fetching w show ?thesis by (auto simp: FETCH_BATCH_SIZE_def)
  next
    case False
    obtain tq x where f: "fetchNext sel (taskQueue p) = Inr (tq, x)" using total by blast
    obtain lost where "pending (taskQueue p) = pending tq + lost + fetched_core x" using fetchNext_keeps [OF inv f] by blast
    from arg_cong [OF this, of size] have sz: "size (pending tq) + size (fetched_core x) \<le> size (pending (taskQueue p))" by simp
    show ?thesis
    proof (cases x)
      case None
      with w Fetching False f sz show ?thesis by (auto simp: goes_round_def idle_phases_def queued_work_def)
    next
      case (Some y)
      with w Fetching False f have "ph' = Fetching (xs @ [y])" "p' = p\<lparr>taskQueue := tq\<rparr>" by auto
      with sz Some Fetching show ?thesis by (simp add: queued_work_def fetched_core_def)
    qed
  qed
next
  case (Merging xs)
  with w have "take_local xs p = (ph', p')" by simp
  from take_local_work [OF this] Merging show ?thesis by (auto simp: goes_round_def idle_phases_def split: if_splits)
next
  case (Ran x)
  obtain tq d where o: "onCompleted_locked (files (world_of p)) (onCompleted x) (taskQueue p, db (world_of p)) = (tq, d)"
    by fastforce
  from onCompleted_locked_spec [OF o inv] Ran w o show ?thesis by (auto simp: queued_work_def)
qed (use w in \<open>auto simp: queued_work_def pending_def onCompleted_count_def split: option.splits prod.splits\<close>)

lemma left_work_update:
  assumes "i < length (threads p)" and "threads p1 = threads p"
  shows "left_work (p1\<lparr>threads := (threads p1)[i := ph]\<rparr>) + phase_work (threads p ! i) + queued_work p =
    left_work p + phase_work ph + queued_work p1"
proof -
  have "phase_work (threads p ! i) \<le> sum_list (map phase_work (threads p))"
    using assms(1) by (intro member_le_sum_list) simp_all
  then show ?thesis
    using assms by (simp add: left_work_def map_update sum_list_update) (simp add: queued_work_def)
qed

lemma threads_reach: "reach sel broken p0 p \<Longrightarrow> pool_inv p0 \<Longrightarrow> length (threads p) = length (threads p0)"
proof (induction rule: reach.induct)
  case (step p a p')
  from step.hyps(2) show ?case
  proof (cases rule: act_cases)
    case main
    then have "threads p' = threads p"
      by (auto simp: main_step_def submitQuery_def startExecution_def Let_def split: main_pc.splits list.splits if_splits prod.splits)
    with step show ?thesis by simp
  next
    case (worker i ph p1)
    have "tq_inv (taskQueue p)" using pool_inv_reach [OF step.hyps(1) step.prems] by (simp add: pool_inv_def)
    from work_okI [OF worker(3) this] worker(4) step show ?thesis by (simp add: work_ok_def)
  qed
qed simp

text \<open>When all workers go round and none gets a task, no task is left.\<close>

lemma nothing_left:
  assumes r: "reach sel broken (runtime_new qs n w) p" and e: "early_session (files w) qs" and len: "length qs < 2 ^ 62"
    and m: "main p = Waiting" and idle: "list_all (\<lambda>ph. ph \<in> idle_phases) (threads p)" "local_queue p = []"
    and f: "fetchNext sel (taskQueue p) = Inr (tq, None)"
  shows "pending (taskQueue p) = {#}"
proof -
  let ?tq = "taskQueue p"
  have l64: "length qs < 2 ^ 64" using len by simp
  have s: "session (files w) qs" using e by (simp add: early_session_def)
  have l: "live_inv qs p" by (rule live_reach [OF r e len m])
  then have lanes: "lanes_live qs p" by (simp add: live_inv_def)
  have inv: "serial_inv qs w p" by (rule serial_reach [OF r s len])
  then have tq: "tq_plain (files w) ?tq" by (simp add: serial_inv_def plain_pool_def)
  have h: "hands phase_unset p = {#}" "hands phase_flight p = {#}" "live_tasks p = 0" using idle_hands [OF idle(2,1)] by simp_all
  have "running ?tq = 0" using pool_inv_reach [OF r pool_inv_new] h(3) by (simp add: pool_inv_def)
  with fetch_none [OF f tq live_clash [OF r e l64 l]] lanes
  have none: "loadQueue ?tq = []" "barriers ?tq = []" "\<And>u. queue_of u ?tq \<noteq> [] \<Longrightarrow> announced u ?tq = 0"
    by (auto simp: lanes_live_def)
  have q: "queue_of u ?tq = []" for u
  proof -
    let ?P = "lane_tasks qs u (unat (totalSubmitted p))"
    have "table_live qs p u" using lanes by (simp add: lanes_live_def)
    then have "length (answered_on qs u (promises p)) = length ?P \<or> queue_of u ?tq = []"
      using none h(2) by (cases "queue_of u ?tq = []") (simp_all add: table_live_def on_lane_def loads_of_def)
    moreover have "lane_inv qs w (unat (totalSubmitted p)) ?tq (hands phase_unset p) (hands phase_flight p) (world_of p) (promises p) u"
      using inv by (simp add: serial_inv_def)
    then obtain st k where ok: "lane_ok st k ?P (queue_of u ?tq) (on_lane u (hands phase_unset p)) (on_lane u (hands phase_flight p))
        (loads_of u ?tq) (announced u ?tq)" and v: "serial_view qs w u (unat (totalSubmitted p)) k (world_of p) (promises p)"
      unfolding lane_inv_def lane_at_def by blast
    have "length (answered_on qs u (promises p)) = k" using v lane_facts(3) [OF ok] by (simp add: serial_view_def)
    ultimately show ?thesis using ok h(2) by (cases st) (auto simp: lane_ok_def on_lane_def)
  qed
  have "tqueue t = []" if "(u, t) \<in> set (tableQs ?tq)" for u t
  proof -
    have "distinct (um_keys (tableQs ?tq))" using tq by (simp add: tq_plain_def tq_inv_def queues_ok_def)
    with that have "tq_of u ?tq = t" by (simp add: tq_of_def um_get_def)
    with q [of u] show ?thesis by (simp add: queue_of_def)
  qed
  then have "queue_cores (tableQs ?tq) = {#}" by (fastforce simp: queue_cores_def)
  moreover have "waiting_items (depManager ?tq) = {#}" using tq by (simp add: tq_plain_def waiting_items_def um_items_def)
  ultimately show ?thesis using none by (simp add: pending_def)
qed

lemma decided:
  assumes "pending (taskQueue p) = {#}" and "list_all (\<lambda>ph. ph \<in> idle_phases) (threads p)" and "local_queue p = []"
  shows "future_of p s \<noteq> Not_ready"
proof -
  have "queued_seqs (taskQueue p) = []" using pending_queued [of "taskQueue p"] assms(1) by simp
  moreover have "unset_tasks p = []" using assms(2,3) by (auto simp: unset_tasks_def idle_phases_def list_all_iff)
  ultimately show ?thesis by (simp add: future_of_def split: option.split)
qed

end
