(* ===== verification/Fair_Runs.thy ===== *)
theory Fair_Runs
  imports Session_Ends
begin

section \<open>Fair runs end\<close>

text \<open>
  A schedule says which thread is given its turn next; a thread that cannot take its step lets it pass. In a fair
  schedule every thread gets infinitely many turns. Under every fair schedule a session that loads first ends: the
  main thread collects its results, and they are the answers of the serial run.
\<close>

subsection \<open>Schedules\<close>

definition turn :: "(gkey list \<Rightarrow> nat) \<Rightarrow> string \<Rightarrow> actor \<Rightarrow> pool \<Rightarrow> pool" where
  "turn sel broken a p = (case act sel broken a p of None \<Rightarrow> p | Some p' \<Rightarrow> p')"

primrec play :: "(gkey list \<Rightarrow> nat) \<Rightarrow> string \<Rightarrow> (nat \<Rightarrow> actor) \<Rightarrow> pool \<Rightarrow> nat \<Rightarrow> pool" where
  "play sel broken sched p 0 = p"
| "play sel broken sched p (Suc k) = turn sel broken (sched k) (play sel broken sched p k)"

definition fair :: "nat \<Rightarrow> (nat \<Rightarrow> actor) \<Rightarrow> bool" where
  "fair n sched \<longleftrightarrow> (\<forall>a \<in> insert Main (Worker ` {..<n}). \<forall>k. \<exists>j \<ge> k. sched j = a)"

lemma play_reach: "reach sel broken p0 p \<Longrightarrow> reach sel broken p0 (play sel broken sched p k)"
  by (induction k) (auto simp: turn_def split: option.split intro: reach.step)

lemma act_other:
  assumes "act sel broken a p = Some p'" and "a \<noteq> Worker i" and "tq_inv (taskQueue p)"
  shows "threads p' ! i = threads p ! i"
  using assms(1)
proof (cases rule: act_cases)
  case main
  then show ?thesis
    by (auto simp: main_step_def submitQuery_def startExecution_def Let_def split: main_pc.splits list.splits if_splits prod.splits)
next
  case (worker j ph p1)
  from work_okI [OF worker(3) assms(3)] worker(1,4) assms(2) show ?thesis by (simp add: work_ok_def)
qed

text \<open>What only the steps of one thread change is at its next turn as it is now.\<close>

lemma next_turn:
  assumes f: "\<exists>j \<ge> k. sched j = a" and other: "\<And>j. sched j \<noteq> a \<Longrightarrow> g (play sel broken sched p (Suc j)) = g (play sel broken sched p j)"
  shows "\<exists>j \<ge> k. sched j = a \<and> g (play sel broken sched p j) = g (play sel broken sched p k)"
proof -
  let ?j = "LEAST j. k \<le> j \<and> sched j = a"
  have j: "k \<le> ?j \<and> sched ?j = a" using LeastI_ex [of "\<lambda>j. k \<le> j \<and> sched j = a"] f by blast
  have "g (play sel broken sched p (k + d)) = g (play sel broken sched p k)" if "k + d \<le> ?j" for d
    using that
  proof (induction d)
    case (Suc d)
    have "sched (k + d) \<noteq> a" using not_less_Least [of "k + d" "\<lambda>j. k \<le> j \<and> sched j = a"] Suc.prems by auto
    with other [of "k + d"] Suc show ?case by simp
  qed simp
  from this [of "?j - k"] j show ?thesis by (intro exI [of _ ?j]) simp
qed

lemma next_worker:
  assumes r: "reach sel broken (runtime_new qs n w) p" and f: "fair n sched" and i: "i < n"
  shows "\<exists>j \<ge> k. sched j = Worker i \<and> threads (play sel broken sched p j) ! i = threads (play sel broken sched p k) ! i"
proof (rule next_turn [where g = "\<lambda>p. threads p ! i"])
  show "\<exists>j \<ge> k. sched j = Worker i" using f i by (simp add: fair_def)
  fix j assume other: "sched j \<noteq> Worker i"
  have "tq_inv (taskQueue (play sel broken sched p j))" using pool_inv_reach [OF play_reach [OF r] pool_inv_new] by (simp add: pool_inv_def)
  from act_other [OF _ other this] show "threads (play sel broken sched p (Suc j)) ! i = threads (play sel broken sched p j) ! i"
    by (simp add: turn_def split: option.split)
qed

lemma next_main:
  assumes r: "reach sel broken (runtime_new qs n w) p" and f: "fair n sched"
  shows "\<exists>j \<ge> k. sched j = Main \<and> main (play sel broken sched p j) = main (play sel broken sched p k)"
proof (rule next_turn [where g = main])
  show "\<exists>j \<ge> k. sched j = Main" using f by (simp add: fair_def)
  fix j assume other: "sched j \<noteq> Main"
  let ?p = "play sel broken sched p j"
  have tq: "tq_inv (taskQueue ?p)" using pool_inv_reach [OF play_reach [OF r] pool_inv_new] by (simp add: pool_inv_def)
  have "main p' = main ?p" if "act sel broken (sched j) ?p = Some p'" for p'
    using that
  proof (cases rule: act_cases)
    case (worker i ph p1)
    from work_okI [OF worker(3) tq] worker(4) show ?thesis by (simp add: work_ok_def)
  qed (use other in simp)
  then show "main (play sel broken sched p (Suc j)) = main ?p"
    by (cases "act sel broken (sched j) ?p") (simp_all add: turn_def)
qed

subsection \<open>Turns of a run that waits\<close>

definition round_step :: "(gkey list \<Rightarrow> nat) \<Rightarrow> nat \<Rightarrow> pool \<Rightarrow> pool \<Rightarrow> bool" where
  "round_step sel i p p' \<longleftrightarrow> i < length (threads p) \<and>
     (\<exists>ph p1. work sel (threads p ! i) p = Some (ph, p1) \<and> goes_round (threads p ! i) p ph p1 \<and>
        p' = p1\<lparr>threads := (threads p1)[i := ph]\<rparr>)"

definition can_act :: "pool \<Rightarrow> bool" where
  "can_act p \<longleftrightarrow> \<not> terminated p \<and> \<not> undefined_run p \<and> \<not> stop_requested p"

lemma waiting_can_act:
  assumes "reach sel broken (runtime_new qs n w) p" and "early_session (files w) qs" and "length qs < 2 ^ 62" and "main p = Waiting"
  shows "can_act p" and "tq_inv (taskQueue p)" and "\<exists>tq x. fetchNext sel (taskQueue p) = Inr (tq, x)"
    and "length (threads p) = n" and "Stopped \<notin> set (threads p)"
proof -
  have l: "live_inv qs p" by (rule live_reach [OF assms])
  have pi: "pool_inv p" by (rule pool_inv_reach [OF assms(1) pool_inv_new])
  then show "can_act p" "tq_inv (taskQueue p)" "Stopped \<notin> set (threads p)" using l by (simp_all add: live_inv_def can_act_def pool_inv_def)
  have "session (files w) qs" using assms(2) by (simp add: early_session_def)
  from serial_reach [OF assms(1) this assms(3)] have tq: "tq_plain (files w) (taskQueue p)" by (simp add: serial_inv_def plain_pool_def)
  have "lanes_live qs p" using l by (simp add: live_inv_def)
  from fetch_total [OF tq live_unregistered [OF tq this], of sel] show "\<exists>tq x. fetchNext sel (taskQueue p) = Inr (tq, x)" by blast
  show "length (threads p) = n" using threads_reach [OF assms(1) pool_inv_new] by (simp add: runtime_new_def)
qed

lemma turn_cases:
  assumes r: "reach sel broken (runtime_new qs n w) p" and e: "early_session (files w) qs" and len: "length qs < 2 ^ 62"
    and m: "main p = Waiting"
  shows "act sel broken a p = None \<or> collected (turn sel broken a p) \<noteq> None \<or>
    main (turn sel broken a p) = Waiting \<and>
      (left_work (turn sel broken a p) < left_work p \<or> (\<exists>i. a = Worker i \<and> round_step sel i p (turn sel broken a p)))"
proof (cases "act sel broken a p")
  case (Some p')
  then have t: "turn sel broken a p = p'" by (simp add: turn_def)
  note c = waiting_can_act [OF assms]
  from Some show ?thesis unfolding t
  proof (cases rule: act_cases)
    case main
    with m show "act sel broken a p = None \<or> collected p' \<noteq> None \<or> main p' = Waiting \<and>
        (left_work p' < left_work p \<or> (\<exists>i. a = Worker i \<and> round_step sel i p p'))"
      by (auto simp: main_step_def collected_def split: if_splits)
  next
    case (worker i ph p1)
    have th: "threads p1 = threads p" "main p1 = main p" using work_okI [OF worker(3) c(2)] by (simp_all add: work_ok_def)
    have "queued_work p1 + phase_work ph < queued_work p + phase_work (threads p ! i) \<or> goes_round (threads p ! i) p ph p1"
      using worker_work [OF worker(3) c(2) _ c(3)] c(1) by (simp add: can_act_def)
    moreover have "left_work p' < left_work p" if "queued_work p1 + phase_work ph < queued_work p + phase_work (threads p ! i)"
      using left_work_update [OF worker(2) th(1), of ph] that unfolding worker(4) by linarith
    ultimately show "act sel broken a p = None \<or> collected p' \<noteq> None \<or> main p' = Waiting \<and>
        (left_work p' < left_work p \<or> (\<exists>i. a = Worker i \<and> round_step sel i p p'))"
      using worker th m by (auto simp: round_step_def)
  qed
qed simp

lemma round_facts:
  assumes s: "round_step sel i p p'" and inv: "tq_inv (taskQueue p)"
  shows "left_work p' \<le> left_work p" and "local_queue p' = local_queue p" and "threads p ! i \<in> idle_phases"
    and "threads p' ! i = (if threads p ! i = Idle then Fetching [] else if threads p ! i = Fetching [] then Merging [] else Idle)"
    and "threads p ! i \<noteq> Fetching [] \<Longrightarrow> local_queue p = []"
    and "threads p ! i = Fetching [] \<Longrightarrow> \<exists>tq. fetchNext sel (taskQueue p) = Inr (tq, None)"
proof -
  obtain ph p1 where i: "i < length (threads p)" and w: "work sel (threads p ! i) p = Some (ph, p1)"
    and g: "goes_round (threads p ! i) p ph p1" and p': "p' = p1\<lparr>threads := (threads p1)[i := ph]\<rparr>"
    using s unfolding round_step_def by blast
  have th: "threads p1 = threads p" using work_okI [OF w inv] by (simp add: work_ok_def)
  have "phase_work (threads p ! i) = 0" "phase_work ph = 0" "queued_work p1 \<le> queued_work p"
    using g by (auto simp: goes_round_def idle_phases_def)
  with left_work_update [OF i th, of ph] show "left_work p' \<le> left_work p" unfolding p' by linarith
  show "local_queue p' = local_queue p" "threads p ! i \<in> idle_phases" "threads p ! i \<noteq> Fetching [] \<Longrightarrow> local_queue p = []"
    using g by (simp_all add: goes_round_def p')
  show "threads p' ! i = (if threads p ! i = Idle then Fetching [] else if threads p ! i = Fetching [] then Merging [] else Idle)"
    using g i th by (simp add: goes_round_def p')
  show "\<exists>tq. fetchNext sel (taskQueue p) = Inr (tq, None)" if f: "threads p ! i = Fetching []"
  proof -
    have "ph = Merging []" using g f by (simp add: goes_round_def)
    with w f show ?thesis by (auto simp: FETCH_BATCH_SIZE_def split: sum.splits option.splits prod.splits if_splits)
  qed
qed

subsection \<open>The end of a fair run\<close>

text \<open>If the main thread never collected its results, from some moment on the workers would only go round.\<close>

lemma waiting_settles:
  assumes r: "reach sel broken (runtime_new qs n w) p" and e: "early_session (files w) qs" and len: "length qs < 2 ^ 62"
    and m: "\<forall>k \<ge> k0. main (play sel broken sched p k) = Waiting"
  shows "\<exists>k1 \<ge> k0. \<forall>k \<ge> k1. act sel broken (sched k) (play sel broken sched p k) = None \<or>
    (\<exists>i. sched k = Worker i \<and> round_step sel i (play sel broken sched p k) (play sel broken sched p (Suc k)))"
proof -
  let ?s = "play sel broken sched p"
  have step: "act sel broken (sched k) (?s k) = None \<or> left_work (?s (Suc k)) < left_work (?s k) \<or>
      (\<exists>i. sched k = Worker i \<and> round_step sel i (?s k) (?s (Suc k)))" if "k0 \<le> k" for k
    using turn_cases [OF play_reach [OF r, where sched = sched and k = k] e len, where a = "sched k"] m that by (auto simp: collected_def dest: spec [of _ "Suc k"])
  have down: "left_work (?s (Suc k)) \<le> left_work (?s k)" if "k0 \<le> k" for k
  proof -
    have "tq_inv (taskQueue (?s k))" using waiting_can_act(2) [OF play_reach [OF r] e len] m that by blast
    with step [OF that] round_facts(1) show ?thesis by (auto simp: turn_def)
  qed
  have mono: "left_work (?s (k + d)) \<le> left_work (?s k)" if "k0 \<le> k" for k d
    using down [of "k + d" for d] that by (induction d) (auto intro: le_trans)
  obtain k1 where k1: "k0 \<le> k1" "\<And>k. k0 \<le> k \<Longrightarrow> left_work (?s k1) \<le> left_work (?s k)"
    using ex_has_least_nat [of "\<lambda>k. k0 \<le> k" k0 "\<lambda>k. left_work (?s k)"] by blast
  have "\<not> left_work (?s (Suc k)) < left_work (?s k)" if "k1 \<le> k" for k
    using k1(2) [of "Suc k"] mono [OF k1(1), of "k - k1"] that k1(1) by (simp add: le_trans not_less)
  with step k1(1) show ?thesis by (metis le_trans)
qed

text \<open>Then no worker has a task: one that holds a lock would go on, and without locks nobody waits.\<close>

definition going_round :: "(gkey list \<Rightarrow> nat) \<Rightarrow> string \<Rightarrow> (nat \<Rightarrow> actor) \<Rightarrow> pool \<Rightarrow> nat \<Rightarrow> bool" where
  "going_round sel broken sched p k1 \<longleftrightarrow> (\<forall>k \<ge> k1. main (play sel broken sched p k) = Waiting \<and>
     (act sel broken (sched k) (play sel broken sched p k) = None \<or>
      (\<exists>i. sched k = Worker i \<and> round_step sel i (play sel broken sched p k) (play sel broken sched p (Suc k)))))"

lemma worker_round:
  assumes r: "reach sel broken (runtime_new qs n w) p" and e: "early_session (files w) qs" and len: "length qs < 2 ^ 62"
    and g: "going_round sel broken sched p k1" and f: "fair n sched" and i: "i < n" and k: "k1 \<le> k"
  shows "\<exists>j \<ge> k. threads (play sel broken sched p j) ! i = threads (play sel broken sched p k) ! i \<and>
    (work sel (threads (play sel broken sched p k) ! i) (play sel broken sched p j) = None \<or>
     round_step sel i (play sel broken sched p j) (play sel broken sched p (Suc j)))"
proof -
  let ?s = "play sel broken sched p"
  obtain j where j: "k \<le> j" "sched j = Worker i" "threads (?s j) ! i = threads (?s k) ! i"
    using next_worker [OF r f i] by blast
  have "k1 \<le> j" using k j(1) by simp
  then have m: "main (?s j) = Waiting" and "act sel broken (sched j) (?s j) = None \<or>
      (\<exists>i. sched j = Worker i \<and> round_step sel i (?s j) (?s (Suc j)))"
    using g unfolding going_round_def by blast+
  then have c: "act sel broken (Worker i) (?s j) = None \<or> round_step sel i (?s j) (?s (Suc j))"
    unfolding j(2) by blast
  note wc = waiting_can_act [OF play_reach [OF r] e len m]
  have "act sel broken (Worker i) (?s j) = None \<longleftrightarrow> work sel (threads (?s j) ! i) (?s j) = None"
    using wc(1,4) i by (simp add: act_def can_act_def)
  with c j show ?thesis by auto
qed

lemma settled_idle:
  assumes r: "reach sel broken (runtime_new qs n w) p" and e: "early_session (files w) qs" and len: "length qs < 2 ^ 62"
    and g: "going_round sel broken sched p k1" and f: "fair n sched" and i: "i < n" and k: "k1 \<le> k"
  shows "threads (play sel broken sched p k) ! i \<in> idle_phases"
proof -
  let ?s = "play sel broken sched p"
  have wait: "main (?s k) = Waiting" if "k1 \<le> k" for k using g that by (simp add: going_round_def)
  note wc = waiting_can_act [OF play_reach [OF r] e len wait]
  have have_or_idle: "threads (?s k) ! i \<in> idle_phases \<or> (\<exists>x. threads (?s k) ! i = Have x)" if k: "k1 \<le> k" and i: "i < n" for k i
  proof -
    obtain j where j: "k \<le> j" "threads (?s j) ! i = threads (?s k) ! i"
      "work sel (threads (?s k) ! i) (?s j) = None \<or> round_step sel i (?s j) (?s (Suc j))"
      using worker_round [OF r e len g f i k] by blast
    have "threads (?s k) ! i \<noteq> Stopped" using wc(4,5) [OF k] i nth_mem by metis
    with j work_blocks [of sel "threads (?s k) ! i" "?s j"] round_facts(3) [of sel i "?s j"] wc(2) [of j] k show ?thesis by auto
  qed
  obtain j where j: "k \<le> j" "threads (?s j) ! i = threads (?s k) ! i"
    "work sel (threads (?s k) ! i) (?s j) = None \<or> round_step sel i (?s j) (?s (Suc j))"
    using worker_round [OF r e len g f i k] by blast
  then have kj: "k1 \<le> j" using k by simp
  show ?thesis
  proof (cases "work sel (threads (?s k) ! i) (?s j)")
    case (Some _)
    with j(3) have rs: "round_step sel i (?s j) (?s (Suc j))" by simp
    from round_facts(3) [OF rs wc(2) [OF kj]] j(2) show ?thesis by simp
  next
    case None
    have "phase_guard (threads (?s j) ! i') = []" if "i' < length (threads (?s j))" for i'
      using have_or_idle [OF kj, of i'] that wc(4) [OF kj] by (auto simp: idle_phases_def)
    then have "guards (?s j) = {#}" by (auto simp: guards_def gather_def in_set_conv_nth)
    moreover have "guards_ok lm_readers lm_writer (guards (?s j)) (lockMgr (?s j))"
      using pool_inv_reach [OF play_reach [OF r] pool_inv_new] by (simp add: pool_inv_def)
    ultimately have free: "take_guard (guard_of x) (lockMgr (?s j)) \<noteq> None" for x using take_guard_blocked by fastforce
    have "threads (?s k) ! i \<noteq> Stopped" using wc(4,5) [OF k] i nth_mem by metis
    with work_blocks [OF None] free show ?thesis by blast
  qed
qed

lemma idle_works: "ph \<in> idle_phases \<Longrightarrow> \<exists>tq x. fetchNext sel (taskQueue p) = Inr (tq, x) \<Longrightarrow> work sel ph p \<noteq> None"
  by (auto simp: idle_phases_def FETCH_BATCH_SIZE_def split: option.split)

text \<open>And one that goes round finds nothing.\<close>

lemma settled_empty:
  assumes r: "reach sel broken (runtime_new qs n w) p" and e: "early_session (files w) qs" and len: "length qs < 2 ^ 62"
    and g: "going_round sel broken sched p k1" and f: "fair n sched" and n: "0 < n"
  shows "\<exists>j \<ge> k1. left_work (play sel broken sched p j) = 0"
proof -
  let ?s = "play sel broken sched p" and ?ph = "\<lambda>k. threads (play sel broken sched p k) ! 0"
  have wait: "main (?s k) = Waiting" if "k1 \<le> k" for k using g that by (simp add: going_round_def)
  note wc = waiting_can_act [OF play_reach [OF r] e len wait]
  have next_r: "\<exists>j \<ge> k. ?ph j = ?ph k \<and> round_step sel 0 (?s j) (?s (Suc j))" if k: "k1 \<le> k" for k
  proof -
    obtain j where j: "k \<le> j" "?ph j = ?ph k" "work sel (?ph k) (?s j) = None \<or> round_step sel 0 (?s j) (?s (Suc j))"
      using worker_round [OF r e len g f n k] by blast
    moreover have "work sel (?ph k) (?s j) \<noteq> None"
      using idle_works [OF settled_idle [OF r e len g f n k]] wc(3) [of j] k j(1) by simp
    ultimately show ?thesis by blast
  qed
  have on: "\<exists>j \<ge> k. ?ph j = (if ?ph k = Idle then Fetching [] else if ?ph k = Fetching [] then Merging [] else Idle)" if k: "k1 \<le> k" for k
  proof -
    obtain j where j: "k \<le> j" "?ph j = ?ph k" "round_step sel 0 (?s j) (?s (Suc j))" using next_r [OF k] by blast
    then have "k1 \<le> j" using k by simp
    from round_facts(4) [OF j(3) wc(2) [OF this]] j(1,2) show ?thesis by (intro exI [of _ "Suc j"]) simp
  qed
  have "\<exists>j \<ge> k1. ?ph j = Fetching []"
  proof -
    have "?ph k1 \<in> idle_phases" by (rule settled_idle [OF r e len g f n order.refl])
    then consider "?ph k1 = Fetching []" | "?ph k1 = Idle" | "?ph k1 = Merging []" by (auto simp: idle_phases_def)
    then show ?thesis
    proof cases
      case 3
      then obtain j where j: "k1 \<le> j" "?ph j = Idle" using on [OF order.refl] by auto
      from on [OF j(1)] j show ?thesis by (auto intro: le_trans)
    qed (use on [OF order.refl] in auto)
  qed
  then obtain k where k: "k1 \<le> k" "?ph k = Fetching []" by blast
  obtain j where "k \<le> j" "?ph j = ?ph k" "round_step sel 0 (?s j) (?s (Suc j))" using next_r [OF k(1)] by blast
  with k have j: "k1 \<le> j" "?ph j = Fetching []" "round_step sel 0 (?s j) (?s (Suc j))" by simp_all
  obtain tq where fn: "fetchNext sel (taskQueue (?s j)) = Inr (tq, None)" using round_facts(6) [OF j(3) wc(2) [OF j(1)]] j(2) by blast
  have local: "local_queue (?s (j + d)) = local_queue (?s j)" for d
  proof (induction d)
    case (Suc d)
    have jd: "k1 \<le> j + d" using j(1) by simp
    then have "act sel broken (sched (j + d)) (?s (j + d)) = None \<or> (\<exists>i. round_step sel i (?s (j + d)) (?s (Suc (j + d))))"
      using g unfolding going_round_def by blast
    then have "local_queue (?s (Suc (j + d))) = local_queue (?s (j + d))"
      using round_facts(2) [OF _ wc(2) [OF jd]] by (auto simp: turn_def)
    with Suc show ?case by simp
  qed simp
  have "?ph (Suc j) = Merging []" using round_facts(4) [OF j(3) wc(2) [OF j(1)]] j(2) by simp
  moreover have sj: "k1 \<le> Suc j" using j(1) by simp
  ultimately obtain j' where j': "Suc j \<le> j'" "?ph j' = Merging []" "round_step sel 0 (?s j') (?s (Suc j'))"
    using next_r [OF sj] by auto
  have "k1 \<le> j'" using j'(1) j(1) by simp
  from round_facts(5) [OF j'(3) wc(2) [OF this]] j'(2) have "local_queue (?s j') = []" by simp
  with local [of "j' - j"] j'(1) have lq: "local_queue (?s j) = []" by simp
  have idle: "list_all (\<lambda>ph. ph \<in> idle_phases) (threads (?s j))"
    using settled_idle [OF r e len g f _ j(1)] wc(4) [OF j(1)] by (simp add: list_all_length)
  from nothing_left [OF play_reach [OF r] e len wait [OF j(1)] idle lq fn] lq idle have "left_work (?s j) = 0"
    by (auto simp: left_work_def queued_work_def list_all_iff idle_phases_def)
  with j(1) show ?thesis by blast
qed

lemma submission_ends:
  assumes r: "reach sel broken (runtime_new qs n w) p" and s: "session (files w) qs" and len: "length qs < 2 ^ 62"
    and f: "fair n sched"
  shows "main (play sel broken sched p k) = Submitting l \<Longrightarrow> \<exists>j. main (play sel broken sched p j) = Waiting"
proof (induction l arbitrary: k)
  case (Cons q l)
  let ?s = "play sel broken sched p"
  obtain j where j: "sched j = Main" "main (?s j) = Submitting (q # l)" using next_main [OF r f, of k] Cons.prems by auto
  then have "submitting (?s j)" by (simp add: submitting_def)
  then have "\<not> terminated (?s j)" "\<not> undefined_run (?s j)"
    using fresh_reach [OF play_reach [OF r] s len] pool_inv_reach [OF play_reach [OF r] pool_inv_new] by (simp_all add: pool_inv_def)
  with j have "main (?s (Suc j)) = Submitting l" by (simp add: turn_def act_def main_step_def submitQuery_def Let_def split_def)
  from Cons.IH [OF this] show ?case .
next
  case Nil
  let ?s = "play sel broken sched p"
  obtain j where j: "sched j = Main" "main (?s j) = Submitting []" using next_main [OF r f, of k] Nil.prems by auto
  then have "submitting (?s j)" by (simp add: submitting_def)
  then have "\<not> terminated (?s j)" "\<not> undefined_run (?s j)"
    using fresh_reach [OF play_reach [OF r] s len] pool_inv_reach [OF play_reach [OF r] pool_inv_new] by (simp_all add: pool_inv_def)
  with j have "main (?s (Suc j)) = Waiting" by (simp add: turn_def act_def main_step_def startExecution_def)
  then show ?case by blast
qed

lemma waiting_or_collected:
  assumes r: "reach sel broken (runtime_new qs n w) p" and s: "session (files w) qs" and len: "length qs < 2 ^ 62"
    and f: "fair n sched"
  shows "\<exists>k. main (play sel broken sched p k) = Waiting \<or> collected (play sel broken sched p k) \<noteq> None"
proof (cases "main p")
  case (Submitting l)
  with submission_ends [OF r s len f, of 0] show ?thesis by auto
next
  case Waiting
  then show ?thesis by (intro exI [of _ 0]) simp
qed (auto intro!: exI [of _ 0] simp: collected_def)

lemma fair_collects:
  assumes r: "reach sel broken (runtime_new qs n w) p" and e: "early_session (files w) qs" and len: "length qs < 2 ^ 62"
    and n: "0 < n" and f: "fair n sched"
  shows "\<exists>k. collected (play sel broken sched p k) \<noteq> None"
proof (rule ccontr)
  let ?s = "play sel broken sched p"
  assume never: "\<not> (\<exists>k. collected (?s k) \<noteq> None)"
  have s: "session (files w) qs" using e by (simp add: early_session_def)
  obtain k0 where k0: "main (?s k0) = Waiting" using waiting_or_collected [OF r s len f] never by blast
  have wait: "main (?s (k0 + d)) = Waiting" for d
  proof (induction d)
    case (Suc d)
    have "act sel broken (sched (k0 + d)) (?s (k0 + d)) = None \<or> main (?s (Suc (k0 + d))) = Waiting"
      using turn_cases [OF play_reach [OF r] e len Suc, where a = "sched (k0 + d)"] never unfolding play.simps
      by (metis play.simps(2))
    with Suc show ?case by (auto simp: turn_def)
  qed (simp add: k0)
  then have "\<forall>k \<ge> k0. main (?s k) = Waiting" by (metis le_add_diff_inverse)
  from waiting_settles [OF r e len this] this obtain k1 where g: "going_round sel broken sched p k1"
    unfolding going_round_def by (meson le_trans)
  from settled_empty [OF r e len g f n] obtain j where j: "k1 \<le> j" "left_work (?s j) = 0" by blast
  have "\<exists>k \<ge> j. sched k = Main" using f by (simp add: fair_def)
  then obtain k where k: "j \<le> k" "sched k = Main" by blast
  have at: "main (?s k) = Waiting" if "k1 \<le> k" for k using g that by (simp add: going_round_def)
  note wc = waiting_can_act [OF play_reach [OF r] e len at]
  have "left_work (?s (j + d)) = 0" for d
  proof (induction d)
    case (Suc d)
    have jd: "k1 \<le> j + d" using j(1) by simp
    then have "act sel broken (sched (j + d)) (?s (j + d)) = None \<or> (\<exists>i. round_step sel i (?s (j + d)) (?s (Suc (j + d))))"
      using g unfolding going_round_def by blast
    with Suc round_facts(1) [OF _ wc(2) [OF jd]] show ?case by (auto simp: turn_def)
  qed (simp add: j)
  from this [of "k - j"] k(1) have lw: "left_work (?s k) = 0" by simp
  have kk: "k1 \<le> k" using j k by simp
  have "threads (?s k) ! i \<in> idle_phases" if "i < n" for i by (rule settled_idle [OF r e len g f that kk])
  then have "list_all (\<lambda>ph. ph \<in> idle_phases) (threads (?s k))" using wc(4) [OF kk] by (simp add: list_all_length)
  with decided [of "?s k"] lw have "list_all (\<lambda>s. future_of (?s k) s \<noteq> Not_ready) (indices (?s k))"
    by (simp add: left_work_def queued_work_def list_all_iff)
  then have "act sel broken (sched k) (?s k) \<noteq> None" using at [OF kk] wc(1) [OF kk] k(2) by (simp add: act_def can_act_def main_step_def)
  with g kk k(2) show False unfolding going_round_def by fastforce
qed

text \<open>
  C2: In a session that loads first (\<open>early_session\<close>), whatever the number of workers and their interleaving, what the main thread
  collects is exactly what the serial run of the queries answers, and so are the errors; no LOAD is lost.
\<close>

theorem session_exact:
  assumes "reach sel broken (runtime_new qs n w) p" and "early_session (files w) qs" and "length qs < 2 ^ 62"
    and "main p = Collected rs"
  shows "rs = res_map (\<lambda>r. result_of broken (Ready r)) (serial_run qs w)"
proof -
  have "collected p = Some rs" using assms(4) by (simp add: collected_def)
  from collected_from [OF assms(1) this] early_results [OF _ assms(2,3)] show ?thesis by metis
qed

subsection \<open>Witnesses\<close>

definition round_robin :: "nat \<Rightarrow> nat \<Rightarrow> actor" where
  "round_robin n k = (if k mod Suc n = 0 then Main else Worker (k mod Suc n - 1))"

lemma round_robin_fair: "fair n (round_robin n)"
  unfolding fair_def
proof (intro ballI allI)
  fix a k assume "a \<in> insert Main (Worker ` {..<n})"
  then consider "a = Main" | i where "a = Worker i" "i < n" by blast
  then obtain r where r: "r \<le> n" "a = (if r = 0 then Main else Worker (r - 1))"
  proof cases
    case 1
    then show ?thesis by (intro that [of 0]) simp_all
  next
    case 2
    then show ?thesis by (intro that [of "Suc i"]) simp_all
  qed
  then have "round_robin n (k * Suc n + r) = a" by (simp add: round_robin_def del: mult_Suc_right)
  moreover have "k \<le> k * Suc n + r" by simp
  ultimately show "\<exists>j \<ge> k. round_robin n j = a" by blast
qed

lemma demo_early: "early_session (files demo_files) demo_queries"
  by code_simp

theorem session_exact_witness:
  "main end_pool = Collected (res_map (\<lambda>r. result_of [] (Ready r)) (serial_run demo_queries demo_files))"
proof -
  have "case main end_pool of Collected rs \<Rightarrow> True | _ \<Rightarrow> False" by code_simp
  then obtain rs where m: "main end_pool = Collected rs" by (auto split: main_pc.splits)
  from session_exact [OF end_reach [unfolded demo_new_def] demo_early _ m] m show ?thesis by (simp add: demo_queries_def)
qed


end
