(* ===== verification/Same_Output.thy ===== *)
theory Same_Output
  imports Query_Exec Fair_Runs
begin

section \<open>The output with and without worker threads\<close>

text \<open>
  \<open>executeQueries\<close> runs the queries one after the other, or with worker threads and prints the results it collects.
  For sessions whose queries print nothing themselves, both print the same text and end in the same way.
\<close>

subsection \<open>Queries that print nothing themselves\<close>

fun silent :: "query \<Rightarrow> bool" where
  "silent (PrintTableQuery t) = False"
| "silent ListTableQuery = False"
| "silent _ = True"

lemma silent_out:
  assumes "session_query fs q" and "silent q"
  shows "execute q (w\<lparr>out := s\<rparr>) = ((fst (execute q w))\<lparr>out := s\<rparr>, snd (execute q w))" and "out (fst (execute q w)) = out w"
proof -
  have "execute q (w\<lparr>out := s\<rparr>) = ((fst (execute q w))\<lparr>out := s\<rparr>, snd (execute q w)) \<and> out (fst (execute q w)) = out w"
  proof (cases q)
    case (ComplexQuery oper t ops cs)
    then show ?thesis by (simp add: split_def Let_def)
  qed (use assms in \<open>auto simp: LoadTableQuery_execute_def TruncateTableQuery_execute_def QuitQuery_execute_def
      ListenQuery_execute_def Let_def split: option.split sum.split exn.split\<close>)
  then show "execute q (w\<lparr>out := s\<rparr>) = ((fst (execute q w))\<lparr>out := s\<rparr>, snd (execute q w))"
    "out (fst (execute q w)) = out w" by blast+
qed

lemma silent_serial:
  "list_all (\<lambda>q. session_query fs q \<and> silent q) qs \<Longrightarrow> serial_run qs (w\<lparr>out := s\<rparr>) = serial_run qs w"
proof (induction qs arbitrary: w)
  case (Cons q qs)
  then have "session_query fs q" "silent q" by simp_all
  from silent_out(1) [OF this, where w = w and s = s] Cons show ?case by (simp add: split_def Let_def)
qed simp

lemma output_out: "\<exists>s. outputQueryResult n r w = w\<lparr>out := s\<rparr>"
  by (simp add: outputQueryResult_def print_out_def Let_def) (metis world.surjective world.update_convs(4))

lemma output_same: "out w = out w' \<Longrightarrow> out (outputQueryResult n r w) = out (outputQueryResult n r w')"
  by (simp add: outputQueryResult_def print_out_def Let_def)

subsection \<open>Printing the answers of a serial run\<close>

text \<open>An answer as the main thread collects it: a result, or the null pointer of a QUIT.\<close>

fun returned :: "query_result res \<Rightarrow> bool" where
  "returned (Inr r) = True"
| "returned (Inl e) = (e = QuitException)"

definition as_reply :: "query_result res \<Rightarrow> query_result option" where
  "as_reply r = (case r of Inr x \<Rightarrow> Some x | Inl _ \<Rightarrow> None)"

lemma returned_reply: "returned r \<Longrightarrow> result_of broken (Ready r) = Inr a \<Longrightarrow> a = as_reply r"
  by (cases r) (auto simp: as_reply_def)

lemma single_prints_serial:
  assumes "list_all (\<lambda>q. session_query fs q \<and> silent q) qs" and "list_all returned (serial_run qs w)" and "out wd = out w"
  shows "out (fst (output_results n (map as_reply (serial_run qs w)) wd)) = out (fst (run_single n qs w)) \<and>
     snd (output_results n (map as_reply (serial_run qs w)) wd) = snd (run_single n qs w)"
  using assms
proof (induction qs arbitrary: n w wd)
  case (Cons q qs)
  obtain w1 r where e: "execute q w = (w1, r)" by fastforce
  have q: "session_query fs q" "silent q" and qs: "list_all (\<lambda>q. session_query fs q \<and> silent q) qs" using Cons.prems(1) by simp_all
  have o1: "out w1 = out w" using silent_out(2) [OF q, of w] e by simp
  show ?case
  proof (cases r)
    case (Inl x)
    with Cons.prems(2,3) e o1 show ?thesis by (simp add: as_reply_def)
  next
    case (Inr x)
    let ?w2 = "outputQueryResult (Suc n) x w1" and ?wd = "outputQueryResult (Suc n) x wd"
    obtain s where s: "?w2 = w1\<lparr>out := s\<rparr>" using output_out by blast
    have same: "serial_run qs ?w2 = serial_run qs w1" unfolding s by (rule silent_serial [OF qs])
    have "list_all returned (serial_run qs ?w2)" using Cons.prems(2) e unfolding same by simp
    moreover have "out ?wd = out ?w2" using Cons.prems(3) o1 by (intro output_same) simp
    ultimately show ?thesis using Cons.IH [OF qs, of ?w2 ?wd "Suc n"] e Inr unfolding same by (simp add: as_reply_def)
  qed
qed simp

subsection \<open>The workers print nothing\<close>

lemma out_reach:
  assumes "reach sel broken (runtime_new qs n w) p" and s: "session (files w) qs" and len: "length qs < 2 ^ 62"
    and si: "list_all silent qs"
  shows "out (world_of p) = out w"
  using assms(1)
proof induction
  case start
  show ?case by (simp add: runtime_new_def)
next
  case (step p a p')
  have l64: "length qs < 2 ^ 64" using len by simp
  note orig = origin_ok_reach [OF step.hyps(1) l64]
  have tq: "tq_inv (taskQueue p)" using pool_inv_reach [OF step.hyps(1) pool_inv_new] by (simp add: pool_inv_def)
  from step.hyps(2) show ?case
  proof (cases rule: act_cases)
    case main
    from promises_main [OF step.hyps(1) main(2) l64] step.IH show ?thesis by simp
  next
    case (worker i ph p1)
    from worker_steps [OF worker(2,3) tq worker(4)] consider "world_of p' = world_of p"
      | x where "answer_step x p p'" | x d where "world_of p' = (world_of p)\<lparr>db := d\<rparr>"
      unfolding quiet_step_def fetch_step_def callback_step_def by blast
    then show ?thesis
    proof cases
      case 2
      then have x: "x \<in># hands phase_unset p" by (simp add: answer_step_def)
      then have "x_core x \<in># in_bag (abs_bag p)" by (auto simp: hands_def in_bag_def abs_bag_def)
      with orig have "submitted_as qs (x_core x)" by (simp add: origin_ok_def)
      then have "x_query x \<in> set qs" by (auto simp: submitted_as_def x_core_def)
      then have q: "session_query (files w) (x_query x)" "silent (x_query x)"
        using s si by (simp_all add: session_def list_all_iff)
      with 2 step.IH silent_out(2) [OF q, of "world_of p"] show ?thesis by (auto simp: answer_step_def run_logic_def)
    qed (use step.IH in simp_all)
  qed
qed

subsection \<open>Both ways print the same\<close>

lemma replies_serial:
  assumes "list_all2 (\<lambda>(q, r) a. result_of broken (Ready r) = Inr a \<or> queryType q = QT_Load \<and> result_of broken Broken = Inr a)
      (zip qs (serial_run qs w)) as"
    and "list_all returned (serial_run qs w)" and "list_all (\<lambda>a. result_of broken Broken \<noteq> Inr a) as"
  shows "as = map as_reply (serial_run qs w)"
  using assms
proof (induction qs arbitrary: w as)
  case (Cons q qs)
  then show ?case by (auto simp: split_def Let_def list_all2_Cons1 dest: returned_reply)
qed simp

text \<open>
  A session that loads each table once and before its first use, whose queries print nothing themselves (no SHOWTABLE and
  LIST), whose serial run has no exception but QUIT and of which no promise is broken: the multi-threaded branch of
  \<open>executeQueries\<close> prints, whatever the interleaving, the text of the single-threaded branch and ends
  in the same way.
\<close>

theorem multi_prints_single:
  assumes "reach sel broken (runtime_new qs n w) p" and "session (files w) qs" and "length qs < 2 ^ 62"
    and "main p = Collected (Inr as)" and "list_all silent qs" and "list_all returned (serial_run qs w)"
    and "list_all (\<lambda>a. result_of broken Broken \<noteq> Inr a) as"
  shows "out (fst (output_results 0 as (world_of p))) = out (fst (run_single 0 qs w)) \<and>
     snd (output_results 0 as (world_of p)) = snd (run_single 0 qs w)"
proof -
  have l64: "length qs < 2 ^ 64" using assms(3) by simp
  have "list_all (\<lambda>q. session_query (files w) q \<and> silent q) qs" using assms(2,5) by (simp add: session_def list_all_iff)
  from single_prints_serial [OF this assms(6) out_reach [OF assms(1-3,5)]]
  show ?thesis using replies_serial [OF session_replies [OF assms(1-4)] assms(6,7)] by simp
qed

theorem multi_prints_single_witness:
  "\<exists>as. main end_pool = Collected (Inr as) \<and>
     out (fst (output_results 0 as (world_of end_pool))) = out (fst (run_single 0 demo_queries demo_files)) \<and>
     snd (output_results 0 as (world_of end_pool)) = Inl QuitException"
proof -
  have "case main end_pool of Collected (Inr as) \<Rightarrow> list_all (\<lambda>a. result_of [] Broken \<noteq> Inr a) as | _ \<Rightarrow> False" by code_simp
  then obtain as where m: "main end_pool = Collected (Inr as)" and b: "list_all (\<lambda>a. result_of [] Broken \<noteq> Inr a) as"
    by (auto split: main_pc.splits sum.splits)
  have s: "session (files demo_files) demo_queries" "list_all silent demo_queries"
    "list_all returned (serial_run demo_queries demo_files)" by code_simp+
  have "snd (run_single 0 demo_queries demo_files) = Inl QuitException" by code_simp
  with multi_prints_single [OF end_reach [unfolded demo_new_def] s(1) _ m s(2,3) b] m show ?thesis
    by (simp add: demo_queries_def)
qed

subsection \<open>Fair runs print the same\<close>





end
