(* ===== verification/Shutdown.thy ===== *)
theory Shutdown
  imports Fair_Runs
begin

section \<open>The end of the program\<close>

text \<open>
  When the main thread has its results it asks the workers to stop and joins them. Whatever the queries were and whatever
  is still queued, under a fair schedule all workers stop and the main thread goes on, unless an exception of a
  fetch has ended the program before. For sessions that load first no exception does, so that they run to their end.
\<close>

subsection \<open>Workers that are asked to stop\<close>

text \<open>The steps a worker may still take: a batch, one task of it and its callback.\<close>

fun steps_left :: "phase \<Rightarrow> nat" where
  "steps_left Stopped = 0"
| "steps_left Idle = 1"
| "steps_left (Counted x) = 2"
| "steps_left (Notified x) = 3"
| "steps_left (Ran x) = 4"
| "steps_left (Locked x) = 5"
| "steps_left (Have x) = 6"
| "steps_left (Merging xs) = 7"
| "steps_left (Fetching xs) = 8 + (FETCH_BATCH_SIZE - length xs)"

definition all_steps :: "pool \<Rightarrow> nat" where
  "all_steps p = sum_list (map steps_left (threads p))"

lemma stopping_step:
  "work sel ph p = Some (ph', p') \<Longrightarrow> stop_requested p \<Longrightarrow> \<not> terminated p' \<Longrightarrow> steps_left ph' < steps_left ph"
  by (cases ph) (auto simp: take_local_def split: if_splits list.splits option.splits prod.splits sum.splits)

lemma work_keeps_stop: "work sel ph p = Some (ph', p') \<Longrightarrow> stop_requested p' = stop_requested p"
  by (cases ph) (auto simp: take_local_def split: if_splits list.splits option.splits prod.splits sum.splits)

definition stopping :: "query_result option list res \<Rightarrow> pool \<Rightarrow> bool" where
  "stopping rs p \<longleftrightarrow> main p = Joining rs \<and> stop_requested p"

lemma joining_stops:
  "reach sel broken (runtime_new qs n w) p \<Longrightarrow> main p = Joining rs \<Longrightarrow> stop_requested p"
proof (induction rule: reach.induct)
  case (step p a p')
  from step.hyps(2) show ?case
  proof (cases rule: act_cases)
    case main
    with step show ?thesis
      by (auto simp: main_step_def submitQuery_def startExecution_def Let_def split: main_pc.splits list.splits if_splits prod.splits)
  next
    case (worker i ph p1)
    have "tq_inv (taskQueue p)" using pool_inv_reach [OF step.hyps(1) pool_inv_new] by (simp add: pool_inv_def)
    from work_okI [OF worker(3) this] work_keeps_stop [OF worker(3)] worker(4) step show ?thesis by (simp add: work_ok_def)
  qed
qed (simp add: runtime_new_def)

text \<open>A turn of a thread while the workers stop.\<close>

lemma stopping_turn:
  assumes r: "reach sel broken (runtime_new qs n w) p" and s: "stopping rs p"
  shows "act sel broken a p = None \<or> terminated (turn sel broken a p) \<or> main (turn sel broken a p) = Finished rs \<or>
    stopping rs (turn sel broken a p) \<and> all_steps (turn sel broken a p) < all_steps p"
proof (cases "act sel broken a p")
  case (Some p')
  then have t: "turn sel broken a p = p'" by (simp add: turn_def)
  from Some show ?thesis unfolding t
  proof (cases rule: act_cases)
    case main
    with s have "main p' = Finished rs" by (auto simp: main_step_def stopping_def split: if_splits)
    then show "act sel broken a p = None \<or> terminated p' \<or> main p' = Finished rs \<or> stopping rs p' \<and> all_steps p' < all_steps p"
      by blast
  next
    case (worker i ph p1)
    have inv: "tq_inv (taskQueue p)" using pool_inv_reach [OF r pool_inv_new] by (simp add: pool_inv_def)
    have th: "threads p1 = threads p" "main p1 = main p" using work_okI [OF worker(3) inv] by (simp_all add: work_ok_def)
    have "stopping rs p'" using s th work_keeps_stop [OF worker(3)] by (simp add: stopping_def worker(4))
    moreover have "all_steps p' < all_steps p" if "\<not> terminated p'"
    proof -
      have "steps_left ph < steps_left (threads p ! i)"
        using stopping_step [OF worker(3)] s that by (simp add: stopping_def worker(4))
      moreover have "steps_left (threads p ! i) \<le> sum_list (map steps_left (threads p))"
        using worker(2) by (intro member_le_sum_list) simp_all
      ultimately show ?thesis using worker(2) th by (simp add: all_steps_def worker(4) map_update sum_list_update)
    qed
    ultimately show "act sel broken a p = None \<or> terminated p' \<or> main p' = Finished rs \<or> stopping rs p' \<and> all_steps p' < all_steps p"
      by blast
  qed
qed simp

lemma stopping_can_act:
  assumes r: "reach sel broken (runtime_new qs n w) p" and s: "stopping rs p" and t: "\<not> terminated p"
  shows "act sel broken Main p \<noteq> None \<or> (\<exists>i < n. act sel broken (Worker i) p \<noteq> None)"
proof -
  have inv: "pool_inv p" by (rule pool_inv_reach [OF r pool_inv_new])
  then have u: "\<not> undefined_run p" by (simp add: pool_inv_def)
  have n: "length (threads p) = n" using threads_reach [OF r pool_inv_new] by (simp add: runtime_new_def)
  show ?thesis
  proof (cases "joined p")
    case True
    with s t u show ?thesis by (simp add: act_def main_step_def stopping_def)
  next
    case False
    then obtain i where i: "i < length (threads p)" "threads p ! i \<noteq> Stopped" by (auto simp: joined_def list_all_length)
    from blocked_or_works [OF inv i(2), of sel] i(1) obtain j where "j < length (threads p)" "work sel (threads p ! j) p \<noteq> None" by blast
    with t u n have "j < n" "act sel broken (Worker j) p \<noteq> None" by (auto simp: act_def)
    then show ?thesis by blast
  qed
qed

lemma stopping_ends:
  assumes r: "reach sel broken (runtime_new qs n w) p" and f: "fair n sched"
  shows "stopping rs (play sel broken sched p k) \<Longrightarrow>
    \<exists>j. terminated (play sel broken sched p j) \<or> main (play sel broken sched p j) = Finished rs"
proof (induction "all_steps (play sel broken sched p k)" arbitrary: k rule: less_induct)
  case less
  let ?s = "play sel broken sched p"
  note rk = play_reach [OF r, where sched = sched]
  show ?case
  proof (cases "terminated (?s k)")
    case False
    from stopping_can_act [OF rk less.prems False] obtain a where a: "act sel broken a (?s k) \<noteq> None" "a \<in> insert Main (Worker ` {..<n})"
      by blast
    have "\<exists>j \<ge> k. sched j = a" using f a(2) unfolding fair_def by blast
    then obtain j where j: "k \<le> j" "sched j = a" by blast
    let ?m = "LEAST m. k \<le> m \<and> act sel broken (sched m) (?s k) \<noteq> None"
    have m: "k \<le> ?m \<and> act sel broken (sched ?m) (?s k) \<noteq> None"
      using LeastI [of "\<lambda>m. k \<le> m \<and> act sel broken (sched m) (?s k) \<noteq> None" j] a j by simp
    have same: "?s (k + d) = ?s k" if "k + d \<le> ?m" for d
      using that
    proof (induction d)
      case (Suc d)
      have "act sel broken (sched (k + d)) (?s k) = None"
        using not_less_Least [of "k + d" "\<lambda>m. k \<le> m \<and> act sel broken (sched m) (?s k) \<noteq> None"] Suc.prems by auto
      with Suc show ?case by (simp add: turn_def)
    qed simp
    from same [of "?m - k"] m have sm: "?s ?m = ?s k" by simp
    then have st: "?s (Suc ?m) = turn sel broken (sched ?m) (?s k)" by simp
    from stopping_turn [OF rk less.prems, of "sched ?m"] m
    consider "terminated (?s (Suc ?m)) \<or> main (?s (Suc ?m)) = Finished rs"
      | "stopping rs (?s (Suc ?m))" "all_steps (?s (Suc ?m)) < all_steps (?s k)" unfolding st by blast
    then show ?thesis
    proof cases
      case 2
      from less.hyps [OF 2(2,1)] show ?thesis .
    qed blast
  qed blast
qed

lemma play_later: "play sel broken sched p (k + j) = play sel broken (\<lambda>j. sched (k + j)) (play sel broken sched p k) j"
  by (induction j) simp_all

lemma fair_later: "fair n sched \<Longrightarrow> fair n (\<lambda>j. sched (k + j))"
  unfolding fair_def
proof (intro ballI allI)
  fix a m assume f: "\<forall>a \<in> insert Main (Worker ` {..<n}). \<forall>k. \<exists>j \<ge> k. sched j = a" and "a \<in> insert Main (Worker ` {..<n})"
  then obtain j where "k + m \<le> j" "sched j = a" by blast
  then show "\<exists>j \<ge> m. sched (k + j) = a" by (intro exI [of _ "j - k"]) simp
qed

lemma collected_act:
  assumes "act sel broken a p = Some p'" and "tq_inv (taskQueue p)" and "collected p = Some rs"
  shows "collected p' = Some rs"
  using assms(1)
proof (cases rule: act_cases)
  case main
  with assms(3) show ?thesis by (auto simp: main_step_def collected_def split: main_pc.splits if_splits)
next
  case (worker i ph p1)
  from work_okI [OF worker(3) assms(2)] worker(4) assms(3) show ?thesis by (simp add: work_ok_def collected_def)
qed

lemma collected_stays:
  assumes r: "reach sel broken (runtime_new qs n w) p" and c: "collected p = Some rs"
  shows "collected (play sel broken sched p k) = Some rs"
proof (induction k)
  case (Suc k)
  have "tq_inv (taskQueue (play sel broken sched p k))"
    using pool_inv_reach [OF play_reach [OF r] pool_inv_new] by (simp add: pool_inv_def)
  from collected_act [OF _ this Suc] show ?case
    by (cases "act sel broken (sched k) (play sel broken sched p k)") (simp_all add: turn_def Suc)
qed (simp add: c)

lemma finished_joined:
  "reach sel broken (runtime_new qs n w) p \<Longrightarrow> main p = Finished rs \<Longrightarrow> joined p"
proof (induction rule: reach.induct)
  case (step p a p')
  from step.hyps(2) show ?case
  proof (cases rule: act_cases)
    case main
    with step.prems have "joined p \<and> threads p' = threads p"
      by (auto simp: main_step_def submitQuery_def startExecution_def Let_def split: main_pc.splits list.splits if_splits prod.splits)
    then show ?thesis by (simp add: joined_def)
  next
    case (worker i ph p1)
    have "tq_inv (taskQueue p)" using pool_inv_reach [OF step.hyps(1) pool_inv_new] by (simp add: pool_inv_def)
    from work_okI [OF worker(3) this] worker(4) step have "joined p" by (simp add: work_ok_def)
    then have "threads p ! i = Stopped" using worker(2) by (simp add: joined_def list_all_length)
    with worker(3) show ?thesis by simp
  qed
qed (simp add: runtime_new_def)

lemma collected_ends:
  assumes r: "reach sel broken (runtime_new qs n w) p" and f: "fair n sched" and c: "collected (play sel broken sched p k) = Some rs"
  shows "\<exists>j. terminated (play sel broken sched p j) \<or> main (play sel broken sched p j) = Finished rs"
proof -
  let ?s = "play sel broken sched p"
  consider "main (?s k) = Collected rs" | "main (?s k) = Joining rs" | "main (?s k) = Finished rs"
    using c by (auto simp: collected_def split: main_pc.splits)
  then show ?thesis
  proof cases
    case 1
    obtain j where j: "sched j = Main" "main (?s j) = Collected rs" using next_main [OF r f, of k] 1 by auto
    show ?thesis
    proof (cases "terminated (?s j)")
      case False
      have "\<not> undefined_run (?s j)" using pool_inv_reach [OF play_reach [OF r] pool_inv_new] by (simp add: pool_inv_def)
      with False j have "stopping rs (?s (Suc j))" by (simp add: turn_def act_def main_step_def stopping_def)
      from stopping_ends [OF r f this] show ?thesis .
    qed blast
  next
    case 2
    with joining_stops [OF play_reach [OF r]] have "stopping rs (?s k)" by (simp add: stopping_def)
    from stopping_ends [OF r f this] show ?thesis .
  qed blast
qed

text \<open>
  C28: Whatever the queries, once the main thread has collected its results the pool comes to its end: under every
  schedule that gives each thread infinitely many turns, all workers stop and the joins of the main thread
  return, unless an exception that left a fetch has ended the program.
\<close>

theorem pool_stops:
  assumes "reach sel broken (runtime_new qs n w) p" and "collected p = Some rs" and "fair n sched"
  shows "\<exists>k. terminated (play sel broken sched p k) \<or>
     main (play sel broken sched p k) = Finished rs \<and> joined (play sel broken sched p k)"
proof -
  have "collected (play sel broken sched p 0) = Some rs" using assms(2) by simp
  from collected_ends [OF assms(1,3) this] finished_joined [OF play_reach [OF assms(1)]] show ?thesis by blast
qed

subsection \<open>Sessions that load first run to their end\<close>

lemma lanes_live_flags [simp]:
  "lanes_live qs (p\<lparr>main := m\<rparr>) = lanes_live qs p" "lanes_live qs (p\<lparr>stop_requested := b\<rparr>) = lanes_live qs p"
  by (simp_all add: lanes_live_def unloaded_def table_live_def hands_def)

text \<open>When no future makes the main thread wait every query is answered, and nothing is queued.\<close>

lemma answered_all:
  assumes r: "reach sel broken (runtime_new qs n w) p" and e: "early_session (files w) qs" and len: "length qs < 2 ^ 62"
    and m: "main p = Waiting" and rdy: "list_all (\<lambda>n. future_of p n \<noteq> Not_ready) (indices p)"
  shows "pending (taskQueue p) = {#}"
proof -
  have "lanes_live qs p" using live_reach [OF r e len m] by (simp add: live_inv_def)
  then have sz: "size (pending (taskQueue p)) + size (hands phase_unset p) + length (promises p) = unat (totalSubmitted p)"
    by (simp add: lanes_live_def)
  have "s \<in> set (map fst (promises p))" if "s \<in> set (indices p)" for s
  proof -
    have nr: "future_of p s \<noteq> Not_ready" using rdy that by (simp add: list_all_iff)
    have "map_of (promises p) s \<noteq> None"
    proof
      assume "map_of (promises p) s = None"
      with nr have "future_of p s = Broken" by (simp add: future_of_def split: if_splits)
      with waiting_future [OF r e len m that] show False by blast
    qed
    then show ?thesis unfolding map_of_eq_None_iff set_map by blast
  qed
  then have "set (indices p) \<subseteq> set (map fst (promises p))" by blast
  from card_mono [OF _ this] have "card (set (indices p)) \<le> card (set (map fst (promises p)))" by simp
  also have "\<dots> \<le> length (promises p)" using card_length [of "map fst (promises p)"] by simp
  finally have "card (set (indices p)) \<le> length (promises p)" .
  moreover have "card (set (indices p)) = unat (totalSubmitted p)"
  proof -
    let ?N = "unat (totalSubmitted p)"
    have "inj_on (of_nat :: nat \<Rightarrow> u64) {1..<Suc ?N}"
    proof (rule inj_onI)
      fix i j assume ij: "i \<in> {1..<Suc ?N}" "j \<in> {1..<Suc ?N}" "(of_nat i :: u64) = of_nat j"
      have "?N < 2 ^ 64" using origin_ok_reach [OF r] len by (simp add: origin_ok_def to_come_def)
      then have "i < 2 ^ 64" "j < 2 ^ 64" using ij by simp_all
      then have "unat (of_nat i :: u64) = i" "unat (of_nat j :: u64) = j" unfolding unat_of_nat by simp_all
      with arg_cong [OF ij(3), of unat] show "i = j" by (simp only:)
    qed
    from card_image [OF this] show ?thesis unfolding indices_def set_map set_upt by simp
  qed
  ultimately have "size (pending (taskQueue p)) = 0" using sz by linarith
  then show ?thesis by simp
qed

lemma collected_live:
  assumes "reach sel broken (runtime_new qs n w) p" and e: "early_session (files w) qs" and len: "length qs < 2 ^ 62"
    and "collected p \<noteq> None"
  shows "lanes_live qs p \<and> \<not> terminated p \<and> loadQueue (taskQueue p) = []"
  using assms(1,4)
proof induction
  case start
  then show ?case by (simp add: runtime_new_def collected_def)
next
  case (step p a p')
  from step.hyps(2) show ?case
  proof (cases rule: act_cases)
    case main
    show ?thesis
    proof (cases "main p = Waiting")
      case True
      with main(2) have p': "p' = p\<lparr>main := Collected (getResultsInOrder broken p)\<rparr>"
        and rdy: "list_all (\<lambda>n. future_of p n \<noteq> Not_ready) (indices p)" by (auto simp: main_step_def split: if_splits)
      have "pending (taskQueue p) = {#}" by (rule answered_all [OF step.hyps(1) e len True rdy])
      then have "loadQueue (taskQueue p) = []" by (simp add: pending_def)
      with live_reach [OF step.hyps(1) e len True] show ?thesis by (simp add: p' live_inv_def)
    next
      case False
      with main(2) step.prems have "collected p \<noteq> None" "(\<exists>m. p' = p\<lparr>main := m\<rparr> \<or> p' = p\<lparr>main := m, stop_requested := True\<rparr>)"
        by (auto simp: main_step_def collected_def submitQuery_def startExecution_def Let_def
            split: main_pc.splits list.splits prod.splits if_splits)
      with step.IH show ?thesis by auto
    qed
  next
    case (worker i ph p1)
    have inv: "tq_inv (taskQueue p)" using pool_inv_reach [OF step.hyps(1) pool_inv_new] by (simp add: pool_inv_def)
    from work_okI [OF worker(3) inv] worker(4) step.prems have "collected p \<noteq> None" by (simp add: work_ok_def collected_def)
    from step.IH [OF this] have IH: "lanes_live qs p" "\<not> terminated p" "loadQueue (taskQueue p) = []" by blast+
    then have "no_clash (taskQueue p)" by (simp add: no_clash_def)
    note lw = lanes_worker [OF step.hyps(1) e len IH(1) this worker(2,3,4) reach.step [OF step.hyps]]
    from lw(1) IH worker_flags [OF worker(3) lw(2)] worker(4) show ?thesis by simp
  qed
qed

text \<open>
  C3: A session that loads first (\<open>early_session\<close>), continued from any state of a run under any schedule that gives every thread
  infinitely many turns, runs to its end: the main thread collects exactly the answers of the serial run, all workers
  stop, and it goes on behind its joins.
\<close>

theorem fair_session_ends:
  assumes "reach sel broken (runtime_new qs n w) p" and "early_session (files w) qs" and "length qs < 2 ^ 62"
    and "0 < n" and "fair n sched"
  shows "\<exists>k. main (play sel broken sched p k) = Finished (res_map (\<lambda>r. result_of broken (Ready r)) (serial_run qs w)) \<and>
     joined (play sel broken sched p k)"
proof -
  let ?q = "\<lambda>k. play sel broken sched p k"
  obtain k rs where c: "collected (?q k) = Some rs" using fair_collects [OF assms] by blast
  note rk = play_reach [OF assms(1), where sched = sched and k = k]
  have rs: "rs = res_map (\<lambda>r. result_of broken (Ready r)) (serial_run qs w)"
    using collected_from [OF rk c] early_results [OF _ assms(2,3)] by metis
  let ?s = "play sel broken (\<lambda>j. sched (k + j)) (?q k)"
  have c0: "collected (?s 0) = Some rs" using c by simp
  from collected_ends [OF rk fair_later [OF assms(5)] c0] obtain j where j: "terminated (?s j) \<or> main (?s j) = Finished rs" by blast
  have cj: "collected (?s j) \<noteq> None" using collected_stays [OF rk c, of _ j] by simp
  have "\<not> terminated (?s j)" using collected_live [OF play_reach [OF rk] assms(2,3) cj] by blast
  with j have m: "main (?s j) = Finished rs" by blast
  from finished_joined [OF play_reach [OF rk] this] m rs show ?thesis by (intro exI [of _ "k + j"]) (simp add: play_later)
qed

subsection \<open>Witnesses\<close>

theorem pool_stops_witness:
  "\<exists>rs k. main end_pool = Collected rs \<and> (terminated (play ref_sel [] (round_robin 2) end_pool k) \<or>
     main (play ref_sel [] (round_robin 2) end_pool k) = Finished rs \<and> joined (play ref_sel [] (round_robin 2) end_pool k))"
proof -
  have "case main end_pool of Collected rs \<Rightarrow> True | _ \<Rightarrow> False" by code_simp
  then obtain rs where m: "main end_pool = Collected rs" by (auto split: main_pc.splits)
  then have "collected end_pool = Some rs" by (simp add: collected_def)
  from pool_stops [OF end_reach [unfolded demo_new_def] this round_robin_fair] m show ?thesis by blast
qed

theorem fair_session_ends_witness:
  "\<exists>k. main (play ref_sel [] (round_robin 2) demo_new k) =
       Finished (res_map (\<lambda>r. result_of [] (Ready r)) (serial_run demo_queries demo_files)) \<and>
     joined (play ref_sel [] (round_robin 2) demo_new k)"
proof -
  have n: "(0::nat) < 2" by simp
  from fair_session_ends [OF reach.start demo_early _ n round_robin_fair] show ?thesis
    unfolding demo_new_def by (simp add: demo_queries_def)
qed

end
